(* ===== verification/Aesd_Prelude.thy ===== *)
theory Aesd_Prelude
  imports Main "HOL-Library.Word"
begin

text \<open>
  Shared vocabulary of the development: the machine integer types of the C sources, C pointers
  and the faults an invalid access raises, the result type of code that can fault, and the
  generic facts on lists and words that the component theories use.

  \<^item> \<open>u8\<close>, \<open>u32\<close>, \<open>size_t\<close> and \<open>loff_t\<close> are the unsigned and signed integers of the sources at
    their width; \<open>loff_t\<close> is read as a signed number with \<open>sint\<close>, and its conversion to
    \<open>size_t\<close> is the identity on the bits, as in C.
  \<^item> a pointer is \<open>NULL\<close> or a block and an offset into it.
  \<^item> a computation that performs an invalid memory access is \<open>Inl\<close> of a \<open>fault\<close>.
\<close>

section \<open>Types\<close>

type_synonym byte = "8 word"
type_synonym u8 = "8 word"
type_synonym u32 = "32 word"
type_synonym size_t = "64 word"
type_synonym loff_t = "64 word"

datatype cptr = NULL | Ptr nat nat

datatype fault =
    Null_Deref
  | Out_Of_Bounds
  | Bad_Access
  | Bad_Free
  | Would_Block

type_synonym 'a checked = "fault + 'a"

definition ptr_add :: "cptr \<Rightarrow> nat \<Rightarrow> cptr" where
  "ptr_add p n = (case p of NULL \<Rightarrow> NULL | Ptr a off \<Rightarrow> Ptr a (off + n))"

definition ptr_block :: "cptr \<Rightarrow> nat set" where
  "ptr_block p = (case p of NULL \<Rightarrow> {} | Ptr a _ \<Rightarrow> {a})"

primrec cbind :: "'a checked \<Rightarrow> ('a \<Rightarrow> 'b checked) \<Rightarrow> 'b checked" where
  "cbind (Inl f) k = Inl f"
| "cbind (Inr x) k = k x"

definition newline :: byte where
  "newline = 10"

section \<open>Collections of facts\<close>

named_theorems cb_simps \<open>the operations of the circular buffer\<close>
named_theorems mem_simps \<open>reading and writing memory blocks\<close>
named_theorems drv_simps \<open>the operations of the character driver\<close>

lemma cbind_Inr_iff: "cbind m k = Inr y \<longleftrightarrow> (\<exists>x. m = Inr x \<and> k x = Inr y)"
  by (cases m) auto

lemma cbind_cong [fundef_cong]:
  "m = m' \<Longrightarrow> (\<And>x. m' = Inr x \<Longrightarrow> k x = k' x) \<Longrightarrow> cbind m k = cbind m' k'"
  by (cases m') auto

lemma ptr_simps [simp]:
  "ptr_add NULL n = NULL"
  "ptr_add (Ptr a off) n = Ptr a (off + n)"
  "ptr_block NULL = {}"
  "ptr_block (Ptr a off) = {a}"
  by (simp_all add: ptr_add_def ptr_block_def)

section \<open>Lists\<close>

text \<open>The last \<open>n\<close> elements of a list.\<close>

definition lastn :: "nat \<Rightarrow> 'a list \<Rightarrow> 'a list" where
  "lastn n xs = drop (length xs - n) xs"

lemma length_lastn [simp]: "length (lastn n xs) = min n (length xs)"
  by (auto simp: lastn_def)

lemma lastn_le [simp]: "length xs \<le> n \<Longrightarrow> lastn n xs = xs"
  by (simp add: lastn_def)

lemma lastn_snoc:
  assumes "0 < n"
  shows "lastn n (xs @ [x]) = (if length (lastn n xs) = n then tl (lastn n xs) else lastn n xs) @ [x]"
  using assms by (auto simp: lastn_def Suc_diff_le tl_drop drop_Suc)

lemma lastn_lastn_append: "lastn n (lastn n xs @ ys) = lastn n (xs @ ys)"
proof (cases "length xs \<le> n")
  case False
  let ?d = "length xs - n"
  have "lastn n (drop ?d xs @ ys) = drop (length ys) (drop ?d xs @ ys)"
    using False by (simp add: lastn_def)
  also have "\<dots> = drop (length ys + ?d) (xs @ ys)"
    using False by (simp only: drop_append) simp
  also have "\<dots> = lastn n (xs @ ys)"
    using False by (simp add: lastn_def add.commute)
  finally show ?thesis by (simp add: lastn_def)
qed simp

lemma set_lastn_subset: "set (lastn n xs) \<subseteq> set xs"
  by (auto simp: lastn_def dest: in_set_dropD)

lemma map_lastn: "map f (lastn n xs) = lastn n (map f xs)"
  by (simp add: lastn_def drop_map)

text \<open>
  The position of offset \<open>p\<close> in a sequence of chunks of the given lengths: the index of the
  chunk that holds it and the offset inside that chunk, \<open>None\<close> past the end.
\<close>

fun locate :: "nat list \<Rightarrow> nat \<Rightarrow> (nat \<times> nat) option" where
  "locate [] p = None"
| "locate (s # ss) p =
     (if p < s then Some (0, p) else map_option (map_prod Suc id) (locate ss (p - s)))"

lemma locate_Some:
  assumes "locate ss p = Some (i, q)"
  shows "i < length ss \<and> q < ss ! i \<and> sum_list (take i ss) + q = p"
  using assms
proof (induction ss p arbitrary: i q rule: locate.induct)
  case (2 s ss p)
  then show ?case by (cases "p < s") (auto simp: map_prod_def split: prod.splits)
qed simp

lemma locate_None: "locate ss p = None \<longleftrightarrow> sum_list ss \<le> p"
  by (induction ss p rule: locate.induct) auto

lemma locate_unique:
  assumes "i < length ss" "q < ss ! i" "sum_list (take i ss) + q = p"
  shows "locate ss p = Some (i, q)"
  using assms
proof (induction ss arbitrary: i p)
  case (Cons s ss)
  then show ?case by (cases i) (auto simp: map_prod_def)
qed simp

text \<open>Reading a concatenation of chunks at the position \<open>locate\<close> finds.\<close>

lemma drop_concat_locate:
  assumes "locate (map length xss) p = Some (i, q)"
  shows "drop p (concat xss) = drop q (xss ! i) @ concat (drop (Suc i) xss)"
  using assms
proof (induction xss arbitrary: p i)
  case (Cons xs xss)
  then show ?case by (cases "p < length xs") (auto simp: map_prod_def split: prod.splits)
qed simp

lemma sum_list_rotate: "sum_list (map f (rotate n xs)) = (sum_list (map f xs) :: nat)"
proof (induction n)
  case (Suc n)
  then show ?case by (cases "rotate n xs") (auto simp: rotate_Suc)
qed simp

section \<open>Words\<close>

lemma unat_of_nat_lt: "n < 2 ^ LENGTH('a) \<Longrightarrow> unat (of_nat n :: 'a::len word) = n"
  by (simp add: unat_of_nat take_bit_eq_mod)

section \<open>Runs and loops\<close>

text \<open>
  A run that may not return is \<open>None\<close>; one that returns either faulted or has a result.
  A loop is given by its step: one evaluation of the guard and the body, which either goes on
  with a new loop state or leaves the loop with a result.
\<close>

type_synonym 'a run = "'a checked option"

definition rbind :: "'a run \<Rightarrow> ('a \<Rightarrow> 'b run) \<Rightarrow> 'b run" where
  "rbind m k = (case m of None \<Rightarrow> None | Some (Inl f) \<Rightarrow> Some (Inl f) | Some (Inr x) \<Rightarrow> k x)"

partial_function (option) run_loop :: "('s \<Rightarrow> ('s + 'r) checked) \<Rightarrow> 's \<Rightarrow> 'r run" where
  "run_loop body s =
     (case body s of
        Inl f \<Rightarrow> Some (Inl f)
      | Inr x \<Rightarrow> (case x of Inl s' \<Rightarrow> run_loop body s' | Inr r \<Rightarrow> Some (Inr r)))"

lemma rbind_simps [simp]:
  "rbind None k = None"
  "rbind (Some (Inl f)) k = Some (Inl f)"
  "rbind (Some (Inr x)) k = k x"
  by (simp_all add: rbind_def)

lemma rbind_assoc: "rbind (rbind m k) l = rbind m (\<lambda>x. rbind (k x) l)"
  by (simp add: rbind_def split: option.split sum.split)

lemma run_cases:
  fixes m :: "'a run"
  obtains "m = None" | f where "m = Some (Inl f)" | x where "m = Some (Inr x)"
  by (metis not_Some_eq sum.exhaust)

lemma rbind_Inr_iff:
  "rbind m k = Some (Inr y) \<longleftrightarrow> (\<exists>x. m = Some (Inr x) \<and> k x = Some (Inr y))"
  by (auto simp: rbind_def split: option.splits sum.splits)

lemma run_loop_step:
  "body s = Inl f \<Longrightarrow> run_loop body s = Some (Inl f)"
  "body s = Inr (Inl s') \<Longrightarrow> run_loop body s = run_loop body s'"
  "body s = Inr (Inr r) \<Longrightarrow> run_loop body s = Some (Inr r)"
  by (simp_all add: run_loop.simps [of body s])

text \<open>
  Total correctness of a loop: an invariant that excludes faults, a measure that every
  continuing step decreases, and a postcondition that every leaving step establishes.
\<close>

lemma run_loop_total:
  fixes m :: "'s \<Rightarrow> nat"
  assumes "I s"
    and "\<And>s. I s \<Longrightarrow> \<exists>x. body s = Inr x \<and>
           (case x of Inl s' \<Rightarrow> I s' \<and> m s' < m s | Inr r \<Rightarrow> Q r)"
  shows "\<exists>r. run_loop body s = Some (Inr r) \<and> Q r"
  using assms(1)
proof (induction "m s" arbitrary: s rule: less_induct)
  case less
  obtain x where x: "body s = Inr x" "case x of Inl s' \<Rightarrow> I s' \<and> m s' < m s | Inr r \<Rightarrow> Q r"
    using assms(2) [OF less.prems] by blast
  show ?case
  proof (cases x)
    case (Inl s')
    with x less.hyps [of s'] show ?thesis by (simp add: run_loop_step)
  next
    case (Inr r)
    with x show ?thesis by (simp add: run_loop_step)
  qed
qed

text \<open>Induction over the rounds of a loop that returns.\<close>

lemma run_loop_Some_induct [consumes 1, case_names fault more left]:
  assumes "run_loop body s = Some r"
    and "\<And>s f. body s = Inl f \<Longrightarrow> P s (Inl f)"
    and "\<And>s s' r. body s = Inr (Inl s') \<Longrightarrow> run_loop body s' = Some r \<Longrightarrow> P s' r \<Longrightarrow> P s r"
    and "\<And>s r. body s = Inr (Inr r) \<Longrightarrow> P s (Inr r)"
  shows "P s r"
proof -
  have "b = body \<longrightarrow> run_loop body s = Some r \<and> P s r" if "run_loop b s = Some r" for b
    by (rule run_loop.raw_induct [where P = "\<lambda>b s r. b = body \<longrightarrow> run_loop body s = Some r \<and> P s r", OF _ that])
      (use assms(2-4) in \<open>auto simp: run_loop_step split: sum.splits\<close>)
  then show ?thesis using assms(1) by simp
qed

text \<open>A loop whose rounds are those of another one until that one is left.\<close>

lemma run_loop_inside:
  assumes "\<And>x. outer (emb x) = (case body x of Inl f \<Rightarrow> Inl f
      | Inr y \<Rightarrow> Inr (Inl (case y of Inl x' \<Rightarrow> emb x' | Inr r \<Rightarrow> fin r)))"
  shows "run_loop outer (emb x) = rbind (run_loop body x) (\<lambda>r. run_loop outer (fin r))"
proof -
  let ?k = "\<lambda>r. run_loop outer (fin r)"
  have fwd: "run_loop outer (emb x) = rbind (Some r) ?k" if "run_loop body x = Some r" for r
    using that by (induction rule: run_loop_Some_induct) (simp_all add: assms run_loop_step)
  have bwd: "rbind (run_loop body x) ?k = Some r" if "run_loop outer y = Some r" "y = emb x" for r x y
    using that
  proof (induction arbitrary: x rule: run_loop_Some_induct)
    case (fault y f)
    then show ?case by (cases "body x") (auto simp: assms run_loop_step)
  next
    case (more y y2 r)
    then show ?case by (cases "body x") (auto simp: assms run_loop_step split: sum.splits)
  next
    case (left y r)
    then show ?case by (cases "body x") (auto simp: assms)
  qed
  show ?thesis
  proof (cases "run_loop body x")
    case None
    then show ?thesis using bwd [of "emb x" _ x] by (cases "run_loop outer (emb x)") auto
  next
    case (Some r)
    then show ?thesis using fwd by simp
  qed
qed

text \<open>The same for a body that may itself not return.\<close>

partial_function (option) run_iter :: "('s \<Rightarrow> ('s + 'r) run) \<Rightarrow> 's \<Rightarrow> 'r run" where
  "run_iter body s =
     (case body s of
        None \<Rightarrow> None
      | Some y \<Rightarrow> (case y of
            Inl f \<Rightarrow> Some (Inl f)
          | Inr x \<Rightarrow> (case x of Inl s' \<Rightarrow> run_iter body s' | Inr r \<Rightarrow> Some (Inr r))))"

lemma run_iter_step:
  "body s = None \<Longrightarrow> run_iter body s = None"
  "body s = Some (Inl f) \<Longrightarrow> run_iter body s = Some (Inl f)"
  "body s = Some (Inr (Inl s')) \<Longrightarrow> run_iter body s = run_iter body s'"
  "body s = Some (Inr (Inr r)) \<Longrightarrow> run_iter body s = Some (Inr r)"
  by (simp_all add: run_iter.simps [of body s])

lemma run_iter_Some_induct [consumes 1, case_names fault more left]:
  assumes "run_iter body s = Some r"
    and "\<And>s f. body s = Some (Inl f) \<Longrightarrow> P s (Inl f)"
    and "\<And>s s' r. body s = Some (Inr (Inl s')) \<Longrightarrow> run_iter body s' = Some r \<Longrightarrow> P s' r \<Longrightarrow> P s r"
    and "\<And>s r. body s = Some (Inr (Inr r)) \<Longrightarrow> P s (Inr r)"
  shows "P s r"
proof -
  have "b = body \<longrightarrow> run_iter body s = Some r \<and> P s r" if "run_iter b s = Some r" for b
    by (rule run_iter.raw_induct [where P = "\<lambda>b s r. b = body \<longrightarrow> run_iter body s = Some r \<and> P s r", OF _ that])
      (use assms(2-4) in \<open>auto simp: run_iter_step split: sum.splits option.splits\<close>)
  then show ?thesis using assms(1) by simp
qed

lemma round_cases:
  fixes m :: "('a + 'b) run"
  obtains "m = None" | f where "m = Some (Inl f)" | x where "m = Some (Inr (Inl x))" | r where "m = Some (Inr (Inr r))"
  by (metis not_Some_eq sum.exhaust)

lemma run_iter_unfold:
  "run_iter body s = rbind (body s) (\<lambda>x. case x of Inl s' \<Rightarrow> run_iter body s' | Inr r \<Rightarrow> Some (Inr r))"
  by (simp add: run_iter.simps [of body s] rbind_def split: option.split sum.split)

lemma run_iter_inside:
  assumes "\<And>x. outer (emb x) = rbind (body x) (\<lambda>y. Some (Inr (Inl (case y of Inl x' \<Rightarrow> emb x' | Inr r \<Rightarrow> fin r))))"
  shows "run_iter outer (emb x) = rbind (run_iter body x) (\<lambda>r. run_iter outer (fin r))"
proof -
  let ?k = "\<lambda>r. run_iter outer (fin r)"
  have fwd: "run_iter outer (emb x) = rbind (Some r) ?k" if "run_iter body x = Some r" for r
    using that by (induction rule: run_iter_Some_induct) (simp_all add: assms run_iter_step)
  have bwd: "rbind (run_iter body x) ?k = Some r" if "run_iter outer y = Some r" "y = emb x" for r x y
    using that
  proof (induction arbitrary: x rule: run_iter_Some_induct)
    case (fault y f)
    then show ?case by (cases "body x" rule: round_cases) (simp_all add: assms run_iter_step)
  next
    case (more y y2 r)
    then show ?case by (cases "body x" rule: round_cases) (simp_all add: assms run_iter_step)
  next
    case (left y r)
    then show ?case by (cases "body x" rule: round_cases) (simp_all add: assms run_iter_step)
  qed
  show ?thesis
  proof (cases "run_iter body x")
    case None
    then show ?thesis using bwd [of "emb x" _ x] by (cases "run_iter outer (emb x)") auto
  next
    case (Some r)
    then show ?thesis using fwd by simp
  qed
qed

text \<open>A loop whose rounds are those of another one, in other states and with another result.\<close>

lemma run_iter_embed:
  assumes "\<And>x. outer (emb x) = Some (case body x of Inl f \<Rightarrow> Inl f
      | Inr y \<Rightarrow> Inr (case y of Inl x' \<Rightarrow> Inl (emb x') | Inr r \<Rightarrow> Inr (g r)))"
  shows "run_iter outer (emb x) = rbind (run_loop body x) (\<lambda>r. Some (Inr (g r)))"
proof -
  let ?k = "\<lambda>r. Some (Inr (g r))"
  have fwd: "run_iter outer (emb x) = rbind (Some r) ?k" if "run_loop body x = Some r" for r
    using that by (induction rule: run_loop_Some_induct) (simp_all add: assms run_iter_step)
  have bwd: "rbind (run_loop body x) ?k = Some r" if "run_iter outer y = Some r" "y = emb x" for r x y
    using that
    by (induction arbitrary: x rule: run_iter_Some_induct)
      (auto simp: assms run_loop_step split: sum.splits)
  show ?thesis
  proof (cases "run_loop body x")
    case None
    then show ?thesis using bwd [of "emb x" _ x] by (cases "run_iter outer (emb x)") auto
  next
    case (Some r)
    then show ?thesis using fwd by simp
  qed
qed

end
