(* ===== verification/Circular_Buffer.thy ===== *)
theory Circular_Buffer
  imports Aesd_Prelude
begin

text \<open>
  The circular buffer of \<^verbatim>\<open>aesd-char-driver/aesd-circular-buffer.h\<close> and
  \<^verbatim>\<open>aesd-char-driver/aesd-circular-buffer.c\<close>: the entry and buffer structs, adding an entry,
  finding the entry that holds a file position, initialisation and the iteration macro.
  Offsets are bytes and sizes are 64-bit words, as in the C structs; an array access outside
  the ten slots is the fault \<open>Out_Of_Bounds\<close>, and the search loop is a partial function, so
  that its termination is a theorem and not a convention.

  The abstraction \<open>cb_list\<close> reads the stored entries oldest first. The refinement lemmas say
  that adding behaves as a bounded log and that searching is \<open>locate\<close> on the entry sizes; the
  locale \<open>bounded_log\<close> is the interface the driver uses.
\<close>

section \<open>Data\<close>

definition AESDCHAR_MAX_WRITE_OPERATIONS_SUPPORTED :: nat where
  "AESDCHAR_MAX_WRITE_OPERATIONS_SUPPORTED = 10"

abbreviation MAXW :: nat where
  "MAXW \<equiv> AESDCHAR_MAX_WRITE_OPERATIONS_SUPPORTED"

record aesd_buffer_entry =
  buffptr :: cptr
  esize :: size_t

record aesd_circular_buffer =
  entry :: "aesd_buffer_entry list"
  in_offs :: u8
  out_offs :: u8
  full :: bool

definition null_entry :: aesd_buffer_entry where
  "null_entry = \<lparr>buffptr = NULL, esize = 0\<rparr>"

section \<open>Operations\<close>

text \<open>\<open>(offs + 1) % 10\<close> is computed at type \<^verbatim>\<open>int\<close> and stored back into a \<^verbatim>\<open>uint8_t\<close>.\<close>

definition next_offs :: "u8 \<Rightarrow> u8" where
  "next_offs offs = of_nat ((unat offs + 1) mod MAXW)"

definition entry_at :: "aesd_circular_buffer \<Rightarrow> u8 \<Rightarrow> aesd_buffer_entry checked" where
  "entry_at b offs =
     (if unat offs < length (entry b) then Inr (entry b ! unat offs) else Inl Out_Of_Bounds)"

text \<open>
  The loop of the search. \<open>count\<close> is decremented whenever its test is evaluated, that is when
  the buffer is full, and wraps below zero. The result is the slot whose address is returned
  and the value stored through \<^verbatim>\<open>entry_offset_byte_rtn\<close>, or \<open>None\<close> for a null pointer.
\<close>

partial_function (option) find_loop ::
  "aesd_circular_buffer \<Rightarrow> size_t \<Rightarrow> u8 \<Rightarrow> u8 \<Rightarrow> (u8 \<times> size_t) option checked option" where
  "find_loop b char_offset count offset =
     (let taken = full b \<and> count > 0;
          count' = (if full b then count - 1 else count)
      in if 0 \<le> char_offset \<and> (taken \<or> offset \<noteq> in_offs b)
         then (case entry_at b offset of
                 Inl f \<Rightarrow> Some (Inl f)
               | Inr e \<Rightarrow>
                   if char_offset < esize e then Some (Inr (Some (offset, char_offset)))
                   else find_loop b (char_offset - esize e) count' (next_offs offset))
         else Some (Inr None))"

definition aesd_circular_buffer_find_entry_offset_for_fpos ::
  "aesd_circular_buffer \<Rightarrow> size_t \<Rightarrow> (u8 \<times> size_t) option checked option" where
  "aesd_circular_buffer_find_entry_offset_for_fpos b char_offset =
     find_loop b char_offset (of_nat MAXW) (out_offs b)"

definition aesd_circular_buffer_add_entry ::
  "aesd_circular_buffer \<Rightarrow> aesd_buffer_entry \<Rightarrow> (cptr \<times> aesd_circular_buffer) checked" where
  "aesd_circular_buffer_add_entry b add_entry =
     cbind (entry_at b (in_offs b)) (\<lambda>old.
       let ptr = (if full b then buffptr old else NULL);
           b1 = b\<lparr>entry := (entry b)[unat (in_offs b) := add_entry]\<rparr>;
           b2 = b1\<lparr>in_offs := next_offs (in_offs b1)\<rparr>
       in if full b2 then Inr (ptr, b2\<lparr>out_offs := next_offs (out_offs b2)\<rparr>)
          else if in_offs b2 = out_offs b2 then Inr (NULL, b2\<lparr>full := True\<rparr>)
          else Inr (NULL, b2))"

definition aesd_circular_buffer_init :: aesd_circular_buffer where
  "aesd_circular_buffer_init =
     \<lparr>entry = replicate MAXW null_entry, in_offs = 0, out_offs = 0, full = False\<rparr>"

text \<open>
  \<^verbatim>\<open>AESD_CIRCULAR_BUFFER_FOREACH\<close>: the body runs on the slots \<open>0, \<dots>, 9\<close> in turn; it gets
  the index, the slot's contents and the accumulated state, and returns the new contents.
\<close>

definition AESD_CIRCULAR_BUFFER_FOREACH ::
  "(nat \<Rightarrow> aesd_buffer_entry \<Rightarrow> 's \<Rightarrow> (aesd_buffer_entry \<times> 's) checked) \<Rightarrow>
   aesd_circular_buffer \<Rightarrow> 's \<Rightarrow> (aesd_circular_buffer \<times> 's) checked" where
  "AESD_CIRCULAR_BUFFER_FOREACH body b s =
     fold (\<lambda>index acc. cbind acc (\<lambda>(b, s). cbind (entry_at b (of_nat index)) (\<lambda>e.
             cbind (body index e s) (\<lambda>(e', s').
               Inr (b\<lparr>entry := (entry b)[index := e']\<rparr>, s')))))
       [0..<MAXW] (Inr (b, s))"

section \<open>Well-formed buffers and their contents\<close>

definition wf_cb :: "aesd_circular_buffer \<Rightarrow> bool" where
  "wf_cb b \<longleftrightarrow> length (entry b) = MAXW \<and> unat (in_offs b) < MAXW \<and> unat (out_offs b) < MAXW \<and>
     (full b \<longrightarrow> in_offs b = out_offs b)"

definition cb_count :: "aesd_circular_buffer \<Rightarrow> nat" where
  "cb_count b = (if full b then MAXW else (unat (in_offs b) + MAXW - unat (out_offs b)) mod MAXW)"

definition cb_index :: "aesd_circular_buffer \<Rightarrow> nat \<Rightarrow> nat" where
  "cb_index b i = (unat (out_offs b) + i) mod MAXW"

definition cb_list :: "aesd_circular_buffer \<Rightarrow> aesd_buffer_entry list" where
  "cb_list b = map (\<lambda>i. entry b ! cb_index b i) [0..<cb_count b]"

text \<open>
  What holds in addition in every buffer the program builds: until the buffer fills up, the
  oldest entry is in slot 0 and the slots not yet written are zero.
\<close>

definition cb_inv :: "aesd_circular_buffer \<Rightarrow> bool" where
  "cb_inv b \<longleftrightarrow> wf_cb b \<and>
     (\<not> full b \<longrightarrow> out_offs b = 0 \<and> drop (unat (in_offs b)) (entry b) =
        replicate (MAXW - unat (in_offs b)) null_entry)"

lemma MAXW_eq [simp]: "MAXW = 10"
  by (simp add: AESDCHAR_MAX_WRITE_OPERATIONS_SUPPORTED_def)

lemma unat_next_offs [cb_simps]: "unat (next_offs i) = (unat i + 1) mod 10"
proof -
  have "(unat i + 1) mod 10 < 2 ^ LENGTH(8)" by (simp add: order.strict_trans1 [of _ 9])
  then show ?thesis unfolding next_offs_def MAXW_eq by (rule unat_of_nat_lt)
qed

lemma cb_inv_wf [simp]: "cb_inv b \<Longrightarrow> wf_cb b"
  by (simp add: cb_inv_def)

lemma cb_count_le: "cb_count b \<le> 10"
  by (simp add: cb_count_def order.strict_implies_order)

lemma length_cb_list [simp]: "length (cb_list b) = cb_count b"
  by (simp add: cb_list_def)

lemma cb_index_lt [simp]: "cb_index b i < 10"
  by (simp add: cb_index_def)

lemma nth_cb_list [simp]: "i < cb_count b \<Longrightarrow> cb_list b ! i = entry b ! cb_index b i"
  by (simp add: cb_list_def)

lemma cb_count_full [simp]: "full b \<Longrightarrow> cb_count b = 10"
  by (simp add: cb_count_def)

lemma cb_count_not_full: "wf_cb b \<Longrightarrow> \<not> full b \<Longrightarrow> cb_count b < 10"
  by (simp add: cb_count_def)

section \<open>Adding an entry\<close>

lemma entry_at_ok [cb_simps]: "wf_cb b \<Longrightarrow> unat i < 10 \<Longrightarrow> entry_at b i = Inr (entry b ! unat i)"
  by (simp add: entry_at_def wf_cb_def)

text \<open>The state after adding, as one equation.\<close>

definition cb_added :: "aesd_circular_buffer \<Rightarrow> aesd_buffer_entry \<Rightarrow> aesd_circular_buffer" where
  "cb_added b e = b\<lparr>entry := (entry b)[unat (in_offs b) := e], in_offs := next_offs (in_offs b),
     out_offs := (if full b then next_offs (out_offs b) else out_offs b),
     full := (full b \<or> next_offs (in_offs b) = out_offs b)\<rparr>"

lemma add_entry_eq [cb_simps]:
  assumes "wf_cb b"
  shows "aesd_circular_buffer_add_entry b e =
    Inr (if full b then buffptr (hd (cb_list b)) else NULL, cb_added b e)"
proof -
  have "full b \<Longrightarrow> hd (cb_list b) = entry b ! unat (in_offs b)"
    using assms by (simp add: cb_list_def hd_map cb_index_def wf_cb_def hd_upt)
  moreover have "entry_at b (in_offs b) = Inr (entry b ! unat (in_offs b))"
    using assms by (intro entry_at_ok) (simp_all add: wf_cb_def)
  ultimately show ?thesis
    by (auto simp: aesd_circular_buffer_add_entry_def cb_added_def Let_def)
qed

lemma wf_cb_added [simp]: "wf_cb b \<Longrightarrow> wf_cb (cb_added b e)"
  by (auto simp: wf_cb_def cb_added_def unat_next_offs)

lemma next_offs_eq_iff:
  "unat i < 10 \<Longrightarrow> unat j < 10 \<Longrightarrow> next_offs i = j \<longleftrightarrow> (unat i + 1) mod 10 = unat j"
  by (auto simp: word_unat_eq_iff unat_next_offs)

lemma mod10_if: "n < 20 \<Longrightarrow> n mod 10 = (if n < 10 then n else n - 10 :: nat)"
  by (auto simp: not_less le_mod_geq)

lemma cb_count_if:
  assumes "wf_cb b" "\<not> full b"
  shows "cb_count b = (if unat (out_offs b) \<le> unat (in_offs b)
    then unat (in_offs b) - unat (out_offs b) else unat (in_offs b) + 10 - unat (out_offs b))"
  using assms by (auto simp: cb_count_def wf_cb_def mod10_if)

lemma cb_count_added:
  assumes "wf_cb b"
  shows "cb_count (cb_added b e) = (if full b then 10 else Suc (cb_count b))"
proof (cases "full (cb_added b e)")
  case True
  then show ?thesis
    using assms cb_count_if [OF assms]
    by (auto simp: cb_added_def wf_cb_def next_offs_eq_iff mod10_if split: if_splits)
next
  case False
  then have "cb_count b = (if unat (out_offs b) \<le> unat (in_offs b)
    then unat (in_offs b) - unat (out_offs b) else unat (in_offs b) + 10 - unat (out_offs b))"
    using assms by (intro cb_count_if) (auto simp: cb_added_def)
  moreover from False have "wf_cb (cb_added b e)" "\<not> full (cb_added b e)"
    using assms by simp_all
  note cb_count_if [OF this]
  ultimately show ?thesis
    using False assms
    by (auto simp: cb_added_def wf_cb_def next_offs_eq_iff unat_next_offs mod10_if split: if_splits)
qed

lemma cb_index_in_offs:
  "wf_cb b \<Longrightarrow> unat (in_offs b) = cb_index b (cb_count b)"
  by (auto simp: wf_cb_def cb_index_def cb_count_def mod_simps)

lemma cb_index_neq_in_offs:
  assumes "wf_cb b" "0 < i \<or> \<not> full b" "i < cb_count b"
  shows "cb_index b i \<noteq> unat (in_offs b)"
proof (cases "full b")
  case True
  then show ?thesis
    using assms by (auto simp: wf_cb_def cb_index_def mod10_if)
next
  case False
  with assms cb_count_if [OF assms(1)] show ?thesis
    by (auto simp: wf_cb_def cb_index_def mod10_if split: if_splits)
qed

theorem cb_list_added:
  assumes "wf_cb b"
  shows "cb_list (cb_added b e) =
    (if full b then tl (cb_list b) else cb_list b) @ [e]" (is "?l = ?r")
proof (rule nth_equalityI)
  show len: "length ?l = length ?r"
    using assms by (simp add: cb_count_added)
  fix i assume i: "i < length ?l"
  then have ic: "i < cb_count (cb_added b e)" by simp
  let ?s = "if full b then 1 else 0 :: nat"
  have idx: "cb_index (cb_added b e) i = cb_index b (i + ?s)"
    by (simp add: cb_index_def cb_added_def unat_next_offs mod_simps)
  have li: "?l ! i = (entry b)[unat (in_offs b) := e] ! cb_index b (i + ?s)"
    using ic by (simp add: idx) (simp add: cb_added_def)
  show "?l ! i = ?r ! i"
  proof (cases "i + ?s < cb_count b")
    case True
    then have "cb_index b (i + ?s) \<noteq> unat (in_offs b)"
      using assms by (intro cb_index_neq_in_offs) auto
    with li True show ?thesis
      by (auto simp: nth_append nth_tl)
  next
    case False
    with ic have eq: "i + ?s = cb_count b"
      using assms by (auto simp: cb_count_added split: if_splits)
    then have "?l ! i = e"
      using assms li cb_index_in_offs [OF assms] by (simp add: wf_cb_def)
    with eq show ?thesis
      by (auto simp: nth_append split: if_splits)
  qed
qed

lemma cb_inv_init [simp]: "cb_inv aesd_circular_buffer_init"
  by (simp add: cb_inv_def wf_cb_def aesd_circular_buffer_init_def)

lemma cb_list_init [simp]: "cb_list aesd_circular_buffer_init = []"
  by (simp add: cb_list_def cb_count_def aesd_circular_buffer_init_def)

lemma cb_inv_added:
  assumes "cb_inv b"
  shows "cb_inv (cb_added b e)"
proof (cases "full (cb_added b e)")
  case True
  then show ?thesis using assms by (simp add: cb_inv_def)
next
  case False
  let ?i = "unat (in_offs b)"
  have nf: "\<not> full b" "next_offs (in_offs b) \<noteq> out_offs b" and o: "out_offs b = 0"
    using False assms by (auto simp: cb_added_def cb_inv_def)
  have len: "length (entry b) = 10" "?i < 10" using assms by (auto simp: cb_inv_def wf_cb_def)
  have "?i + 1 < 10"
    using nf(2) o len(2) by (auto simp: word_unat_eq_iff unat_next_offs mod10_if split: if_splits)
  then have ni: "unat (next_offs (in_offs b)) = Suc ?i"
    by (simp add: unat_next_offs)
  have "drop (Suc ?i) (entry b) = replicate (10 - Suc ?i) null_entry"
  proof -
    have "drop (Suc ?i) (entry b) = tl (drop ?i (entry b))" by (simp add: drop_Suc tl_drop)
    also have "\<dots> = tl (replicate (10 - ?i) null_entry)"
      using assms nf(1) by (simp add: cb_inv_def)
    finally show ?thesis using len(2) by (simp add: tl_replicate)
  qed
  moreover have "in_offs (cb_added b e) = next_offs (in_offs b)" "out_offs (cb_added b e) = 0"
    "drop (Suc ?i) (entry (cb_added b e)) = drop (Suc ?i) (entry b)"
    using nf o by (simp_all add: cb_added_def)
  ultimately show ?thesis
    using assms ni by (simp add: cb_inv_def)
qed

section \<open>Searching\<close>

definition cb_sizes :: "aesd_circular_buffer \<Rightarrow> nat list" where
  "cb_sizes b = map (\<lambda>e. unat (esize e)) (cb_list b)"

lemma length_cb_sizes [simp]: "length (cb_sizes b) = cb_count b"
  by (simp add: cb_sizes_def)

lemma find_guard_iff:
  assumes "wf_cb b" "k \<le> cb_count b"
  shows "(full b \<and> (if full b then of_nat (10 - k) else 10 :: u8) > 0 \<or>
          (of_nat (cb_index b k) :: u8) \<noteq> in_offs b) \<longleftrightarrow> k < cb_count b"
proof -
  have u: "unat (of_nat (10 - k) :: u8) = 10 - k" "unat (of_nat (cb_index b k) :: u8) = cb_index b k"
    using cb_index_lt [of b k] by (simp_all add: unat_of_nat_lt order.strict_trans del: cb_index_lt)
  have eq: "(of_nat (cb_index b k) :: u8) = in_offs b \<longleftrightarrow> cb_index b k = unat (in_offs b)"
    using u(2) by (simp add: word_unat_eq_iff)
  have pos: "0 < (of_nat (10 - k) :: u8) \<longleftrightarrow> k < 10"
    using u(1) by (simp add: word_less_nat_alt)
  show ?thesis
  proof (cases "k < cb_count b")
    case True
    then show ?thesis
      using assms(1) cb_index_neq_in_offs [OF assms(1), of k] pos cb_count_le [of b] eq by auto
  next
    case False
    then have "k = cb_count b" using assms(2) by simp
    then show ?thesis
      using cb_index_in_offs [OF assms(1)] eq pos by auto
  qed
qed

lemma next_offs_cb_index: "next_offs (of_nat (cb_index b k)) = of_nat (cb_index b (Suc k))"
proof -
  have "unat (of_nat (cb_index b k) :: u8) = cb_index b k"
    by (rule unat_of_nat_lt) (rule less_trans [OF cb_index_lt], simp)
  then show ?thesis by (simp add: next_offs_def cb_index_def mod_simps)
qed

lemma drop_cb_sizes:
  "k < cb_count b \<Longrightarrow> drop k (cb_sizes b) = unat (esize (entry b ! cb_index b k)) # drop (Suc k) (cb_sizes b)"
  by (subst Cons_nth_drop_Suc [symmetric]) (simp_all add: cb_sizes_def)

lemma find_loop_locate:
  assumes "wf_cb b" "k \<le> cb_count b"
  shows "find_loop b co (if full b then of_nat (10 - k) else 10) (of_nat (cb_index b k)) =
    Some (Inr (map_option (\<lambda>(i, q). (of_nat (cb_index b (k + i)), of_nat q))
      (locate (drop k (cb_sizes b)) (unat co))))"
  using assms(2)
proof (induction "cb_count b - k" arbitrary: k co)
  case 0
  then have "\<not> k < cb_count b" by simp
  with find_guard_iff [OF assms(1) 0(2)] show ?case
    by (subst find_loop.simps) (simp add: Let_def)
next
  case (Suc n)
  let ?e = "entry b ! cb_index b k"
  have k: "k < cb_count b" using Suc.hyps(2) by simp
  have u: "unat (of_nat (cb_index b k) :: u8) = cb_index b k"
    by (rule unat_of_nat_lt) (rule less_trans [OF cb_index_lt], simp)
  have e: "entry_at b (of_nat (cb_index b k)) = Inr ?e"
    using assms(1) u by (simp add: entry_at_ok)
  have count: "(if full b then (if full b then of_nat (10 - k) else 10) - 1
      else (if full b then of_nat (10 - k) else 10) :: u8) =
      (if full b then of_nat (10 - Suc k) else 10)"
    using k cb_count_le [of b] by (simp add: of_nat_diff)
  show ?case
  proof (cases "co < esize ?e")
    case True
    then have "unat co < unat (esize ?e)" by (simp add: word_less_nat_alt)
    with True find_guard_iff [OF assms(1) Suc.prems] k e show ?thesis
      by (subst find_loop.simps) (simp add: Let_def drop_cb_sizes)
  next
    case False
    then have le: "unat (esize ?e) \<le> unat co" by (simp add: word_le_nat_alt not_less)
    then have sub: "unat (co - esize ?e) = unat co - unat (esize ?e)"
      by (simp add: unat_sub word_le_nat_alt)
    have IH: "find_loop b (co - esize ?e) (if full b then of_nat (10 - Suc k) else 10)
        (of_nat (cb_index b (Suc k))) =
      Some (Inr (map_option (\<lambda>(i, q). (of_nat (cb_index b (Suc k + i)), of_nat q))
        (locate (drop (Suc k) (cb_sizes b)) (unat (co - esize ?e)))))"
      using Suc.hyps k by (intro Suc.hyps(1)) simp_all
    have "find_loop b co (if full b then of_nat (10 - k) else 10) (of_nat (cb_index b k)) =
      find_loop b (co - esize ?e) (if full b then of_nat (10 - Suc k) else 10)
        (of_nat (cb_index b (Suc k)))"
      using False find_guard_iff [OF assms(1) Suc.prems] k e count
      by (subst find_loop.simps) (simp only: Let_def next_offs_cb_index, simp)
    then show ?thesis
      using IH le sub k by (simp add: drop_cb_sizes option.map_comp o_def map_prod_def split_def)
  qed
qed

lemma find_entry_locate:
  assumes "wf_cb b"
  shows "aesd_circular_buffer_find_entry_offset_for_fpos b co =
    Some (Inr (map_option (\<lambda>(i, q). (of_nat (cb_index b i), of_nat q))
      (locate (cb_sizes b) (unat co))))"
proof -
  have "of_nat (cb_index b 0) = out_offs b"
    using assms by (simp add: cb_index_def wf_cb_def)
  moreover have "(if full b then of_nat (10 - 0) else 10 :: u8) = of_nat MAXW" by simp
  ultimately show ?thesis
    using find_loop_locate [OF assms, of 0 co]
    by (simp add: aesd_circular_buffer_find_entry_offset_for_fpos_def del: of_nat_numeral MAXW_eq)
qed

text \<open>Summing over all ten slots sums over the stored entries.\<close>

lemma sum_all_slots:
  assumes "cb_inv b"
  shows "(\<Sum>e\<leftarrow>entry b. unat (esize e)) = sum_list (cb_sizes b)"
proof (cases "full b")
  case True
  have "cb_list b = rotate (unat (out_offs b)) (entry b)"
    using assms True by (auto simp: cb_inv_def wf_cb_def list_eq_iff_nth_eq nth_rotate cb_index_def)
  then show ?thesis
    by (simp add: cb_sizes_def sum_list_rotate)
next
  case False
  then have "cb_list b = take (unat (in_offs b)) (entry b)"
    using assms by (auto simp: cb_inv_def wf_cb_def list_eq_iff_nth_eq cb_count_if cb_index_def)
  moreover have "drop (unat (in_offs b)) (entry b) = replicate (10 - unat (in_offs b)) null_entry"
    using assms False by (simp add: cb_inv_def)
  ultimately show ?thesis
    by (subst append_take_drop_id [of "unat (in_offs b)" "entry b", symmetric])
      (simp add: cb_sizes_def null_entry_def sum_list_replicate del: append_take_drop_id)
qed

text \<open>The size in the \<open>i\<close>-th slot after \<open>out_offs\<close>: that of the \<open>i\<close>-th command, 0 past the last one.\<close>

lemma slot_size:
  assumes "cb_inv b" "i < 10"
  shows "unat (esize (entry b ! cb_index b i)) = (if i < cb_count b then cb_sizes b ! i else 0)"
proof (cases "i < cb_count b")
  case False
  then have nf: "\<not> full b" using assms(2) by auto
  then have "cb_count b = unat (in_offs b)" "cb_index b i = i"
    using assms by (auto simp: cb_inv_def cb_count_if cb_index_def)
  moreover have "drop (unat (in_offs b)) (entry b) ! (i - unat (in_offs b)) = null_entry"
    using assms nf False calculation by (simp add: cb_inv_def)
  ultimately show ?thesis
    using assms False by (simp add: cb_inv_def wf_cb_def null_entry_def)
qed (simp add: cb_sizes_def)

section \<open>The interface: a bounded log\<close>

text \<open>
  What the driver relies on: a log that keeps the last \<open>cap\<close> elements added. The laws are those
  of one addition; the client's lemma is about any number of them.
\<close>

locale bounded_log =
  fixes cap :: nat
    and new :: 'b
    and add :: "'b \<Rightarrow> 'e \<Rightarrow> 'b"
    and contents :: "'b \<Rightarrow> 'e list"
    and inv :: "'b \<Rightarrow> bool"
  assumes cap_pos: "0 < cap"
    and inv_new: "inv new"
    and contents_new: "contents new = []"
    and inv_add: "inv b \<Longrightarrow> inv (add b e)"
    and contents_bound: "inv b \<Longrightarrow> length (contents b) \<le> cap"
    and contents_add: "inv b \<Longrightarrow> contents (add b e) =
      (if length (contents b) = cap then tl (contents b) else contents b) @ [e]"
begin

lemma inv_add_all: "inv b \<Longrightarrow> inv (foldl add b es)"
  by (induction es arbitrary: b) (auto simp: inv_add)

lemma contents_add_lastn: "inv b \<Longrightarrow> contents (add b e) = lastn cap (contents b @ [e])"
  using contents_bound [of b] cap_pos by (simp add: contents_add lastn_snoc)

lemma contents_add_all: "inv b \<Longrightarrow> contents (foldl add b es) = lastn cap (contents b @ es)"
proof (induction es arbitrary: b)
  case Nil
  then show ?case using contents_bound by simp
next
  case (Cons e es)
  then show ?case
    using lastn_lastn_append [of cap "contents b @ [e]" es] by (simp add: inv_add contents_add_lastn)
qed

lemma contents_from_new: "contents (foldl add new es) = lastn cap es"
  by (simp add: contents_add_all inv_new contents_new)

end

definition cb_add :: "aesd_circular_buffer \<Rightarrow> aesd_buffer_entry \<Rightarrow> aesd_circular_buffer" where
  "cb_add b e = (case aesd_circular_buffer_add_entry b e of Inr (_, b') \<Rightarrow> b' | Inl _ \<Rightarrow> b)"

lemma cb_add_eq: "wf_cb b \<Longrightarrow> cb_add b e = cb_added b e"
  by (simp add: cb_add_def add_entry_eq)

interpretation cblog: bounded_log 10 aesd_circular_buffer_init cb_add cb_list cb_inv
proof unfold_locales
  fix b e
  assume inv: "cb_inv b"
  show "cb_inv (cb_add b e)"
    using inv by (simp add: cb_add_eq cb_inv_added)
  show "length (cb_list b) \<le> 10"
    by (simp add: cb_count_le)
  show "cb_list (cb_add b e) =
      (if length (cb_list b) = 10 then tl (cb_list b) else cb_list b) @ [e]"
    using inv cb_count_not_full [of b] by (auto simp: cb_add_eq cb_list_added)
qed simp_all

text \<open>Adding entries one after another, with the pointers the calls return.\<close>

fun add_entries ::
  "aesd_circular_buffer \<Rightarrow> aesd_buffer_entry list \<Rightarrow> (cptr list \<times> aesd_circular_buffer) checked" where
  "add_entries b [] = Inr ([], b)"
| "add_entries b (e # es) =
     cbind (aesd_circular_buffer_add_entry b e) (\<lambda>(p, b1).
       cbind (add_entries b1 es) (\<lambda>(ps, b2). Inr (p # ps, b2)))"

lemma add_entries_eq:
  "cb_inv b \<Longrightarrow> add_entries b es =
     Inr (replicate (min (10 - cb_count b) (length es)) NULL @
          map buffptr (take (length es - (10 - cb_count b)) (cb_list b @ es)),
          foldl cb_add b es)"
proof (induction es arbitrary: b)
  case (Cons e es)
  note IH = Cons.IH [OF cb_inv_added [OF Cons.prems, of e]]
  show ?case
  proof (cases "full b")
    case True
    then obtain x xs where "cb_list b = x # xs"
      by (cases "cb_list b") (auto dest: arg_cong [where f = length])
    then show ?thesis
      using Cons.prems True IH
      by (simp add: add_entry_eq cb_add_eq cb_count_added cb_list_added)
  next
    case False
    then have "cb_count b < 10" using Cons.prems by (simp add: cb_count_not_full)
    then obtain k where k: "10 - cb_count b = Suc k" "10 - Suc (cb_count b) = k"
      by (cases "10 - cb_count b") auto
    then show ?thesis
      using Cons.prems False IH
      by (simp add: add_entry_eq cb_add_eq cb_count_added cb_list_added)
  qed
qed simp

section \<open>Properties\<close>

text \<open>
  C2. Searching: on every well-formed buffer and for every offset the search returns without an
  out-of-bounds access. A null result means that the offset is at or past the total size of the
  stored entries; otherwise the returned slot holds the entry that contains the offset, and the
  offset stored for the caller is the position inside that entry.
\<close>

theorem find_entry_correct:
  assumes "wf_cb b"
  shows "\<exists>r. aesd_circular_buffer_find_entry_offset_for_fpos b off = Some (Inr r) \<and>
    (case r of
       None \<Rightarrow> sum_list (cb_sizes b) \<le> unat off
     | Some (slot, q) \<Rightarrow> \<exists>i<cb_count b. unat slot = cb_index b i \<and> unat q < cb_sizes b ! i \<and>
         sum_list (take i (cb_sizes b)) + unat q = unat off)"
proof (cases "locate (cb_sizes b) (unat off)")
  case None
  then show ?thesis using assms locate_None [of "cb_sizes b" "unat off"] by (simp add: find_entry_locate)
next
  case (Some iq)
  obtain i q where iq: "iq = (i, q)" by fastforce
  have l: "i < cb_count b" "q < cb_sizes b ! i" "sum_list (take i (cb_sizes b)) + q = unat off"
    using locate_Some [OF Some [unfolded iq]] by auto
  have "q \<le> unat off" using l(3) by simp
  also have "\<dots> < 2 ^ LENGTH(64)" by (rule unsigned_less)
  finally have q: "unat (of_nat q :: size_t) = q" by (rule unat_of_nat_lt)
  have "unat (of_nat (cb_index b i) :: u8) = cb_index b i"
    by (rule unat_of_nat_lt) (rule less_trans [OF cb_index_lt], simp)
  with l q show ?thesis using assms Some iq by (auto simp: find_entry_locate)
qed

definition example_cb :: aesd_circular_buffer where
  "example_cb = foldl cb_added aesd_circular_buffer_init
     [\<lparr>buffptr = Ptr 7 0, esize = 3\<rparr>, \<lparr>buffptr = Ptr 9 0, esize = 5\<rparr>]"

lemma wf_example_cb: "wf_cb example_cb"
  by (simp add: example_cb_def)

theorem find_entry_correct_witness:
  "wf_cb example_cb \<and>
   (\<exists>r. aesd_circular_buffer_find_entry_offset_for_fpos example_cb 4 = Some (Inr r) \<and>
    (case r of
       None \<Rightarrow> sum_list (cb_sizes example_cb) \<le> unat (4 :: size_t)
     | Some (slot, q) \<Rightarrow> \<exists>i<cb_count example_cb. unat slot = cb_index example_cb i \<and>
         unat q < cb_sizes example_cb ! i \<and>
         sum_list (take i (cb_sizes example_cb)) + unat q = unat (4 :: size_t)))"
  using wf_example_cb find_entry_correct [OF wf_example_cb, of 4] by blast

text \<open>
  C3. The buffer keeps the last ten entries. Adding any sequence of entries to a freshly
  initialised buffer never faults and leaves exactly the last ten of them, oldest first. The
  first ten calls return a null pointer, and after that the calls return the buffer pointers of
  the overwritten entries, each exactly once and in the order they were added.
\<close>

theorem add_entries_from_init:
  "\<exists>b. add_entries aesd_circular_buffer_init es =
       Inr (replicate (min 10 (length es)) NULL @ map buffptr (take (length es - 10) es), b) \<and>
     cb_inv b \<and> cb_list b = lastn 10 es"
proof -
  have z: "cb_count aesd_circular_buffer_init = 0"
    using cb_list_init length_cb_list [of aesd_circular_buffer_init] by simp
  show ?thesis
    using add_entries_eq [OF cb_inv_init, of es] cblog.contents_from_new [of es]
      cblog.inv_add_all [OF cb_inv_init, of es] by (simp add: z)
qed

end
