(* ===== verification/Kernel_Memory.thy ===== *)
theory Kernel_Memory
  imports Circular_Buffer
begin

text \<open>
  Kernel memory as the driver uses it. Memory is a map from blocks to their contents: raw bytes
  or one \<^verbatim>\<open>struct aesd_buffer_entry\<close>. A pointer into a block that is not live, out of its bounds
  or null faults, and so does freeing anything but the base of a live block.

  The kernel itself is not part of the sources. Its choices are the fields of a \<open>kenv\<close>, which
  the operations of the driver take as an argument: which block and which initial contents an
  allocation yields, or that it fails; how many bytes a copy from or to user space leaves over;
  whether waiting for a mutex is interrupted. Every choice may differ from call to call: the
  field \<open>tick\<close> of the state counts them. What the driver relies on is \<open>kenv_ok\<close>: an allocation
  yields a block that is not live, of the requested size, and a size that \<^verbatim>\<open>kmalloc\<close> supports.
\<close>

section \<open>State and environment\<close>

datatype kblock =
    Bytes "byte list"
  | EntryBlk aesd_buffer_entry

type_synonym heap = "nat \<rightharpoonup> kblock"

record kst =
  heap :: heap
  tick :: nat

record kenv =
  k_alloc :: "nat \<Rightarrow> heap \<Rightarrow> nat \<Rightarrow> (nat \<times> byte list) option"
  k_copy_from :: "nat \<Rightarrow> nat"
  k_copy_to :: "nat \<Rightarrow> nat"
  k_intr :: "nat \<Rightarrow> bool"

definition kmalloc_limit :: nat where
  "kmalloc_limit = 2 ^ 32"

definition kenv_ok :: "kenv \<Rightarrow> bool" where
  "kenv_ok K \<longleftrightarrow> (\<forall>t h n a bs. k_alloc K t h n = Some (a, bs) \<longrightarrow>
     h a = None \<and> length bs = n \<and> n < kmalloc_limit)"

section \<open>Allocation\<close>

definition next_tick :: "'z kst_scheme \<Rightarrow> 'z kst_scheme" where
  "next_tick s = s\<lparr>tick := Suc (tick s)\<rparr>"

definition set_block :: "nat \<Rightarrow> kblock option \<Rightarrow> 'z kst_scheme \<Rightarrow> 'z kst_scheme" where
  "set_block a blk s = s\<lparr>heap := (heap s)(a := blk)\<rparr>"

definition kmalloc :: "kenv \<Rightarrow> nat \<Rightarrow> 'z kst_scheme \<Rightarrow> cptr \<times> 'z kst_scheme" where
  "kmalloc K n s =
     (case k_alloc K (tick s) (heap s) n of
        None \<Rightarrow> (NULL, next_tick s)
      | Some (a, bs) \<Rightarrow> (Ptr a 0, next_tick (set_block a (Some (Bytes bs)) s)))"

text \<open>\<^verbatim>\<open>kfree_const\<close> on memory that is not read-only data, which is all the driver passes.\<close>

definition kfree_const :: "cptr \<Rightarrow> 'z kst_scheme \<Rightarrow> 'z kst_scheme checked" where
  "kfree_const p s =
     (case p of
        NULL \<Rightarrow> Inr s
      | Ptr a off \<Rightarrow>
          if off = 0 \<and> heap s a \<noteq> None then Inr (set_block a None s) else Inl Bad_Free)"

section \<open>Bytes\<close>

definition block_bytes :: "nat \<Rightarrow> 'z kst_scheme \<Rightarrow> byte list checked" where
  "block_bytes a s = (case heap s a of Some (Bytes bs) \<Rightarrow> Inr bs | _ \<Rightarrow> Inl Bad_Access)"

definition load_bytes :: "cptr \<Rightarrow> nat \<Rightarrow> 'z kst_scheme \<Rightarrow> byte list checked" where
  "load_bytes p n s =
     (case p of
        NULL \<Rightarrow> if n = 0 then Inr [] else Inl Null_Deref
      | Ptr a off \<Rightarrow> cbind (block_bytes a s) (\<lambda>bs.
          if off + n \<le> length bs then Inr (take n (drop off bs)) else Inl Out_Of_Bounds))"

definition store_bytes :: "cptr \<Rightarrow> byte list \<Rightarrow> 'z kst_scheme \<Rightarrow> 'z kst_scheme checked" where
  "store_bytes p xs s =
     (case p of
        NULL \<Rightarrow> if xs = [] then Inr s else Inl Null_Deref
      | Ptr a off \<Rightarrow> cbind (block_bytes a s) (\<lambda>bs.
          if off + length xs \<le> length bs
          then Inr (set_block a (Some (Bytes (take off bs @ xs @ drop (off + length xs) bs))) s)
          else Inl Out_Of_Bounds))"

definition memcpy :: "cptr \<Rightarrow> cptr \<Rightarrow> nat \<Rightarrow> 'z kst_scheme \<Rightarrow> 'z kst_scheme checked" where
  "memcpy dst src n s = cbind (load_bytes src n s) (\<lambda>xs. store_bytes dst xs s)"

definition memchr :: "cptr \<Rightarrow> byte \<Rightarrow> nat \<Rightarrow> 'z kst_scheme \<Rightarrow> cptr checked" where
  "memchr p c n s = cbind (load_bytes p n s) (\<lambda>bs.
     Inr (if c \<in> set bs then ptr_add p (length (takeWhile (\<lambda>x. x \<noteq> c) bs)) else NULL))"

definition kmemdup :: "kenv \<Rightarrow> cptr \<Rightarrow> nat \<Rightarrow> 'z kst_scheme \<Rightarrow> (cptr \<times> 'z kst_scheme) checked" where
  "kmemdup K src n s =
     (let (p, s1) = kmalloc K n s
      in if p = NULL then Inr (NULL, s1) else cbind (memcpy p src n s1) (\<lambda>s2. Inr (p, s2)))"

text \<open>
  \<^verbatim>\<open>copy_from_user\<close> and \<^verbatim>\<open>copy_to_user\<close> return the number of bytes they could not copy. User
  memory is the list of bytes that are accessible at the user pointer.
\<close>

definition copy_left :: "nat \<Rightarrow> nat \<Rightarrow> nat \<Rightarrow> nat" where
  "copy_left choice avail n = min n (max choice (n - avail))"

definition copy_from_user ::
  "kenv \<Rightarrow> cptr \<Rightarrow> byte list \<Rightarrow> nat \<Rightarrow> 'z kst_scheme \<Rightarrow> (nat \<times> 'z kst_scheme) checked" where
  "copy_from_user K dst ubuf n s =
     (let left = copy_left (k_copy_from K (tick s)) (length ubuf) n
      in cbind (store_bytes dst (take (n - left) ubuf) (next_tick s)) (\<lambda>s'. Inr (left, s')))"

definition copy_to_user ::
  "kenv \<Rightarrow> cptr \<Rightarrow> nat \<Rightarrow> nat \<Rightarrow> 'z kst_scheme \<Rightarrow> (nat \<times> byte list \<times> 'z kst_scheme) checked" where
  "copy_to_user K src uspace n s =
     (let left = copy_left (k_copy_to K (tick s)) uspace n
      in cbind (load_bytes src (n - left) s) (\<lambda>bs. Inr (left, bs, next_tick s)))"

section \<open>Laws\<close>

lemma next_tick_simps [simp]:
  "heap (next_tick s) = heap s"
  "tick (next_tick s) = Suc (tick s)"
  "kst.more (next_tick s) = kst.more s"
  by (simp_all add: next_tick_def)

lemma set_block_simps [simp]:
  "heap (set_block a blk s) = (heap s)(a := blk)"
  "tick (set_block a blk s) = tick s"
  "kst.more (set_block a blk s) = kst.more s"
  by (simp_all add: set_block_def)

lemma set_block_twice [simp]: "set_block a x (set_block a y s) = set_block a x s"
  by (simp add: set_block_def)

lemma kenv_okD:
  assumes "kenv_ok K" "k_alloc K t h n = Some (a, bs)"
  shows "h a = None" "length bs = n" "n < kmalloc_limit"
  using assms by (auto simp: kenv_ok_def)

lemma kmalloc_cases:
  assumes "kenv_ok K"
  obtains (fail) "kmalloc K n s = (NULL, next_tick s)"
  | (ok) a bs where "heap s a = None" "length bs = n" "n < kmalloc_limit"
      "kmalloc K n s = (Ptr a 0, next_tick (set_block a (Some (Bytes bs)) s))"
proof (cases "k_alloc K (tick s) (heap s) n")
  case None
  then show ?thesis by (intro fail) (simp add: kmalloc_def)
next
  case (Some x)
  then obtain a bs where x: "x = (a, bs)" by fastforce
  show ?thesis
    using kenv_okD [OF assms Some [unfolded x]] Some x by (intro ok [of a bs]) (simp_all add: kmalloc_def)
qed

lemma load_bytes_block [mem_simps]:
  "heap s a = Some (Bytes bs) \<Longrightarrow> off + n \<le> length bs \<Longrightarrow>
     load_bytes (Ptr a off) n s = Inr (take n (drop off bs))"
  by (simp add: load_bytes_def block_bytes_def)

lemma store_bytes_block [mem_simps]:
  "heap s a = Some (Bytes bs) \<Longrightarrow> off + length xs \<le> length bs \<Longrightarrow>
     store_bytes (Ptr a off) xs s =
       Inr (set_block a (Some (Bytes (take off bs @ xs @ drop (off + length xs) bs))) s)"
  by (simp add: store_bytes_def block_bytes_def)

lemma kfree_const_block [mem_simps]:
  "heap s a = Some blk \<Longrightarrow> kfree_const (Ptr a 0) s = Inr (set_block a None s)"
  by (simp add: kfree_const_def)

lemma kfree_const_NULL [mem_simps, simp]: "kfree_const NULL s = Inr s"
  by (simp add: kfree_const_def)

lemma copy_left_zero_iff: "copy_left c avail n = 0 \<longleftrightarrow> n = 0 \<or> c = 0 \<and> n \<le> avail"
  by (auto simp: copy_left_def)

lemma copy_left_le: "copy_left c avail n \<le> n"
  by (simp add: copy_left_def)

lemma copy_left_avail: "n - copy_left c avail n \<le> avail"
  by (auto simp: copy_left_def)

text \<open>A successful \<^verbatim>\<open>kmemdup\<close> yields a new block that holds the bytes.\<close>

lemma kmemdup_block:
  assumes ok: "kenv_ok K" and src: "heap s b = Some (Bytes bs)" "off + n \<le> length bs"
  obtains (fail) "kmemdup K (Ptr b off) n s = Inr (NULL, next_tick s)"
  | (dup) a where "heap s a = None" "n < kmalloc_limit"
      "kmemdup K (Ptr b off) n s =
         Inr (Ptr a 0, next_tick (set_block a (Some (Bytes (take n (drop off bs)))) s))"
  using ok
proof (cases rule: kmalloc_cases [of K n s])
  case fail
  then show ?thesis by (intro that(1)) (simp add: kmemdup_def)
next
  case (ok a xs)
  with src have ne: "b \<noteq> a" by auto
  have eq: "set_block a blk (next_tick (set_block a blk' s)) = next_tick (set_block a blk s)"
    for blk blk' by (simp add: next_tick_def set_block_def)
  show ?thesis
    using ok src ne
    by (intro that(2) [of a]) (simp_all add: kmemdup_def memcpy_def mem_simps eq)
qed

lemma memchr_block [mem_simps]:
  "heap s a = Some (Bytes bs) \<Longrightarrow> off + n \<le> length bs \<Longrightarrow>
     memchr (Ptr a off) c n s =
       Inr (let xs = take n (drop off bs)
            in if c \<in> set xs then Ptr a (off + length (takeWhile (\<lambda>x. x \<noteq> c) xs)) else NULL)"
  by (simp add: memchr_def mem_simps Let_def)

end
