(* ===== verification/Char_Driver.thy ===== *)
theory Char_Driver
  imports Kernel_Memory
begin

text \<open>
  The character driver: \<^verbatim>\<open>aesd-char-driver/main.c\<close>, \<^verbatim>\<open>aesdchar.h\<close> and \<^verbatim>\<open>aesd_ioctl.h\<close>. The state
  \<open>kernel\<close> extends kernel memory by the device struct and the registration of the device; an
  open file is a record of its position and its private data. Every file operation of
  \<^verbatim>\<open>aesd_fops\<close> is one definition that takes the kernel's choices (\<open>kenv\<close>), and returns the value
  of the call (\<open>Inl\<close> of the error code for a negative value), the new position and the new
  state; a memory fault and a loop that does not end are other results of the run. Debug
  output is left out.

  This theory holds the definitions; \<open>Driver_Invariant\<close> and \<open>Driver_Spec\<close> hold the theorems.
\<close>

section \<open>State\<close>

datatype errno = ENOMEM | EFAULT | EINVAL | ERESTARTSYS | ENOTTY

record aesd_dev =
  cdev :: bool
  lock :: bool
  circular_buffer :: aesd_circular_buffer
  partial :: aesd_buffer_entry

record kernel = kst +
  aesd_device :: aesd_dev
  region :: bool

datatype devptr = NoDev | AesdDevice

record kfile =
  f_pos :: loff_t
  private_data :: devptr

definition upd_dev :: "(aesd_dev \<Rightarrow> aesd_dev) \<Rightarrow> kernel \<Rightarrow> kernel" where
  "upd_dev f s = s\<lparr>aesd_device := f (aesd_device s)\<rparr>"

definition set_cb :: "aesd_circular_buffer \<Rightarrow> kernel \<Rightarrow> kernel" where
  "set_cb b = upd_dev (circular_buffer_update (\<lambda>_. b))"

definition set_partial :: "cptr \<Rightarrow> size_t \<Rightarrow> kernel \<Rightarrow> kernel" where
  "set_partial p n = upd_dev (partial_update (\<lambda>_. \<lparr>buffptr = p, esize = n\<rparr>))"

abbreviation dev_cb :: "kernel \<Rightarrow> aesd_circular_buffer" where
  "dev_cb s \<equiv> circular_buffer (aesd_device s)"

abbreviation dev_partial :: "kernel \<Rightarrow> aesd_buffer_entry" where
  "dev_partial s \<equiv> partial (aesd_device s)"

text \<open>
  \<^verbatim>\<open>mutex_lock_interruptible\<close>: \<open>True\<close> for a nonzero return, when the wait was interrupted.
  Taking a mutex that is already held blocks.
\<close>

definition mutex_lock_interruptible :: "kenv \<Rightarrow> kernel \<Rightarrow> (bool \<times> kernel) checked" where
  "mutex_lock_interruptible K s =
     (if k_intr K (tick s) then Inr (True, next_tick s)
      else if lock (aesd_device s) then Inl Would_Block
      else Inr (False, upd_dev (lock_update (\<lambda>_. True)) (next_tick s)))"

definition mutex_unlock :: "kernel \<Rightarrow> kernel" where
  "mutex_unlock = upd_dev (lock_update (\<lambda>_. False))"

section \<open>Opening and closing\<close>

definition aesd_open :: "kfile \<Rightarrow> (errno + unit) \<times> kfile" where
  "aesd_open filp = (Inr (), filp\<lparr>private_data := AesdDevice\<rparr>)"

definition aesd_release :: "kfile \<Rightarrow> (errno + unit) \<times> kfile" where
  "aesd_release filp = (if private_data filp = NoDev then (Inr (), filp) else (Inr (), filp))"

section \<open>Reading\<close>

text \<open>
  The arguments are the user's buffer, given by the number of bytes that are writable there,
  the requested count and the position; the bytes stored in the user's buffer are a result.
\<close>

definition read_copy ::
  "kenv \<Rightarrow> nat \<Rightarrow> size_t \<Rightarrow> loff_t \<Rightarrow> size_t \<Rightarrow> aesd_buffer_entry \<Rightarrow> kernel \<Rightarrow>
   ((errno + size_t) \<times> byte list \<times> loff_t \<times> kernel) checked" where
  "read_copy K uspace count pos entry_offset_byte_rtn e s =
     (let bytes_to_copy = min (esize e - entry_offset_byte_rtn) count
      in if bytes_to_copy = 0 then Inr (Inr 0, [], pos, s)
         else cbind (copy_to_user K (ptr_add (buffptr e) (unat entry_offset_byte_rtn)) uspace
                (unat bytes_to_copy) s) (\<lambda>(left, bs, s1).
           if left \<noteq> 0 then Inr (Inl EFAULT, bs, pos, s1)
           else Inr (Inr bytes_to_copy, bs, pos + bytes_to_copy, s1)))"

text \<open>What a read does while it holds the lock, up to the label \<^verbatim>\<open>out\<close>.\<close>

definition read_locked ::
  "kenv \<Rightarrow> nat \<Rightarrow> size_t \<Rightarrow> loff_t \<Rightarrow> kernel \<Rightarrow>
   ((errno + size_t) \<times> byte list \<times> loff_t \<times> kernel) run" where
  "read_locked K uspace count pos s =
     rbind (aesd_circular_buffer_find_entry_offset_for_fpos (dev_cb s) pos) (\<lambda>r.
       case r of
         None \<Rightarrow> Some (Inr (Inr 0, [], pos, s))
       | Some (slot, entry_offset_byte_rtn) \<Rightarrow>
           rbind (Some (entry_at (dev_cb s) slot)) (\<lambda>e.
             Some (read_copy K uspace count pos entry_offset_byte_rtn e s)))"

definition aesd_read ::
  "kenv \<Rightarrow> kfile \<Rightarrow> nat \<Rightarrow> size_t \<Rightarrow> loff_t \<Rightarrow> kernel \<Rightarrow>
   ((errno + size_t) \<times> byte list \<times> loff_t \<times> kernel) run" where
  "aesd_read K filp uspace count pos s =
     (if private_data filp = NoDev then Some (Inl Null_Deref)
      else rbind (Some (mutex_lock_interruptible K s)) (\<lambda>(interrupted, s1).
        if interrupted then Some (Inr (Inl ERESTARTSYS, [], pos, s1))
        else rbind (read_locked K uspace count pos s1) (\<lambda>(retval, bs, pos', s2).
          Some (Inr (retval, bs, pos', mutex_unlock s2)))))"

section \<open>Writing\<close>

definition ptr_diff :: "cptr \<Rightarrow> cptr \<Rightarrow> size_t" where
  "ptr_diff p q =
     (case (p, q) of (Ptr _ i, Ptr _ j) \<Rightarrow> of_nat i - of_nat j | _ \<Rightarrow> 0)"

definition sizeof_aesd_buffer_entry :: nat where
  "sizeof_aesd_buffer_entry = 16"

text \<open>Storing a field of the struct at \<open>ep\<close>; a field not yet assigned is shown as zero.\<close>

definition store_entry :: "cptr \<Rightarrow> aesd_buffer_entry \<Rightarrow> kernel \<Rightarrow> kernel checked" where
  "store_entry ep e s =
     (case ep of
        NULL \<Rightarrow> Inl Null_Deref
      | Ptr a off \<Rightarrow>
          if off = 0 \<and> heap s a \<noteq> None then Inr (set_block a (Some (EntryBlk e)) s)
          else Inl Bad_Access)"

text \<open>
  One round of the loop over the newlines of the combined data: the loop goes on with the rest
  of the span, is left when there is no newline or no data, or is left with \<open>EINVAL\<close> when the
  command cannot be duplicated. The struct allocated for the entry is copied into the ring and
  never freed.
\<close>

definition write_body ::
  "kenv \<Rightarrow> aesd_buffer_entry \<times> cptr \<times> kernel \<Rightarrow>
   ((aesd_buffer_entry \<times> cptr \<times> kernel) + (errno option \<times> aesd_buffer_entry \<times> kernel)) checked" where
  "write_body K = (\<lambda>(working, new_line_ptr, s).
     if esize working > 0 \<and> new_line_ptr \<noteq> NULL
     then let bytes_to_copy = ptr_diff new_line_ptr (buffptr working) + 1;
              (ep, s1) = kmalloc K sizeof_aesd_buffer_entry s
          in cbind (kmemdup K (buffptr working) (unat bytes_to_copy) s1) (\<lambda>(p, s2).
             cbind (store_entry ep \<lparr>buffptr = p, esize = 0\<rparr> s2) (\<lambda>s3.
             if p = NULL then Inr (Inr (Some EINVAL, working, s3))
             else let e = \<lparr>buffptr = p, esize = bytes_to_copy\<rparr>
                  in cbind (store_entry ep e s3) (\<lambda>s4.
                     cbind (aesd_circular_buffer_add_entry (dev_cb s4) e) (\<lambda>(garbage, b).
                     cbind (kfree_const garbage (set_cb b s4)) (\<lambda>s5.
                     let working' = \<lparr>buffptr = ptr_add (buffptr working) (unat bytes_to_copy),
                                     esize = esize working - bytes_to_copy\<rparr>
                     in cbind (memchr (buffptr working') newline (unat (esize working')) s5)
                          (\<lambda>nl. Inr (Inl (working', nl, s5))))))))
     else Inr (Inr (None, working, s)))"

text \<open>The end of the function: label \<^verbatim>\<open>out\<close>.\<close>

definition write_out ::
  "cptr \<Rightarrow> errno + size_t \<Rightarrow> loff_t \<Rightarrow> kernel \<Rightarrow> ((errno + size_t) \<times> loff_t \<times> kernel) run" where
  "write_out buffer retval pos s =
     Some (cbind (kfree_const buffer s) (\<lambda>s'. Inr (retval, pos, s')))"

text \<open>From the end of the loop to the label \<^verbatim>\<open>release\<close>: the rest of the data becomes the partial command.\<close>

definition write_finish ::
  "kenv \<Rightarrow> size_t \<Rightarrow> loff_t \<Rightarrow> errno option \<times> aesd_buffer_entry \<times> kernel \<Rightarrow>
   ((errno + size_t) \<times> loff_t \<times> kernel) checked" where
  "write_finish K count pos = (\<lambda>(err, working, s).
     case err of
       Some e \<Rightarrow> Inr (Inl e, pos, mutex_unlock s)
     | None \<Rightarrow>
         if esize working > 0
         then cbind (kmemdup K (buffptr working) (unat (esize working)) s) (\<lambda>(p, s1).
                if p = NULL
                then Inr (Inl ENOMEM, pos, mutex_unlock (set_partial NULL (esize (dev_partial s1)) s1))
                else Inr (Inr count, pos + count, mutex_unlock (set_partial p (esize working) s1)))
         else Inr (Inr count, pos + count, mutex_unlock s))"

text \<open>
  From the start of the function to the lock: the partial command and the user's data are gathered
  in one buffer, and the partial command is released. A jump to \<^verbatim>\<open>out\<close> is the error that is then
  returned: \<^verbatim>\<open>-ENOMEM\<close> also when the copy from user space fails, because the assignment of
  \<^verbatim>\<open>-EFAULT\<close> follows the jump.
\<close>

definition copy_partial :: "cptr \<Rightarrow> kernel \<Rightarrow> kernel checked" where
  "copy_partial dst s =
     (if buffptr (dev_partial s) \<noteq> NULL
      then memcpy dst (buffptr (dev_partial s)) (unat (esize (dev_partial s))) s
      else Inr s)"

definition release_partial :: "kernel \<Rightarrow> kernel checked" where
  "release_partial s =
     (if buffptr (dev_partial s) \<noteq> NULL
      then cbind (kfree_const (buffptr (dev_partial s)) s) (\<lambda>s'. Inr (set_partial NULL 0 s'))
      else Inr s)"

definition write_gather ::
  "kenv \<Rightarrow> byte list \<Rightarrow> size_t \<Rightarrow> kernel \<Rightarrow> (errno option \<times> aesd_buffer_entry \<times> kernel) checked" where
  "write_gather K ubuf count s =
     (let combined_count = esize (dev_partial s) + count;
          (buffer, s1) = kmalloc K (unat combined_count) s;
          working = \<lparr>buffptr = buffer, esize = combined_count\<rparr>
      in if buffptr working = NULL then Inr (Some ENOMEM, working, s1)
         else cbind (copy_partial (buffptr working) s1) (\<lambda>s2.
              cbind (copy_from_user K (ptr_add (buffptr working) (unat (esize (dev_partial s2))))
                       ubuf (unat count) s2) (\<lambda>(left, s3).
              if left \<noteq> 0 then Inr (Some ENOMEM, working, s3)
              else cbind (release_partial s3) (\<lambda>s4. Inr (None, working, s4)))))"

definition aesd_write ::
  "kenv \<Rightarrow> kfile \<Rightarrow> byte list \<Rightarrow> size_t \<Rightarrow> loff_t \<Rightarrow> kernel \<Rightarrow>
   ((errno + size_t) \<times> loff_t \<times> kernel) run" where
  "aesd_write K filp ubuf count pos s =
     (if private_data filp = NoDev then Some (Inl Null_Deref)
      else rbind (Some (write_gather K ubuf count s)) (\<lambda>(err, working, s4).
        let buffer = buffptr working
        in case err of
             Some e \<Rightarrow> write_out buffer (Inl e) pos s4
           | None \<Rightarrow>
               rbind (Some (mutex_lock_interruptible K s4)) (\<lambda>(interrupted, s5).
               if interrupted then write_out buffer (Inl ERESTARTSYS) pos s5
               else rbind (Some (memchr (buffptr working) newline (unat (esize working)) s5)) (\<lambda>nl.
               rbind (run_loop (write_body K) (working, nl, s5)) (\<lambda>r.
               rbind (Some (write_finish K count pos r)) (\<lambda>(retval, pos', s6).
               write_out buffer retval pos' s6))))))"

section \<open>Seeking\<close>

text \<open>
  \<^verbatim>\<open>fixed_size_llseek\<close> is kernel code: from the file's position, the offset, \<^verbatim>\<open>whence\<close> and the
  size it gives the value it returns, a position or a negative error.
\<close>

type_synonym llseek_fn = "loff_t \<Rightarrow> loff_t \<Rightarrow> int \<Rightarrow> loff_t \<Rightarrow> loff_t"

definition llseek_locked ::
  "llseek_fn \<Rightarrow> kfile \<Rightarrow> loff_t \<Rightarrow> int \<Rightarrow> kernel \<Rightarrow> (errno + loff_t) \<times> kfile" where
  "llseek_locked fixed_size_llseek filp offset whence s =
     (let totalSize = foldl (\<lambda>acc i. acc + esize (entry (dev_cb s) ! i)) 0 [0..<MAXW];
          new_pos = fixed_size_llseek (f_pos filp) offset whence totalSize
      in (Inr new_pos, filp\<lparr>f_pos := new_pos\<rparr>))"

definition aesd_llseek ::
  "kenv \<Rightarrow> llseek_fn \<Rightarrow> kfile \<Rightarrow> loff_t \<Rightarrow> int \<Rightarrow> kernel \<Rightarrow>
   ((errno + loff_t) \<times> kfile \<times> kernel) checked" where
  "aesd_llseek K fixed_size_llseek filp offset whence s =
     (if private_data filp = NoDev then Inl Null_Deref
      else cbind (mutex_lock_interruptible K s) (\<lambda>(interrupted, s1).
        if interrupted then Inr (Inl ERESTARTSYS, filp, s1)
        else let (retval, filp') = llseek_locked fixed_size_llseek filp offset whence s1
             in Inr (retval, filp', mutex_unlock s1)))"

record aesd_seekto =
  write_cmd :: u32
  write_cmd_offset :: u32

definition AESD_IOC_MAGIC :: u32 where
  "AESD_IOC_MAGIC = 0x74"

definition AESDCHAR_IOC_MAXNR :: u32 where
  "AESDCHAR_IOC_MAXNR = 1"

text \<open>The slot of the \<open>i\<close>-th command, the oldest first.\<close>

definition cmd_slot_size :: "aesd_circular_buffer \<Rightarrow> nat \<Rightarrow> size_t" where
  "cmd_slot_size b i = esize (entry b ! ((unat (out_offs b) + i) mod MAXW))"

text \<open>
  The file is this call's own, so that it does not matter that its position is stored after the
  lock has been released.
\<close>

definition adjust_locked :: "kfile \<Rightarrow> aesd_seekto \<Rightarrow> kernel \<Rightarrow> (errno + unit) \<times> kfile" where
  "adjust_locked filp seekto s =
     (let n = unat (write_cmd seekto);
          pos = foldl (\<lambda>pos i. pos + cmd_slot_size (dev_cb s) i) 0 [0..<n]
      in if ucast (write_cmd_offset seekto) > cmd_slot_size (dev_cb s) n
         then (Inl EINVAL, filp)
         else (Inr (), filp\<lparr>f_pos := pos + ucast (write_cmd_offset seekto)\<rparr>))"

definition aesd_adjust_file_offset ::
  "kenv \<Rightarrow> kfile \<Rightarrow> aesd_seekto \<Rightarrow> kernel \<Rightarrow> ((errno + unit) \<times> kfile \<times> kernel) checked" where
  "aesd_adjust_file_offset K filp seekto s =
     (if unat (write_cmd seekto) \<ge> MAXW then Inr (Inl EINVAL, filp, s)
      else if private_data filp = NoDev then Inl Null_Deref
      else cbind (mutex_lock_interruptible K s) (\<lambda>(interrupted, s1).
        if interrupted then Inr (Inl ERESTARTSYS, filp, s1)
        else let (retval, filp') = adjust_locked filp seekto s1
             in Inr (retval, filp', mutex_unlock s1)))"

text \<open>
  The encoding of ioctl numbers is the kernel's: \<^verbatim>\<open>_IOC_TYPE\<close>, \<^verbatim>\<open>_IOC_NR\<close> and \<^verbatim>\<open>_IOWR\<close> are
  parameters, which the code needs to agree as \<open>ioc_ok\<close> says.
\<close>

record ioc_abi =
  IOC_TYPE :: "u32 \<Rightarrow> u32"
  IOC_NR :: "u32 \<Rightarrow> u32"
  IOWR :: "u32 \<Rightarrow> u32 \<Rightarrow> nat \<Rightarrow> u32"

definition ioc_ok :: "ioc_abi \<Rightarrow> bool" where
  "ioc_ok A \<longleftrightarrow> (\<forall>ty nr sz. ty < 256 \<longrightarrow> nr < 256 \<longrightarrow> sz < 2 ^ 13 \<longrightarrow>
     IOC_TYPE A (IOWR A ty nr sz) = ty \<and> IOC_NR A (IOWR A ty nr sz) = nr)"

definition AESDCHAR_IOCSEEKTO :: "ioc_abi \<Rightarrow> u32" where
  "AESDCHAR_IOCSEEKTO A = IOWR A AESD_IOC_MAGIC 1 8"

text \<open>The argument of the ioctl is the struct at the user's pointer, if it can be read.\<close>

definition aesd_ioctl ::
  "kenv \<Rightarrow> ioc_abi \<Rightarrow> kfile \<Rightarrow> u32 \<Rightarrow> aesd_seekto option \<Rightarrow> kernel \<Rightarrow>
   ((errno + unit) \<times> kfile \<times> kernel) checked" where
  "aesd_ioctl K A filp cmd arg s =
     (if IOC_TYPE A cmd \<noteq> AESD_IOC_MAGIC then Inr (Inl ENOTTY, filp, s)
      else if IOC_NR A cmd > AESDCHAR_IOC_MAXNR then Inr (Inl ENOTTY, filp, s)
      else if cmd = AESDCHAR_IOCSEEKTO A
      then (case arg of
              None \<Rightarrow> Inr (Inl EFAULT, filp, next_tick s)
            | Some seekto \<Rightarrow>
                if k_copy_from K (tick s) \<noteq> 0 then Inr (Inl EFAULT, filp, next_tick s)
                else aesd_adjust_file_offset K filp seekto (next_tick s))
      else Inr (Inl ENOTTY, filp, s))"

section \<open>Module initialisation and exit\<close>

text \<open>
  \<^verbatim>\<open>alloc_chrdev_region\<close> and \<^verbatim>\<open>cdev_add\<close> are kernel code; their results, zero or a negative
  error, are arguments.
\<close>

definition aesd_setup_cdev :: "int \<Rightarrow> kernel \<Rightarrow> int \<times> kernel" where
  "aesd_setup_cdev add_result s =
     (add_result, upd_dev (cdev_update (\<lambda>_. add_result = 0)) s)"

definition aesd_init_module :: "int \<Rightarrow> int \<Rightarrow> kernel \<Rightarrow> int \<times> kernel" where
  "aesd_init_module alloc_result add_result s =
     (if alloc_result < 0 then (alloc_result, s)
      else
        let s1 = s\<lparr>region := True,
                   aesd_device := \<lparr>cdev = False, lock = False,
                     circular_buffer = \<lparr>entry = replicate MAXW null_entry, in_offs = 0,
                                        out_offs = 0, full = False\<rparr>,
                     partial = null_entry\<rparr>\<rparr>;
            s2 = upd_dev (lock_update (\<lambda>_. False)) s1;
            s3 = set_cb aesd_circular_buffer_init s2;
            (result, s4) = aesd_setup_cdev add_result s3
        in (result, if result \<noteq> 0 then s4\<lparr>region := False\<rparr> else s4))"

definition cleanup_entry ::
  "nat \<Rightarrow> aesd_buffer_entry \<Rightarrow> kernel \<Rightarrow> (aesd_buffer_entry \<times> kernel) checked" where
  "cleanup_entry index e s =
     (if buffptr e \<noteq> NULL
      then cbind (kfree_const (buffptr e) s) (\<lambda>s'. Inr (e\<lparr>buffptr := NULL\<rparr>, s'))
      else Inr (e, s))"

definition aesd_cleanup_module :: "kernel \<Rightarrow> kernel checked" where
  "aesd_cleanup_module s =
     (let s0 = upd_dev (cdev_update (\<lambda>_. False)) s
      in cbind (AESD_CIRCULAR_BUFFER_FOREACH cleanup_entry (dev_cb s0) s0) (\<lambda>(b, s1).
         let s2 = set_cb b s1
         in cbind (release_partial s2) (\<lambda>s3. Inr (s3\<lparr>region := False\<rparr>))))"

end
