(* ===== verification/Driver_Invariant.thy ===== *)
theory Driver_Invariant
  imports Char_Driver
begin

text \<open>
  The memory invariant of the device and what the parts of a write do to it. The device owns
  one live block per stored command and one for the partial command, all different, of the
  recorded sizes. The invariant \<open>dev_inv\<close> adds that the lock is free. \<open>dev_cmds\<close> and \<open>dev_rest\<close>
  read the stored commands and the partial command back as bytes, and \<open>unowned\<close> is the
  allocated memory that no pointer of the device reaches.
\<close>

section \<open>What the device holds\<close>

definition entry_bytes :: "heap \<Rightarrow> aesd_buffer_entry \<Rightarrow> byte list" where
  "entry_bytes h e =
     (case buffptr e of
        NULL \<Rightarrow> []
      | Ptr a _ \<Rightarrow> (case h a of Some (Bytes bs) \<Rightarrow> bs | _ \<Rightarrow> []))"

definition live_entry :: "heap \<Rightarrow> aesd_buffer_entry \<Rightarrow> bool" where
  "live_entry h e \<longleftrightarrow>
     (case buffptr e of
        NULL \<Rightarrow> False
      | Ptr a off \<Rightarrow> off = 0 \<and>
          (case h a of
             Some (Bytes bs) \<Rightarrow> unat (esize e) = length bs \<and> bs \<noteq> [] \<and> length bs < kmalloc_limit
           | _ \<Rightarrow> False))"

definition dev_entries :: "aesd_circular_buffer \<Rightarrow> aesd_buffer_entry \<Rightarrow> aesd_buffer_entry list" where
  "dev_entries b part = cb_list b @ (if buffptr part = NULL then [] else [part])"

definition entry_addrs :: "aesd_buffer_entry list \<Rightarrow> nat set" where
  "entry_addrs es = (\<Union>e\<in>set es. ptr_block (buffptr e))"

definition mem_inv :: "heap \<Rightarrow> aesd_circular_buffer \<Rightarrow> aesd_buffer_entry \<Rightarrow> bool" where
  "mem_inv h b part \<longleftrightarrow> finite (dom h) \<and> cb_inv b \<and>
     list_all (live_entry h) (dev_entries b part) \<and>
     distinct (map buffptr (dev_entries b part)) \<and>
     (buffptr part = NULL \<longrightarrow> esize part = 0)"

definition dev_inv :: "kernel \<Rightarrow> bool" where
  "dev_inv s \<longleftrightarrow> mem_inv (heap s) (dev_cb s) (dev_partial s) \<and> \<not> lock (aesd_device s)"

definition dev_cmds :: "kernel \<Rightarrow> byte list list" where
  "dev_cmds s = map (entry_bytes (heap s)) (cb_list (dev_cb s))"

definition dev_rest :: "kernel \<Rightarrow> byte list" where
  "dev_rest s = entry_bytes (heap s) (dev_partial s)"

definition dev_data :: "kernel \<Rightarrow> byte list" where
  "dev_data s = concat (dev_cmds s)"

definition dev_owned :: "kernel \<Rightarrow> nat set" where
  "dev_owned s = entry_addrs (dev_entries (dev_cb s) (dev_partial s))"

definition unowned :: "kernel \<Rightarrow> nat set" where
  "unowned s = dom (heap s) - dev_owned s"

section \<open>Frame rules of the state\<close>

lemma kernel_simps [simp]:
  "aesd_device (next_tick s) = aesd_device s"
  "aesd_device (set_block a blk s) = aesd_device s"
  "region (next_tick s) = region s"
  "region (set_block a blk s) = region s"
  "heap (upd_dev f s) = heap s"
  "tick (upd_dev f s) = tick s"
  "region (upd_dev f s) = region s"
  "aesd_device (upd_dev f s) = f (aesd_device s)"
  by (simp_all add: next_tick_def set_block_def upd_dev_def)

lemma set_cb_simps [simp]:
  "heap (set_cb b s) = heap s"
  "dev_cb (set_cb b s) = b"
  "dev_partial (set_cb b s) = dev_partial s"
  "lock (aesd_device (set_cb b s)) = lock (aesd_device s)"
  "tick (set_cb b s) = tick s"
  "region (set_cb b s) = region s"
  by (simp_all add: set_cb_def)

lemma set_partial_simps [simp]:
  "heap (set_partial p n s) = heap s"
  "dev_cb (set_partial p n s) = dev_cb s"
  "dev_partial (set_partial p n s) = \<lparr>buffptr = p, esize = n\<rparr>"
  "lock (aesd_device (set_partial p n s)) = lock (aesd_device s)"
  "tick (set_partial p n s) = tick s"
  "region (set_partial p n s) = region s"
  by (simp_all add: set_partial_def)

lemma mutex_unlock_simps [simp]:
  "heap (mutex_unlock s) = heap s"
  "dev_cb (mutex_unlock s) = dev_cb s"
  "dev_partial (mutex_unlock s) = dev_partial s"
  "\<not> lock (aesd_device (mutex_unlock s))"
  "tick (mutex_unlock s) = tick s"
  "region (mutex_unlock s) = region s"
  by (simp_all add: mutex_unlock_def)

lemma mutex_lock_cases:
  assumes "\<not> lock (aesd_device s)"
  obtains (interrupted) "mutex_lock_interruptible K s = Inr (True, next_tick s)" "k_intr K (tick s)"
  | (locked) s' where "mutex_lock_interruptible K s = Inr (False, s')" "heap s' = heap s"
      "dev_cb s' = dev_cb s" "dev_partial s' = dev_partial s" "lock (aesd_device s')"
      "\<not> k_intr K (tick s)"
  using assms by (cases "k_intr K (tick s)") (auto simp: mutex_lock_interruptible_def)

lemmas dev_view_defs = dev_cmds_def dev_rest_def dev_owned_def unowned_def

section \<open>Live entries\<close>

lemma live_entryE:
  assumes "live_entry h e"
  obtains a bs where "buffptr e = Ptr a 0" "h a = Some (Bytes bs)" "unat (esize e) = length bs"
    "bs \<noteq> []" "length bs < kmalloc_limit" "entry_bytes h e = bs"
  using assms by (auto simp: live_entry_def entry_bytes_def split: cptr.splits option.splits kblock.splits)

lemma live_entryI:
  "buffptr e = Ptr a 0 \<Longrightarrow> h a = Some (Bytes bs) \<Longrightarrow> unat (esize e) = length bs \<Longrightarrow>
   bs \<noteq> [] \<Longrightarrow> length bs < kmalloc_limit \<Longrightarrow> live_entry h e"
  by (simp add: live_entry_def)

lemma entry_addrs_simps [simp]:
  "entry_addrs [] = {}"
  "entry_addrs (e # es) = ptr_block (buffptr e) \<union> entry_addrs es"
  "entry_addrs (es @ es') = entry_addrs es \<union> entry_addrs es'"
  by (auto simp: entry_addrs_def)

lemma finite_entry_addrs [simp]: "finite (entry_addrs es)"
  by (auto simp: entry_addrs_def ptr_block_def split: cptr.splits)

lemma live_addrs_dom: "list_all (live_entry h) es \<Longrightarrow> entry_addrs es \<subseteq> dom h"
  by (induction es) (auto elim!: live_entryE)

text \<open>Changing memory at a block that no entry points to changes no entry.\<close>

lemma entry_frame:
  assumes "a \<notin> ptr_block (buffptr e)"
  shows "live_entry (h(a := blk)) e = live_entry h e" "entry_bytes (h(a := blk)) e = entry_bytes h e"
  using assms by (auto simp: live_entry_def entry_bytes_def split: cptr.splits)

lemma entries_frame:
  assumes "a \<notin> entry_addrs es"
  shows "list_all (live_entry (h(a := blk))) es = list_all (live_entry h) es"
    "map (entry_bytes (h(a := blk))) es = map (entry_bytes h) es"
  using assms by (induction es) (auto simp: entry_frame)

text \<open>Distinct base pointers of live entries address distinct blocks.\<close>

lemma live_notin_addrs:
  assumes "live_entry h e" "list_all (live_entry h) es" "buffptr e \<notin> buffptr ` set es"
    and "buffptr e = Ptr a 0"
  shows "a \<notin> entry_addrs es"
  using assms(2,3,4) by (induction es) (auto elim!: live_entryE)

lemma mem_inv_frame:
  assumes "mem_inv h b part" "a \<notin> entry_addrs (dev_entries b part)"
  shows "mem_inv (h(a := blk)) b part"
  using assms entries_frame [OF assms(2)] by (auto simp: mem_inv_def)

lemma mem_inv_addrs_dom: "mem_inv h b part \<Longrightarrow> entry_addrs (dev_entries b part) \<subseteq> dom h"
  by (auto simp: mem_inv_def dest: live_addrs_dom)

lemma mem_inv_fresh: "mem_inv h b part \<Longrightarrow> h a = None \<Longrightarrow> a \<notin> entry_addrs (dev_entries b part)"
  using mem_inv_addrs_dom by blast

section \<open>Adding a command to the ring\<close>

lemma mem_inv_cb [simp]: "mem_inv h b part \<Longrightarrow> cb_inv b"
  by (simp add: mem_inv_def)

lemma dev_entries_split:
  "dev_entries b part = cb_list b @ dev_entries aesd_circular_buffer_init part"
  by (simp add: dev_entries_def)

lemma ptr_notin_addrs: "p = Ptr x 0 \<Longrightarrow> x \<notin> entry_addrs es \<Longrightarrow> p \<notin> buffptr ` set es"
  by (induction es) (auto dest: sym)

lemma cb_list_full:
  assumes "full b"
  obtains e es where "cb_list b = e # es" "length es = 9"
proof (cases "cb_list b")
  case Nil
  then show ?thesis using assms length_cb_list [of b] by simp
next
  case (Cons e es)
  then show ?thesis using assms length_cb_list [of b] by (intro that) simp_all
qed

text \<open>
  A new live entry goes into the ring. When the ring was full, the pointer returned is the base
  of the block of the oldest command, which nothing else of the device points to: freeing it
  is valid and keeps the invariant. Exactly the block of the new entry stops being unowned.
\<close>

lemma ring_add_not_full:
  assumes inv: "mem_inv h b part" and nf: "\<not> full b"
    and e: "live_entry h e" "buffptr e = Ptr x 0" "x \<notin> entry_addrs (dev_entries b part)"
  shows "mem_inv h (cb_added b e) part"
    "map (entry_bytes h) (cb_list (cb_added b e)) =
       lastn 10 (map (entry_bytes h) (cb_list b) @ [entry_bytes h e])"
    "entry_addrs (dev_entries (cb_added b e) part) = insert x (entry_addrs (dev_entries b part))"
proof -
  have l: "cb_list (cb_added b e) = cb_list b @ [e]"
    using inv nf by (simp add: cb_list_added)
  define P where "P = (if buffptr part = NULL then [] else [part])"
  have de0: "dev_entries b part = cb_list b @ P"
    and de: "dev_entries (cb_added b e) part = cb_list b @ [e] @ P"
    by (simp_all add: dev_entries_def l P_def)
  have "buffptr e \<notin> buffptr ` set (dev_entries b part)"
    by (rule ptr_notin_addrs [OF e(2,3)])
  then have notin: "buffptr e \<notin> buffptr ` set (cb_list b)" "buffptr e \<notin> buffptr ` set P"
    by (simp_all add: de0 image_Un)
  show "mem_inv h (cb_added b e) part"
    using inv e(1) notin unfolding mem_inv_def de0 de by (simp add: cb_inv_added)
  show "map (entry_bytes h) (cb_list (cb_added b e)) =
       lastn 10 (map (entry_bytes h) (cb_list b) @ [entry_bytes h e])"
    using cb_count_not_full [of b] inv nf by (simp add: l)
  show "entry_addrs (dev_entries (cb_added b e) part) = insert x (entry_addrs (dev_entries b part))"
    using e(2) by (simp add: de de0)
qed

lemma ring_add_full:
  assumes inv: "mem_inv h b part" and full: "full b"
    and e: "live_entry h e" "buffptr e = Ptr x 0" "x \<notin> entry_addrs (dev_entries b part)"
  obtains y where "buffptr (hd (cb_list b)) = Ptr y 0" "y \<in> entry_addrs (dev_entries b part)"
    "h y \<noteq> None"
    "mem_inv (h(y := None)) (cb_added b e) part"
    "map (entry_bytes (h(y := None))) (cb_list (cb_added b e)) =
       lastn 10 (map (entry_bytes h) (cb_list b) @ [entry_bytes h e])"
    "entry_bytes (h(y := None)) part = entry_bytes h part"
    "entry_addrs (dev_entries (cb_added b e) part) =
       insert x (entry_addrs (dev_entries b part)) - {y}"
proof -
  obtain e0 es where es: "cb_list b = e0 # es" and len: "length es = 9"
    using full by (rule cb_list_full)
  have l: "cb_list (cb_added b e) = es @ [e]"
    using inv full es by (simp add: cb_list_added)
  define P where "P = (if buffptr part = NULL then [] else [part])"
  have de0: "dev_entries b part = e0 # es @ P" by (simp add: dev_entries_def es P_def)
  have live: "live_entry h e0" "list_all (live_entry h) (es @ P)"
    and dist: "distinct (map buffptr (es @ P))" "buffptr e0 \<notin> buffptr ` set (es @ P)"
    using inv unfolding mem_inv_def de0 by (simp_all add: image_Un)
  obtain y where y: "buffptr e0 = Ptr y 0" "h y \<noteq> None" using live(1) by (rule live_entryE) simp
  have yn: "y \<notin> entry_addrs (es @ P)"
    by (rule live_notin_addrs [OF live(1,2) dist(2) y(1)])
  have xy: "x \<noteq> y" and xn: "x \<notin> entry_addrs (es @ P)"
    using e(3) y(1) by (simp_all add: de0)
  have ynes: "y \<notin> entry_addrs (es @ [e] @ P)" using yn xy e(2) by simp
  have notin: "buffptr e \<notin> buffptr ` set (es @ P)"
    by (rule ptr_notin_addrs [OF e(2) xn])
  have de: "dev_entries (cb_added b e) part = es @ [e] @ P" by (simp add: dev_entries_def l P_def)
  have "mem_inv (h(y := None)) (cb_added b e) part"
    using inv e(1) live dist notin entries_frame(1) [OF ynes, of h None]
    unfolding mem_inv_def de by (simp add: cb_inv_added image_Un)
  moreover have "map (entry_bytes (h(y := None))) (cb_list (cb_added b e)) =
       lastn 10 (map (entry_bytes h) (cb_list b) @ [entry_bytes h e])"
    using entries_frame(2) [of y "es @ [e]" h None] ynes es len by (simp add: l lastn_def)
  moreover have "entry_bytes (h(y := None)) part = entry_bytes h part"
    using yn by (cases "buffptr part") (auto simp: P_def entry_bytes_def)
  moreover have "entry_addrs (dev_entries (cb_added b e) part) =
       insert x (entry_addrs (dev_entries b part)) - {y}"
  proof -
    have "entry_addrs (dev_entries b part) = insert y (entry_addrs (es @ P))"
      using es y(1) by (simp add: dev_entries_def P_def)
    moreover have "entry_addrs (dev_entries (cb_added b e) part) = insert x (entry_addrs (es @ P))"
      unfolding de using e(2) by auto
    ultimately show ?thesis using yn xy by auto
  qed
  ultimately show ?thesis
    using y es by (intro that [of y]) (auto simp: dev_entries_def)
qed

lemma ring_add_step:
  assumes inv: "mem_inv (heap s) (dev_cb s) (dev_partial s)"
    and e: "live_entry (heap s) e" "buffptr e = Ptr x 0" "x \<notin> dev_owned s"
  obtains g b s' where "aesd_circular_buffer_add_entry (dev_cb s) e = Inr (g, b)"
    "kfree_const g (set_cb b s) = Inr s'"
    "mem_inv (heap s') (dev_cb s') (dev_partial s')"
    "dev_cmds s' = lastn 10 (dev_cmds s @ [entry_bytes (heap s) e])"
    "dev_partial s' = dev_partial s" "dev_rest s' = dev_rest s"
    "lock (aesd_device s') = lock (aesd_device s)"
    "unowned s' = unowned s - {x}"
    "\<And>a. a \<notin> dev_owned s \<Longrightarrow> heap s' a = heap s a"
    "dev_owned s' \<subseteq> insert x (dev_owned s)"
proof -
  let ?b = "cb_added (dev_cb s) e"
  have dx: "x \<in> dom (heap s)" using e(1,2) by (auto elim: live_entryE)
  note x = e(3) [unfolded dev_owned_def]
  have add: "aesd_circular_buffer_add_entry (dev_cb s) e =
      Inr (if full (dev_cb s) then buffptr (hd (cb_list (dev_cb s))) else NULL, ?b)"
    using inv by (simp add: add_entry_eq)
  show ?thesis
  proof (cases "full (dev_cb s)")
    case False
    note r = ring_add_not_full [OF inv False e(1,2) x]
    show ?thesis
      using r add False by (intro that [of NULL ?b "set_cb ?b s"]) (auto simp: dev_view_defs)
  next
    case True
    obtain y where y: "buffptr (hd (cb_list (dev_cb s))) = Ptr y 0"
        "y \<in> entry_addrs (dev_entries (dev_cb s) (dev_partial s))" "heap s y \<noteq> None"
      and r: "mem_inv ((heap s)(y := None)) ?b (dev_partial s)"
        "map (entry_bytes ((heap s)(y := None))) (cb_list ?b) =
           lastn 10 (map (entry_bytes (heap s)) (cb_list (dev_cb s)) @ [entry_bytes (heap s) e])"
        "entry_bytes ((heap s)(y := None)) (dev_partial s) = entry_bytes (heap s) (dev_partial s)"
        "entry_addrs (dev_entries ?b (dev_partial s)) =
           insert x (entry_addrs (dev_entries (dev_cb s) (dev_partial s))) - {y}"
      using ring_add_full [OF inv True e(1,2) x] by metis
    have free: "kfree_const (Ptr y 0) (set_cb ?b s) = Inr (set_block y None (set_cb ?b s))"
      using y(3) by (auto simp: mem_simps)
    show ?thesis
      using r add True y free x
      by (intro that [of "Ptr y 0" ?b "set_block y None (set_cb ?b s)"]) (auto simp: dev_view_defs)
  qed
qed

section \<open>Commands in a sequence of bytes\<close>

text \<open>The length of the first command of \<open>bs\<close>: up to and including the first newline.\<close>

definition cmd_len :: "byte list \<Rightarrow> nat" where
  "cmd_len bs = Suc (length (takeWhile (\<lambda>x. x \<noteq> newline) bs))"

lemma cmd_len_le: "newline \<in> set bs \<Longrightarrow> cmd_len bs \<le> length bs"
  unfolding cmd_len_def Suc_le_eq by (induction bs) auto

lemma cmd_len_pos [simp]: "0 < cmd_len bs"
  by (simp add: cmd_len_def)

text \<open>All complete commands of \<open>bs\<close>, and the bytes after the last newline.\<close>

function split_cmds :: "byte list \<Rightarrow> byte list list \<times> byte list" where
  "split_cmds bs =
     (if newline \<in> set bs
      then (let (cs, rest) = split_cmds (drop (cmd_len bs) bs) in (take (cmd_len bs) bs # cs, rest))
      else ([], bs))"
  by pat_completeness auto
termination
  by (relation "measure length") (auto intro!: diff_less length_pos_if_in_set)

declare split_cmds.simps [simp del]

lemma split_cmds_no_newline: "newline \<notin> set bs \<Longrightarrow> split_cmds bs = ([], bs)"
  by (simp add: split_cmds.simps)

lemma split_cmds_newline:
  "newline \<in> set bs \<Longrightarrow> split_cmds bs =
     (take (cmd_len bs) bs # fst (split_cmds (drop (cmd_len bs) bs)),
      snd (split_cmds (drop (cmd_len bs) bs)))"
  by (simp add: split_cmds.simps [of bs] split_def Let_def)

lemma concat_split_cmds: "concat (fst (split_cmds bs)) @ snd (split_cmds bs) = bs"
proof (induction bs rule: split_cmds.induct)
  case (1 bs)
  then show ?case
    by (cases "newline \<in> set bs") (simp_all add: split_cmds_newline split_cmds_no_newline)
qed

lemma snd_split_cmds_no_newline: "newline \<notin> set (snd (split_cmds bs))"
proof (induction bs rule: split_cmds.induct)
  case (1 bs)
  then show ?case
    by (cases "newline \<in> set bs") (auto simp: split_cmds_newline split_cmds_no_newline)
qed


end
