(* ===== verification/Driver_Loop.thy ===== *)
theory Driver_Loop
  imports Driver_Invariant
begin

text \<open>
  The loop of \<^verbatim>\<open>aesd_write\<close> over the newlines of the gathered data: what a round does, whatever the external
  calls do (\<open>write_body_cases\<close>), and what the loop does, which always ends.
\<close>

section \<open>One round of the loop\<close>

text \<open>Every allocation of a supported size succeeds as long as memory is finite.\<close>

definition reliable :: "kenv \<Rightarrow> bool" where
  "reliable K \<longleftrightarrow> (\<forall>t h n. finite (dom h) \<longrightarrow> n < kmalloc_limit \<longrightarrow> k_alloc K t h n \<noteq> None)"

text \<open>The state of the write loop at offset \<open>off\<close> of the combined data \<open>whole\<close> in block \<open>a\<close>.\<close>

definition wl_inv :: "nat \<Rightarrow> byte list \<Rightarrow> kernel \<Rightarrow> bool" where
  "wl_inv a whole s \<longleftrightarrow> heap s a = Some (Bytes whole) \<and> length whole < kmalloc_limit \<and>
     a \<notin> dev_owned s \<and> mem_inv (heap s) (dev_cb s) (dev_partial s) \<and>
     dev_partial s = null_entry \<and> lock (aesd_device s)"

definition span :: "nat \<Rightarrow> byte list \<Rightarrow> nat \<Rightarrow> aesd_buffer_entry" where
  "span a whole off = \<lparr>buffptr = Ptr a off, esize = of_nat (length whole - off)\<rparr>"

definition span_nl :: "nat \<Rightarrow> byte list \<Rightarrow> nat \<Rightarrow> cptr" where
  "span_nl a whole off =
     (if newline \<in> set (drop off whole) then Ptr a (off + cmd_len (drop off whole) - 1) else NULL)"

lemma span_ptr [simp]: "buffptr (span a whole off) = Ptr a off"
  by (simp add: span_def)

lemma limit_lt: "n < kmalloc_limit \<Longrightarrow> unat (of_nat n :: size_t) = n"
  by (rule unat_of_nat_lt) (simp add: kmalloc_limit_def)

lemma memchr_span:
  assumes "heap s a = Some (Bytes whole)" "length whole < kmalloc_limit" "off \<le> length whole"
  shows "memchr (Ptr a off) newline (unat (esize (span a whole off))) s = Inr (span_nl a whole off)"
proof -
  have "length whole - off < kmalloc_limit" using assms(2) by simp
  then have "unat (esize (span a whole off)) = length whole - off"
    by (simp add: span_def limit_lt)
  then show ?thesis
    using assms by (simp add: mem_simps span_nl_def cmd_len_def)
qed

lemma kmalloc_reliable:
  assumes "kmalloc K n s = (NULL, s')" "finite (dom (heap s))" "n < kmalloc_limit"
  shows "\<not> reliable K"
proof -
  have "k_alloc K (tick s) (heap s) n = None"
    using assms(1) by (auto simp: kmalloc_def split: option.splits)
  with assms(2,3) show ?thesis unfolding reliable_def by blast
qed

lemma kmemdup_reliable:
  assumes "kmemdup K p n s = Inr (NULL, s')" "finite (dom (heap s))" "n < kmalloc_limit"
  shows "\<not> reliable K"
proof -
  have "k_alloc K (tick s) (heap s) n = None"
    using assms(1) by (auto simp: kmemdup_def kmalloc_def cbind_Inr_iff split: option.splits)
  with assms(2,3) show ?thesis unfolding reliable_def by blast
qed

lemma alloc_fresh:
  assumes "mem_inv (heap s) (dev_cb s) (dev_partial s)" "heap s x = None"
  shows "x \<notin> dev_owned s" "x \<notin> unowned s"
  using mem_inv_fresh [OF assms] assms(2) by (auto simp: dev_view_defs)

text \<open>A new block leaves the device alone and is added to the unowned memory.\<close>

lemma new_block_frame:
  assumes "mem_inv (heap s) (dev_cb s) (dev_partial s)" "heap s x = None"
    and "heap s' = (heap s)(x \<mapsto> blk)" "aesd_device s' = aesd_device s"
  shows "mem_inv (heap s') (dev_cb s') (dev_partial s')"
    "dev_cmds s' = dev_cmds s" "dev_rest s' = dev_rest s"
    "dev_owned s' = dev_owned s" "unowned s' = insert x (unowned s)"
proof -
  have x: "x \<notin> entry_addrs (dev_entries (dev_cb s) (dev_partial s))"
    by (rule mem_inv_fresh [OF assms(1,2)])
  then have x2: "x \<notin> entry_addrs (cb_list (dev_cb s))" "x \<notin> ptr_block (buffptr (dev_partial s))"
    by (auto simp: dev_entries_def split: if_splits)
  show "mem_inv (heap s') (dev_cb s') (dev_partial s')"
    using mem_inv_frame [OF assms(1) x] assms(3,4) by simp
  show "dev_cmds s' = dev_cmds s" "dev_rest s' = dev_rest s"
    using entries_frame(2) [OF x2(1)] entry_frame(2) [OF x2(2)] assms(3,4)
    by (simp_all add: dev_view_defs)
  show "dev_owned s' = dev_owned s" "unowned s' = insert x (unowned s)"
    using x assms by (auto simp: dev_view_defs)
qed

lemma alloc_frame:
  assumes "mem_inv (heap s) (dev_cb s) (dev_partial s)" "heap s x = None"
    and "s' = next_tick (set_block x (Some blk) s)"
  shows "mem_inv (heap s') (dev_cb s') (dev_partial s')" "aesd_device s' = aesd_device s"
    "dev_cmds s' = dev_cmds s" "dev_rest s' = dev_rest s"
    "dev_owned s' = dev_owned s" "unowned s' = insert x (unowned s)"
  using new_block_frame [OF assms(1,2), of s' blk] assms(3) by simp_all

text \<open>Overwriting a block that the device does not own changes nothing of the device.\<close>

lemma overwrite_frame:
  assumes "mem_inv (heap s) (dev_cb s) (dev_partial s)" "x \<notin> dev_owned s" "heap s x \<noteq> None"
    and "s' = set_block x (Some blk) s"
  shows "mem_inv (heap s') (dev_cb s') (dev_partial s')" "aesd_device s' = aesd_device s"
    "dev_cmds s' = dev_cmds s" "dev_rest s' = dev_rest s"
    "dev_owned s' = dev_owned s" "unowned s' = unowned s"
proof -
  have x: "x \<notin> entry_addrs (dev_entries (dev_cb s) (dev_partial s))"
    using assms(2) by (simp add: dev_owned_def)
  then have x2: "x \<notin> entry_addrs (cb_list (dev_cb s))" "x \<notin> ptr_block (buffptr (dev_partial s))"
    by (auto simp: dev_entries_def split: if_splits)
  show "mem_inv (heap s') (dev_cb s') (dev_partial s')"
    using mem_inv_frame [OF assms(1) x] assms(4) by simp
  show "dev_cmds s' = dev_cmds s" "dev_rest s' = dev_rest s"
    using entries_frame(2) [OF x2(1)] entry_frame(2) [OF x2(2)] assms(4)
    by (simp_all add: dev_view_defs)
  show "dev_owned s' = dev_owned s" "unowned s' = unowned s" "aesd_device s' = aesd_device s"
    using x assms by (auto simp: dev_view_defs)
qed

lemma store_entry_block [mem_simps]:
  "heap s a \<noteq> None \<Longrightarrow> store_entry (Ptr a 0) e s = Inr (set_block a (Some (EntryBlk e)) s)"
  by (simp add: store_entry_def)

lemma store_entry_NULL [mem_simps]: "store_entry NULL e s = Inl Null_Deref"
  by (simp add: store_entry_def)

lemma wl_inv_mem: "wl_inv a whole s \<Longrightarrow> mem_inv (heap s) (dev_cb s) (dev_partial s)"
  unfolding wl_inv_def by blast

lemma wl_inv_alloc:
  assumes "wl_inv a whole s" "heap s x = None"
  shows "wl_inv a whole (next_tick (set_block x (Some blk) s))"
proof -
  note f = alloc_frame [OF wl_inv_mem [OF assms(1)] assms(2) refl, of blk]
  show ?thesis using f(1,2,5) assms by (auto simp: wl_inv_def)
qed

lemma wl_inv_overwrite:
  assumes "wl_inv a whole s" "x \<notin> dev_owned s" "heap s x \<noteq> None" "x \<noteq> a"
  shows "wl_inv a whole (set_block x (Some blk) s)"
proof -
  note f = overwrite_frame [OF wl_inv_mem [OF assms(1)] assms(2,3) refl, of blk]
  show ?thesis using f(1,2,5) assms by (auto simp: wl_inv_def)
qed

lemma wl_inv_tick [simp]: "wl_inv a whole (next_tick s) = wl_inv a whole s"
  by (simp add: wl_inv_def dev_view_defs)

lemma dev_view_tick [simp]:
  "dev_cmds (next_tick s) = dev_cmds s" "dev_rest (next_tick s) = dev_rest s"
  "dev_owned (next_tick s) = dev_owned s" "unowned (next_tick s) = unowned s"
  by (simp_all add: dev_view_defs)

text \<open>The arithmetic of one round.\<close>

lemma span_round:
  assumes "length whole < kmalloc_limit" "newline \<in> set (drop off whole)"
  defines "n \<equiv> cmd_len (drop off whole)"
  shows "0 < esize (span a whole off)" "span_nl a whole off \<noteq> NULL" "off + n \<le> length whole"
    "ptr_diff (span_nl a whole off) (Ptr a off) + 1 = of_nat n"
    "unat (of_nat n :: size_t) = n" "n < kmalloc_limit"
    "\<lparr>buffptr = Ptr a (off + n), esize = esize (span a whole off) - of_nat n\<rparr> = span a whole (off + n)"
proof -
  obtain m where m: "n = Suc m" by (simp add: n_def cmd_len_def)
  show le: "off + n \<le> length whole"
    using cmd_len_le [OF assms(2)] m by (simp add: n_def)
  then show lim: "n < kmalloc_limit" using assms(1) by simp
  then show "unat (of_nat n :: size_t) = n" by (rule limit_lt)
  have "unat (of_nat (length whole - off) :: size_t) = length whole - off"
    using assms(1) by (intro limit_lt) simp
  then show "0 < esize (span a whole off)"
    using le m by (simp add: span_def word_less_nat_alt)
  show "span_nl a whole off \<noteq> NULL" using assms(2) by (simp add: span_nl_def)
  show "ptr_diff (span_nl a whole off) (Ptr a off) + 1 = of_nat n"
    using assms(2) m by (simp add: span_nl_def span_def ptr_diff_def n_def [symmetric])
  show "\<lparr>buffptr = Ptr a (off + n), esize = esize (span a whole off) - of_nat n\<rparr> = span a whole (off + n)"
    using le by (simp add: span_def of_nat_diff)
qed

lemma wl_ring_add:
  assumes inv: "wl_inv a whole s" and e: "live_entry (heap s) e" "buffptr e = Ptr x 0"
    and x: "x \<notin> dev_owned s" "x \<noteq> a"
  obtains g b s' where "aesd_circular_buffer_add_entry (dev_cb s) e = Inr (g, b)"
    "kfree_const g (set_cb b s) = Inr s'" "wl_inv a whole s'"
    "dev_cmds s' = lastn 10 (dev_cmds s @ [entry_bytes (heap s) e])" "unowned s' = unowned s - {x}"
    "\<forall>c. c \<notin> dev_owned s \<longrightarrow> heap s' c = heap s c"
proof (rule ring_add_step [OF wl_inv_mem [OF inv] e x(1)])
  fix g b s'
  assume r: "aesd_circular_buffer_add_entry (dev_cb s) e = Inr (g, b)"
    "kfree_const g (set_cb b s) = Inr s'" "mem_inv (heap s') (dev_cb s') (dev_partial s')"
    "dev_cmds s' = lastn 10 (dev_cmds s @ [entry_bytes (heap s) e])"
    "dev_partial s' = dev_partial s" "lock (aesd_device s') = lock (aesd_device s)"
    "unowned s' = unowned s - {x}" "\<And>c. c \<notin> dev_owned s \<Longrightarrow> heap s' c = heap s c"
    "dev_owned s' \<subseteq> insert x (dev_owned s)"
  have "wl_inv a whole s'" using inv r(3,5,6,8,9) x(2) unfolding wl_inv_def by auto
  with r(1,2,4,7,8) show thesis by (intro that) auto
qed

text \<open>
  The effect of storing the command in the ring, from the state \<open>s\<close> in which the struct for the entry
  has been allocated at \<open>l\<close> and the command duplicated at \<open>x\<close>.
\<close>

lemma write_store:
  assumes inv: "wl_inv a whole s" and l: "l \<notin> dev_owned s" "heap s l \<noteq> None" "l \<noteq> a"
    and x: "x \<notin> dev_owned s" "x \<noteq> l" "x \<noteq> a"
    and cmd: "heap s x = Some (Bytes cmd)" "cmd \<noteq> []" "length cmd < kmalloc_limit"
  defines "e \<equiv> \<lparr>buffptr = Ptr x 0, esize = of_nat (length cmd)\<rparr>"
  obtains g b s' where
    "aesd_circular_buffer_add_entry (dev_cb (set_block l (Some (EntryBlk e)) s)) e = Inr (g, b)"
    "kfree_const g (set_cb b (set_block l (Some (EntryBlk e)) s)) = Inr s'"
    "wl_inv a whole s'" "dev_cmds s' = lastn 10 (dev_cmds s @ [cmd])" "unowned s' = unowned s - {x}"
    "\<forall>c. c \<notin> dev_owned s \<longrightarrow> c \<noteq> l \<longrightarrow> heap s' c = heap s c"
proof -
  let ?s = "set_block l (Some (EntryBlk e)) s"
  note f = overwrite_frame [OF wl_inv_mem [OF inv] l(1,2) refl, of "EntryBlk e"]
  have inv': "wl_inv a whole ?s" by (rule wl_inv_overwrite [OF inv l])
  have live: "live_entry (heap ?s) e" "entry_bytes (heap ?s) e = cmd" "buffptr e = Ptr x 0"
    using cmd x by (auto intro!: live_entryI simp: entry_bytes_def e_def limit_lt)
  have x': "x \<notin> dev_owned ?s" using x f(5) by simp
  show thesis
  proof (rule wl_ring_add [OF inv' live(1,3) x' x(3)])
    fix g b s'
    assume r: "aesd_circular_buffer_add_entry (dev_cb ?s) e = Inr (g, b)" "kfree_const g (set_cb b ?s) = Inr s'"
      "wl_inv a whole s'" "dev_cmds s' = lastn 10 (dev_cmds ?s @ [entry_bytes (heap ?s) e])"
      "unowned s' = unowned ?s - {x}" "\<forall>c. c \<notin> dev_owned ?s \<longrightarrow> heap s' c = heap ?s c"
    have "dev_cmds s' = lastn 10 (dev_cmds s @ [cmd])" "unowned s' = unowned s - {x}"
      using r(4,5) by (simp_all only: f live(2))
    moreover have "\<forall>c. c \<notin> dev_owned s \<longrightarrow> c \<noteq> l \<longrightarrow> heap s' c = heap s c" using r(6) f(5) by auto
    ultimately show thesis using r(1-3) by (intro that)
  qed
qed

text \<open>
  One round at a newline ends in one of three ways: it dereferences the null pointer of the failed
  allocation of the entry; it stops with \<open>EINVAL\<close> when the command cannot be duplicated; or it
  stores the command and goes on behind it. Each of the latter two leaves one more block unowned.
\<close>

lemma write_body_null:
  assumes ok: "kenv_ok K" and inv: "wl_inv a whole s" and nl: "newline \<in> set (drop off whole)"
    and fail: "kmalloc K sizeof_aesd_buffer_entry s = (NULL, next_tick s)"
  shows "write_body K (span a whole off, span_nl a whole off, s) = Inl Null_Deref"
proof -
  have len: "length whole < kmalloc_limit" and src: "heap (next_tick s) a = Some (Bytes whole)"
    using inv by (auto simp: wl_inv_def)
  note sp = span_round [OF len nl]
  have "\<exists>r. kmemdup K (Ptr a off) (cmd_len (drop off whole)) (next_tick s) = Inr r"
    by (rule kmemdup_block [OF ok src sp(3)]) simp_all
  then show ?thesis
    by (auto simp: write_body_def Let_def sp fail mem_simps)
qed

lemma write_body_einval:
  assumes inv: "wl_inv a whole s" and nl: "newline \<in> set (drop off whole)"
    and alloc: "kmalloc K sizeof_aesd_buffer_entry s = (Ptr l 0, s1)" "heap s l = None"
      "s1 = next_tick (set_block l (Some (Bytes bs)) s)"
    and fail: "kmemdup K (Ptr a off) (cmd_len (drop off whole)) s1 = Inr (NULL, next_tick s1)"
  obtains s' where "write_body K (span a whole off, span_nl a whole off, s) =
      Inr (Inr (Some EINVAL, span a whole off, s'))" "wl_inv a whole s'" "dev_cmds s' = dev_cmds s"
    "unowned s' = insert l (unowned s)"
proof -
  let ?s' = "set_block l (Some (EntryBlk \<lparr>buffptr = NULL, esize = 0\<rparr>)) (next_tick s1)"
  have len: "length whole < kmalloc_limit" and la: "l \<noteq> a"
    using inv alloc(2) by (auto simp: wl_inv_def)
  note sp = span_round [OF len nl] and f = alloc_frame [OF wl_inv_mem [OF inv] alloc(2,3)]
  have inv1: "wl_inv a whole (next_tick s1)" using wl_inv_alloc [OF inv alloc(2)] alloc(3) by simp
  have l1: "l \<notin> dev_owned (next_tick s1)" "heap (next_tick s1) l \<noteq> None"
    using alloc_fresh [OF wl_inv_mem [OF inv] alloc(2)] f(5) alloc(3) by simp_all
  have "write_body K (span a whole off, span_nl a whole off, s) =
      Inr (Inr (Some EINVAL, span a whole off, ?s'))"
    using alloc fail l1 by (simp add: write_body_def Let_def sp mem_simps)
  then show thesis
    using wl_inv_overwrite [OF inv1 l1 la] overwrite_frame [OF wl_inv_mem [OF inv1] l1 refl] f
    by (intro that [of ?s']) simp_all
qed

lemma write_body_stored:
  assumes inv: "wl_inv a whole s" and nl: "newline \<in> set (drop off whole)"
    and alloc: "kmalloc K sizeof_aesd_buffer_entry s = (Ptr l 0, s1)" "heap s l = None"
      "s1 = next_tick (set_block l (Some (Bytes bs)) s)"
  defines "n \<equiv> cmd_len (drop off whole)"
  assumes dup: "kmemdup K (Ptr a off) n s1 = Inr (Ptr x 0, s2)" "heap s1 x = None"
      "s2 = next_tick (set_block x (Some (Bytes (take n (drop off whole)))) s1)"
  obtains s' where "write_body K (span a whole off, span_nl a whole off, s) =
      Inr (Inl (span a whole (off + n), span_nl a whole (off + n), s'))" "wl_inv a whole s'"
    "dev_cmds s' = lastn 10 (dev_cmds s @ [take n (drop off whole)])"
    "unowned s' = insert l (unowned s)" "\<forall>c\<in>unowned s. heap s' c = heap s c"
proof -
  let ?cmd = "take n (drop off whole)"
  let ?e0 = "\<lparr>buffptr = Ptr x 0, esize = 0\<rparr>" and ?e = "\<lparr>buffptr = Ptr x 0, esize = of_nat n\<rparr>"
  have len: "length whole < kmalloc_limit" and la: "l \<noteq> a"
    using inv alloc(2) by (auto simp: wl_inv_def)
  note sp = span_round [OF len nl, folded n_def]
    and f1 = alloc_frame [OF wl_inv_mem [OF inv] alloc(2,3)]
  have inv1: "wl_inv a whole s1" using wl_inv_alloc [OF inv alloc(2)] alloc(3) by simp
  note f2 = alloc_frame [OF wl_inv_mem [OF inv1] dup(2,3)]
  have inv2: "wl_inv a whole s2" using wl_inv_alloc [OF inv1 dup(2)] dup(3) by simp
  have h1: "heap s1 l \<noteq> None" "heap s1 a \<noteq> None"
    using alloc(3) inv1 by (simp_all add: wl_inv_def)
  have x: "x \<notin> dev_owned s2" "x \<noteq> l" "x \<noteq> a"
    using alloc_fresh(1) [OF wl_inv_mem [OF inv1] dup(2)] f2(5) dup(2) h1 by auto
  have l: "l \<notin> dev_owned s2" "heap s2 l \<noteq> None"
    using alloc_fresh(1) [OF wl_inv_mem [OF inv] alloc(2)] f1(5) f2(5) x(2) h1(1) dup(3) by simp_all
  have cmd: "length ?cmd = n" "?cmd \<noteq> []" "heap s2 x = Some (Bytes ?cmd)"
    using sp(3) dup(3) by (auto simp: n_def cmd_len_def)
  obtain g b s' where r:
      "aesd_circular_buffer_add_entry (dev_cb (set_block l (Some (EntryBlk ?e)) s2)) ?e = Inr (g, b)"
      "kfree_const g (set_cb b (set_block l (Some (EntryBlk ?e)) s2)) = Inr s'"
      "wl_inv a whole s'" "dev_cmds s' = lastn 10 (dev_cmds s2 @ [?cmd])" "unowned s' = unowned s2 - {x}"
      "\<forall>c. c \<notin> dev_owned s2 \<longrightarrow> c \<noteq> l \<longrightarrow> heap s' c = heap s2 c"
    using write_store [OF inv2 l la x cmd(3,2)] sp(6) unfolding cmd(1) by metis
  have nl': "memchr (Ptr a (off + n)) newline (unat (esize (span a whole (off + n)))) s' =
      Inr (span_nl a whole (off + n))"
    using r(3) len sp(3) by (intro memchr_span) (auto simp: wl_inv_def)
  have "write_body K (span a whole off, span_nl a whole off, s) =
      Inr (Inl (span a whole (off + n), span_nl a whole (off + n), s'))"
    using alloc(1) dup(1) l(2) nl' r(1,2) by (simp add: write_body_def Let_def sp mem_simps)
  moreover have "unowned s' = insert l (unowned s)"
    using r(5) f2(6) f1(6) alloc_fresh [OF wl_inv_mem [OF inv1] dup(2)] x(2) by auto
  moreover have "\<forall>c\<in>unowned s. heap s' c = heap s c"
  proof
    fix c assume c: "c \<in> unowned s"
    then have "c \<noteq> l" "c \<noteq> x" using alloc(2,3) dup(2) by (auto simp: unowned_def split: if_splits)
    moreover have "c \<notin> dev_owned s2" using c f1(5) f2(5) by (simp add: unowned_def)
    ultimately show "heap s' c = heap s c" using r(6) alloc(3) dup(3) by simp
  qed
  ultimately show thesis using r(3,4) f1(3) f2(3) by (intro that) simp_all
qed


section \<open>The loop over the newlines\<close>

text \<open>
  How the loop ends when it starts at offset \<open>off\<close>: with the null dereference; with \<open>EINVAL\<close> after
  \<open>k\<close> commands; or normally, with all commands of the data stored and the rest of the data left.
  \<open>L\<close> are the blocks that became unowned: one per command, and one more on \<open>EINVAL\<close>.
\<close>

definition loop_post ::
  "kenv \<Rightarrow> nat \<Rightarrow> byte list \<Rightarrow> nat \<Rightarrow> kernel \<Rightarrow> (errno option \<times> aesd_buffer_entry \<times> kernel) checked \<Rightarrow> bool" where
  "loop_post K a whole off s r \<longleftrightarrow>
     (let cmds = fst (split_cmds (drop off whole)); rest = snd (split_cmds (drop off whole))
      in (r = Inl Null_Deref \<and> \<not> reliable K) \<or>
         (\<exists>k L off' s'. k \<le> length cmds \<and> off' \<le> length whole \<and> wl_inv a whole s' \<and>
            dev_cmds s' = lastn 10 (dev_cmds s @ take k cmds) \<and>
            unowned s' = unowned s \<union> L \<and> unowned s \<inter> L = {} \<and> finite L \<and>
            (r = Inr (Some EINVAL, span a whole off', s') \<and> card L = Suc k \<and> \<not> reliable K \<or>
             r = Inr (None, span a whole off', s') \<and> card L = k \<and> k = length cmds \<and>
               drop off' whole = rest)))"

lemma loop_post_done:
  assumes "wl_inv a whole s" "off \<le> length whole" "newline \<notin> set (drop off whole)"
    and "dev_cmds s = lastn 10 (dev_cmds s)"
  shows "loop_post K a whole off s (Inr (None, span a whole off, s))"
  using assms unfolding loop_post_def Let_def
  by (intro disjI2 exI [of _ 0] exI [of _ "{}"] exI [of _ off] exI [of _ s])
    (simp add: split_cmds_no_newline)

text \<open>What the rest of the loop does, seen from the round before it.\<close>

lemma loop_post_step:
  assumes post: "loop_post K a whole (off + n) s1 r"
    and nl: "newline \<in> set (drop off whole)" and n: "n = cmd_len (drop off whole)"
    and cmds: "dev_cmds s1 = lastn 10 (dev_cmds s @ [take n (drop off whole)])"
    and un: "unowned s1 = insert l (unowned s)" "l \<notin> unowned s"
  shows "loop_post K a whole off s r"
proof -
  let ?c = "take n (drop off whole)"
  have sp: "split_cmds (drop off whole) =
      (?c # fst (split_cmds (drop (off + n) whole)), snd (split_cmds (drop (off + n) whole)))"
    using split_cmds_newline [OF nl] by (simp add: n add.commute)
  have lastn: "lastn 10 (dev_cmds s1 @ xs) = lastn 10 (dev_cmds s @ ?c # xs)" for xs
    using lastn_lastn_append [of 10 "dev_cmds s @ [?c]" xs] by (simp add: cmds)
  show ?thesis
  proof (cases "r = Inl Null_Deref \<and> \<not> reliable K")
    case True
    then show ?thesis by (simp add: loop_post_def Let_def)
  next
    case False
    then obtain k L off' s' where k: "k \<le> length (fst (split_cmds (drop (off + n) whole)))"
        "off' \<le> length whole" "wl_inv a whole s'"
        "dev_cmds s' = lastn 10 (dev_cmds s1 @ take k (fst (split_cmds (drop (off + n) whole))))"
        "unowned s' = unowned s1 \<union> L" "unowned s1 \<inter> L = {}" "finite L"
        "r = Inr (Some EINVAL, span a whole off', s') \<and> card L = Suc k \<and> \<not> reliable K \<or>
         r = Inr (None, span a whole off', s') \<and> card L = k \<and>
           k = length (fst (split_cmds (drop (off + n) whole))) \<and>
           drop off' whole = snd (split_cmds (drop (off + n) whole))"
      using post unfolding loop_post_def Let_def by blast
    have card: "card (insert l L) = Suc (card L)" using k(6,7) un by simp
    show ?thesis
      using k un card unfolding loop_post_def Let_def sp
      by (intro disjI2 exI [of _ "Suc k"] exI [of _ "insert l L"] exI [of _ off'] exI [of _ s'])
        (auto simp: lastn)
  qed
qed

lemma loop_post_einval:
  assumes "wl_inv a whole s'" "off \<le> length whole" "dev_cmds s' = dev_cmds s"
    and "dev_cmds s = lastn 10 (dev_cmds s)"
    and "unowned s' = insert l (unowned s)" "l \<notin> unowned s" "\<not> reliable K"
  shows "loop_post K a whole off s (Inr (Some EINVAL, span a whole off, s'))"
  using assms unfolding loop_post_def Let_def
  by (intro disjI2 exI [of _ 0] exI [of _ "{l}"] exI [of _ off] exI [of _ s']) simp

lemma lastn_dev_cmds: "dev_cmds s = lastn 10 (dev_cmds s)"
  by (simp add: dev_cmds_def cb_count_le)

text \<open>
  One round at a newline, over all outcomes of the allocations.
\<close>

lemma write_body_cases:
  assumes ok: "kenv_ok K" and inv: "wl_inv a whole s" and nl: "newline \<in> set (drop off whole)"
  obtains
    (null) "write_body K (span a whole off, span_nl a whole off, s) = Inl Null_Deref" "\<not> reliable K"
  | (einval) l s' where "write_body K (span a whole off, span_nl a whole off, s) =
        Inr (Inr (Some EINVAL, span a whole off, s'))" "wl_inv a whole s'" "dev_cmds s' = dev_cmds s"
      "unowned s' = insert l (unowned s)" "l \<notin> unowned s" "\<not> reliable K"
  | (stored) l s' where "write_body K (span a whole off, span_nl a whole off, s) =
        Inr (Inl (span a whole (off + cmd_len (drop off whole)),
                  span_nl a whole (off + cmd_len (drop off whole)), s'))" "wl_inv a whole s'"
      "dev_cmds s' = lastn 10 (dev_cmds s @ [take (cmd_len (drop off whole)) (drop off whole)])"
      "unowned s' = insert l (unowned s)" "l \<notin> unowned s" "\<forall>c\<in>unowned s. heap s' c = heap s c"
proof -
  let ?n = "cmd_len (drop off whole)"
  have src: "heap s a = Some (Bytes whole)" and len: "length whole < kmalloc_limit"
    and fin: "finite (dom (heap s))"
    using inv by (auto simp: wl_inv_def mem_inv_def)
  note sp = span_round [OF len nl]
  have sz: "sizeof_aesd_buffer_entry < kmalloc_limit"
    by (simp add: sizeof_aesd_buffer_entry_def kmalloc_limit_def)
  from ok show ?thesis
  proof (cases rule: kmalloc_cases [of K sizeof_aesd_buffer_entry s])
    case fail
    show ?thesis
      by (rule null [OF write_body_null [OF ok inv nl fail] kmalloc_reliable [OF fail fin sz]])
  next
    case alloc: (ok l bs)
    let ?s1 = "next_tick (set_block l (Some (Bytes bs)) s)"
    have l: "l \<notin> unowned s" by (rule alloc_fresh(2) [OF wl_inv_mem [OF inv] alloc(1)])
    have src1: "heap ?s1 a = Some (Bytes whole)" using src alloc(1) by auto
    show ?thesis
    proof (rule kmemdup_block [OF ok src1 sp(3)])
      assume fail: "kmemdup K (Ptr a off) ?n ?s1 = Inr (NULL, next_tick ?s1)"
      have nr: "\<not> reliable K" using fin by (intro kmemdup_reliable [OF fail _ sp(6)]) simp
      show ?thesis
        by (rule write_body_einval [OF inv nl alloc(4,1) refl fail]) (rule einval [OF _ _ _ _ l nr])
    next
      fix x
      assume dup: "heap ?s1 x = None" "kmemdup K (Ptr a off) ?n ?s1 =
        Inr (Ptr x 0, next_tick (set_block x (Some (Bytes (take ?n (drop off whole)))) ?s1))"
      show ?thesis
        by (rule write_body_stored [OF inv nl alloc(4,1) refl dup(2,1) refl]) (rule stored [OF _ _ _ _ l])
    qed
  qed
qed

lemma write_loop_outcome:
  assumes ok: "kenv_ok K" and "wl_inv a whole s" "off \<le> length whole"
  shows "\<exists>r. run_loop (write_body K) (span a whole off, span_nl a whole off, s) = Some r \<and>
    loop_post K a whole off s r"
  using assms(2,3)
proof (induction "length whole - off" arbitrary: off s rule: less_induct)
  case less
  note inv = less.prems(1)
  show ?case
  proof (cases "newline \<in> set (drop off whole)")
    case False
    then have "write_body K (span a whole off, span_nl a whole off, s) =
        Inr (Inr (None, span a whole off, s))"
      by (simp add: write_body_def span_nl_def)
    then show ?thesis
      using loop_post_done [OF less.prems False lastn_dev_cmds] by (auto simp: run_loop_step(3))
  next
    case nl: True
    from ok inv nl show ?thesis
    proof (cases rule: write_body_cases)
      case null
      then show ?thesis by (auto simp: run_loop_step(1) loop_post_def Let_def)
    next
      case (einval l s')
      then show ?thesis
        using loop_post_einval [OF einval(2) less.prems(2) einval(3) lastn_dev_cmds einval(4-6)]
        by (auto simp: run_loop_step(3))
    next
      case (stored l s')
      have le: "off + cmd_len (drop off whole) \<le> length whole"
        using span_round(3) [OF _ nl] inv by (simp add: wl_inv_def)
      then have "length whole - (off + cmd_len (drop off whole)) < length whole - off"
        using cmd_len_pos [of "drop off whole"] by linarith
      then obtain r where r: "run_loop (write_body K) (span a whole (off + cmd_len (drop off whole)),
            span_nl a whole (off + cmd_len (drop off whole)), s') = Some r"
          "loop_post K a whole (off + cmd_len (drop off whole)) s' r"
        using less.hyps [OF _ stored(2) le] by blast
      show ?thesis
        using loop_post_step [OF r(2) nl refl stored(3-5)] r(1) run_loop_step(2) [of "write_body K", OF stored(1)] by auto
    qed
  qed
qed

end
