(* ===== verification/Driver_Write.thy ===== *)
theory Driver_Write
  imports Driver_Loop
begin

text \<open>
  What a write does, over every outcome of the external calls: gathering the data before the loop and
  finishing after it. The result is \<open>aesd_write_cases\<close>, which describes the six ways a write can end;
  the properties of the driver are read off it.
\<close>

section \<open>Gathering the data of a write\<close>

lemma dev_inv_mem: "dev_inv s \<Longrightarrow> mem_inv (heap s) (dev_cb s) (dev_partial s)"
  by (simp add: dev_inv_def)

text \<open>The partial command is its block, if there is one.\<close>

lemma partial_cases:
  assumes "mem_inv h b part"
  obtains (empty) "part = null_entry" "entry_bytes h part = []"
  | (held) c where "buffptr part = Ptr c 0" "h c = Some (Bytes (entry_bytes h part))"
      "unat (esize part) = length (entry_bytes h part)" "length (entry_bytes h part) < kmalloc_limit"
      "c \<notin> entry_addrs (cb_list b)"
proof (cases "buffptr part")
  case NULL
  then show ?thesis
    using assms by (intro empty) (auto simp: mem_inv_def null_entry_def entry_bytes_def)
next
  case (Ptr c off)
  then have de: "dev_entries b part = cb_list b @ [part]" by (simp add: dev_entries_def)
  have live: "live_entry h part" and cb: "list_all (live_entry h) (cb_list b)"
    and notin: "buffptr part \<notin> buffptr ` set (cb_list b)"
    using assms unfolding mem_inv_def de by simp_all
  from live show ?thesis
  proof (rule live_entryE)
    fix a bs
    assume a: "buffptr part = Ptr a 0" "h a = Some (Bytes bs)" "unat (esize part) = length bs"
      "length bs < kmalloc_limit" "entry_bytes h part = bs"
    then show ?thesis
      using live_notin_addrs [OF live cb notin a(1)] by (intro held [of a]) auto
  qed
qed

lemma partial_size:
  assumes "mem_inv h b part"
  shows "unat (esize part) = length (entry_bytes h part)" "length (entry_bytes h part) < kmalloc_limit"
  using assms by (cases rule: partial_cases; simp add: null_entry_def kmalloc_limit_def)+

lemma combined_size:
  assumes "mem_inv h b part" "unat count < kmalloc_limit"
  shows "unat (esize part + count) = length (entry_bytes h part) + unat count"
proof -
  have "unat (esize part) + unat count < 2 ^ LENGTH(64)"
    using partial_size [OF assms(1)] assms(2) by (simp add: kmalloc_limit_def)
  then show ?thesis using partial_size(1) [OF assms(1)] by (simp add: unat_word_ariths)
qed

text \<open>Copying the partial command to the start of the new buffer.\<close>

lemma gather_partial:
  assumes inv: "mem_inv (heap s) (dev_cb s) (dev_partial s)"
    and a: "heap s a = Some (Bytes junk)" "a \<notin> dev_owned s" "length (dev_rest s) \<le> length junk"
  shows "copy_partial (Ptr a 0) s =
    Inr (set_block a (Some (Bytes (dev_rest s @ drop (length (dev_rest s)) junk))) s)"
  using inv
proof (cases rule: partial_cases)
  case empty
  moreover have "set_block a (Some (Bytes junk)) s = s"
    using a(1) by (simp add: set_block_def fun_upd_idem)
  ultimately show ?thesis by (simp add: dev_rest_def null_entry_def copy_partial_def)
next
  case (held c)
  then show ?thesis
    using a by (simp add: memcpy_def mem_simps dev_rest_def copy_partial_def)
qed

text \<open>Releasing the partial command.\<close>

lemma gather_release:
  assumes inv: "mem_inv (heap s) (dev_cb s) (dev_partial s)"
  obtains s' where
    "release_partial s = Inr s'"
    "mem_inv (heap s') (dev_cb s') (dev_partial s')" "dev_partial s' = null_entry"
    "dev_cmds s' = dev_cmds s" "unowned s' = unowned s" "dev_owned s' \<subseteq> dev_owned s"
    "lock (aesd_device s') = lock (aesd_device s)" "tick s' = tick s"
    "\<And>a. a \<notin> dev_owned s \<Longrightarrow> heap s' a = heap s a"
  using inv
proof (cases rule: partial_cases)
  case empty
  then show ?thesis using inv by (intro that [of s]) (auto simp: null_entry_def release_partial_def)
next
  case (held c)
  let ?s' = "set_partial NULL 0 (set_block c None s)"
  have eq: "dev_entries (dev_cb s) (dev_partial s) = cb_list (dev_cb s) @ [dev_partial s]"
    and eq': "dev_entries (dev_cb s) null_entry = cb_list (dev_cb s)"
    using held(1) by (simp_all add: dev_entries_def null_entry_def)
  have "mem_inv (heap ?s') (dev_cb ?s') (dev_partial ?s')"
    using inv entries_frame(1) [OF held(5), of "heap s" None]
    by (simp add: mem_inv_def eq null_entry_def [symmetric] eq') (simp add: null_entry_def)
  moreover have "dev_cmds ?s' = dev_cmds s"
    using entries_frame(2) [OF held(5), of "heap s" None] by (simp add: dev_cmds_def)
  moreover have "unowned ?s' = unowned s" "dev_owned ?s' \<subseteq> dev_owned s"
    using held(1,5) by (auto simp: unowned_def dev_owned_def eq null_entry_def [symmetric] eq')
  ultimately show ?thesis
    using held by (intro that [of ?s']) (auto simp: mem_simps null_entry_def dev_owned_def eq release_partial_def)
qed

text \<open>Whether the user's \<open>n\<close> bytes can be read when the copy is made, as the second external call.\<close>

definition user_copy_ok :: "kenv \<Rightarrow> byte list \<Rightarrow> nat \<Rightarrow> kernel \<Rightarrow> bool" where
  "user_copy_ok K ubuf n s \<longleftrightarrow> copy_left (k_copy_from K (Suc (tick s))) (length ubuf) n = 0"

lemma user_copy_ok_length: "user_copy_ok K ubuf n s \<Longrightarrow> length (take n ubuf) = n"
  by (auto simp: user_copy_ok_def copy_left_zero_iff)

text \<open>Copying the user's data behind the partial command.\<close>

lemma gather_user:
  assumes a: "heap s a = Some (Bytes (p @ junk))" "length junk = n" and t: "tick s = Suc (tick s0)"
  obtains bs where "copy_from_user K (Ptr a (length p)) ubuf n s =
      Inr (copy_left (k_copy_from K (Suc (tick s0))) (length ubuf) n,
           set_block a (Some (Bytes bs)) (next_tick s))"
    "user_copy_ok K ubuf n s0 \<Longrightarrow> bs = p @ take n ubuf"
proof -
  let ?l = "copy_left (k_copy_from K (Suc (tick s0))) (length ubuf) n"
  have le: "length (take (n - ?l) ubuf) \<le> n" by simp
  let ?bs = "p @ take (n - ?l) ubuf @ drop (length (take (n - ?l) ubuf)) junk"
  have "copy_from_user K (Ptr a (length p)) ubuf n s = Inr (?l, set_block a (Some (Bytes ?bs)) (next_tick s))"
    using a le t by (simp add: copy_from_user_def Let_def mem_simps)
  moreover have "?bs = p @ take n ubuf" if "user_copy_ok K ubuf n s0"
    using that a(2) user_copy_ok_length [OF that] by (simp add: user_copy_ok_def)
  ultimately show thesis by (rule that)
qed

lemma gather_commit:
  assumes inv: "mem_inv (heap s) (dev_cb s) (dev_partial s)" and a: "heap s a = None"
    and h: "heap s3 = (heap s)(a \<mapsto> Bytes whole)" "aesd_device s3 = aesd_device s"
  obtains s4 where "release_partial s3 = Inr s4" "tick s4 = tick s3" "heap s4 a = Some (Bytes whole)"
    "a \<notin> dev_owned s4" "mem_inv (heap s4) (dev_cb s4) (dev_partial s4)" "dev_partial s4 = null_entry"
    "dev_cmds s4 = dev_cmds s" "unowned s4 = insert a (unowned s)" "a \<notin> unowned s"
    "lock (aesd_device s4) = lock (aesd_device s)"
proof -
  note f = new_block_frame [OF inv a h] and fresh = alloc_fresh [OF inv a]
  show thesis
  proof (rule gather_release [OF f(1)])
    fix s4
    assume r: "release_partial s3 = Inr s4" "mem_inv (heap s4) (dev_cb s4) (dev_partial s4)"
      "dev_partial s4 = null_entry" "dev_cmds s4 = dev_cmds s3" "unowned s4 = unowned s3"
      "dev_owned s4 \<subseteq> dev_owned s3" "lock (aesd_device s4) = lock (aesd_device s3)"
      "tick s4 = tick s3" "\<And>x. x \<notin> dev_owned s3 \<Longrightarrow> heap s4 x = heap s3 x"
    have "a \<notin> dev_owned s3" using f(4) fresh(1) by simp
    then show thesis using r f fresh h by (intro that [of s4]) auto
  qed
qed

text \<open>Both copies into the new block: the partial command and the user's data behind it.\<close>

lemma gather_copies:
  assumes inv: "mem_inv (heap s) (dev_cb s) (dev_partial s)" and a: "heap s a = None"
    and len: "length junk = length (dev_rest s) + n"
  defines "s1 \<equiv> next_tick (set_block a (Some (Bytes junk)) s)"
  obtains bs s2 s3 where "copy_partial (Ptr a 0) s1 = Inr s2" "esize (dev_partial s2) = esize (dev_partial s)"
    "copy_from_user K (Ptr a (length (dev_rest s))) ubuf n s2 =
        Inr (copy_left (k_copy_from K (Suc (tick s))) (length ubuf) n, s3)"
    "heap s3 = (heap s)(a \<mapsto> Bytes bs)" "aesd_device s3 = aesd_device s" "tick s3 = Suc (Suc (tick s))"
    "user_copy_ok K ubuf n s \<Longrightarrow> bs = dev_rest s @ take n ubuf"
proof -
  let ?p = "dev_rest s"
  let ?s2 = "set_block a (Some (Bytes (?p @ drop (length ?p) junk))) s1"
  note f1 = alloc_frame [OF inv a refl, of "Bytes junk"]
  have mc: "copy_partial (Ptr a 0) s1 = Inr ?s2"
    using gather_partial [OF f1(1), of a junk] f1 alloc_fresh(1) [OF inv a] len by (simp add: s1_def)
  obtain bs where cp: "copy_from_user K (Ptr a (length ?p)) ubuf n ?s2 =
      Inr (copy_left (k_copy_from K (Suc (tick s))) (length ubuf) n, set_block a (Some (Bytes bs)) (next_tick ?s2))"
    and bs: "user_copy_ok K ubuf n s \<Longrightarrow> bs = ?p @ take n ubuf"
    using gather_user [of ?s2 a ?p "drop (length ?p) junk" n s K ubuf] len by (auto simp: s1_def)
  show thesis by (rule that [where bs = bs, OF mc _ cp]) (simp_all add: bs s1_def)
qed

lemma write_gather_cases:
  fixes ubuf :: "byte list"
  assumes ok: "kenv_ok K" and inv: "mem_inv (heap s) (dev_cb s) (dev_partial s)"
    and n: "unat count < kmalloc_limit"
  defines "whole \<equiv> dev_rest s @ take (unat count) ubuf"
  obtains
    (nomem) w where "write_gather K ubuf count s = Inr (Some ENOMEM, w, next_tick s)" "buffptr w = NULL"
      "length (dev_rest s) + unat count < kmalloc_limit \<Longrightarrow> \<not> reliable K"
  | (nocopy) a bs w s' where "write_gather K ubuf count s = Inr (Some ENOMEM, w, s')"
      "buffptr w = Ptr a 0" "heap s a = None" "heap s' = (heap s)(a \<mapsto> Bytes bs)"
      "aesd_device s' = aesd_device s" "\<not> user_copy_ok K ubuf (unat count) s"
  | (gathered) a s' where "write_gather K ubuf count s = Inr (None, span a whole 0, s')"
      "heap s' a = Some (Bytes whole)" "length whole < kmalloc_limit" "a \<notin> dev_owned s'"
      "mem_inv (heap s') (dev_cb s') (dev_partial s')" "dev_partial s' = null_entry"
      "dev_cmds s' = dev_cmds s" "unowned s' = insert a (unowned s)" "a \<notin> unowned s"
      "lock (aesd_device s') = lock (aesd_device s)" "tick s' = Suc (Suc (tick s))"
      "user_copy_ok K ubuf (unat count) s"
proof -
  let ?p = "dev_rest s" and ?n = "unat count"
  let ?c = "esize (dev_partial s) + count"
  have c: "unat ?c = length ?p + ?n" using combined_size [OF inv n] by (simp add: dev_rest_def)
  have psz: "unat (esize (dev_partial s)) = length ?p" using partial_size [OF inv] by (simp add: dev_rest_def)
  from ok show ?thesis
  proof (cases rule: kmalloc_cases [of K "unat ?c" s])
    case fail
    have "finite (dom (heap s))" using inv by (simp add: mem_inv_def)
    then show ?thesis
      using kmalloc_reliable [OF fail] fail c
      by (intro nomem [of "\<lparr>buffptr = NULL, esize = ?c\<rparr>"]) (simp_all add: write_gather_def Let_def)
  next
    case (ok a junk)
    have len: "length junk = length ?p + ?n" using ok(2) c by simp
    from inv ok(1) len show ?thesis
    proof (cases rule: gather_copies [where K = K and ubuf = ubuf])
      case g: (1 bs s2 s3)
      have psz2: "unat (esize (dev_partial s2)) = length ?p" using psz g(2) by simp
      note run = ok(4) g(1,3) psz2 write_gather_def Let_def user_copy_ok_def
      show ?thesis
      proof (cases "user_copy_ok K ubuf ?n s")
        case False
        then show ?thesis
          using g(4,5) ok(1) by (intro nocopy [of "\<lparr>buffptr = Ptr a 0, esize = ?c\<rparr>" s3 a bs]) (simp_all add: run)
      next
        case True
        then have h: "heap s3 = (heap s)(a \<mapsto> Bytes whole)" using g(4,7) by (simp add: whole_def)
        have cnt: "length whole = unat ?c" using user_copy_ok_length [OF True] c by (simp add: whole_def)
        then have w: "span a whole 0 = \<lparr>buffptr = Ptr a 0, esize = ?c\<rparr>" and lim: "length whole < kmalloc_limit"
          using ok(3) by (simp_all add: span_def)
        from inv ok(1) h g(5) show ?thesis
        proof (cases rule: gather_commit)
          case r: (1 s4)
          have "write_gather K ubuf count s = Inr (None, span a whole 0, s4)" using True r(1) by (simp add: run w)
          then show ?thesis using r lim g(6) True by (intro gathered [of a s4]) simp_all
        qed
      qed
    qed
  qed
qed

section \<open>The end of a write\<close>

lemma free_frame:
  assumes "mem_inv (heap s) (dev_cb s) (dev_partial s)" "a \<notin> dev_owned s"
  shows "mem_inv ((heap s)(a := None)) (dev_cb s) (dev_partial s)"
    "dev_cmds (set_block a None s) = dev_cmds s" "dev_rest (set_block a None s) = dev_rest s"
    "dev_owned (set_block a None s) = dev_owned s" "unowned (set_block a None s) = unowned s - {a}"
proof -
  have x: "a \<notin> entry_addrs (dev_entries (dev_cb s) (dev_partial s))"
    using assms(2) by (simp add: dev_owned_def)
  then have x2: "a \<notin> entry_addrs (cb_list (dev_cb s))" "a \<notin> ptr_block (buffptr (dev_partial s))"
    by (auto simp: dev_entries_def split: if_splits)
  show "mem_inv ((heap s)(a := None)) (dev_cb s) (dev_partial s)"
    by (rule mem_inv_frame [OF assms(1) x])
  show "dev_cmds (set_block a None s) = dev_cmds s" "dev_rest (set_block a None s) = dev_rest s"
    using entries_frame(2) [OF x2(1)] entry_frame(2) [OF x2(2)] by (simp_all add: dev_view_defs)
  show "dev_owned (set_block a None s) = dev_owned s" "unowned (set_block a None s) = unowned s - {a}"
    using assms(2) by (auto simp: dev_view_defs)
qed

lemma dev_view_unlock [simp]:
  "dev_cmds (mutex_unlock s) = dev_cmds s" "dev_rest (mutex_unlock s) = dev_rest s"
  "dev_owned (mutex_unlock s) = dev_owned s" "unowned (mutex_unlock s) = unowned s"
  by (simp_all add: dev_view_defs)

text \<open>Freeing the gathered data at \<open>out\<close>, with the lock released.\<close>

lemma write_out_free:
  assumes "mem_inv (heap s) (dev_cb s) (dev_partial s)" "a \<notin> dev_owned s" "heap s a \<noteq> None"
    and "\<not> lock (aesd_device s)"
  obtains s' where "write_out (Ptr a 0) rv pos s = Some (Inr (rv, pos, s'))" "dev_inv s'"
    "dev_cmds s' = dev_cmds s" "dev_rest s' = dev_rest s" "unowned s' = unowned s - {a}"
proof -
  note f = free_frame [OF assms(1,2)]
  have "write_out (Ptr a 0) rv pos s = Some (Inr (rv, pos, set_block a None s))"
    using assms(3) by (auto simp: write_out_def mem_simps)
  then show thesis
    using f assms(4) by (intro that [of "set_block a None s"]) (simp_all add: dev_inv_def)
qed

text \<open>The rest of the data becomes the partial command.\<close>

lemma set_partial_frame:
  assumes inv: "wl_inv a whole s" and c: "heap s c = None" and rest: "rest \<noteq> []" "length rest < kmalloc_limit"
  defines "s' \<equiv> set_partial (Ptr c 0) (of_nat (length rest)) (next_tick (set_block c (Some (Bytes rest)) s))"
  shows "mem_inv (heap s') (dev_cb s') (dev_partial s')" "dev_cmds s' = dev_cmds s" "dev_rest s' = rest"
    "a \<notin> dev_owned s'" "heap s' a \<noteq> None" "unowned s' = unowned s"
proof -
  let ?s1 = "next_tick (set_block c (Some (Bytes rest)) s)"
  let ?e = "\<lparr>buffptr = Ptr c 0, esize = of_nat (length rest)\<rparr> :: aesd_buffer_entry"
  note f = alloc_frame [OF wl_inv_mem [OF inv] c refl, of "Bytes rest"]
  have part: "dev_partial s = null_entry" and a: "heap s a = Some (Bytes whole)" "a \<notin> dev_owned s"
    using inv by (auto simp: wl_inv_def)
  have de0: "dev_entries (dev_cb s) (dev_partial s) = cb_list (dev_cb s)"
    using part by (simp add: dev_entries_def null_entry_def)
  have de: "dev_entries (dev_cb s) ?e = cb_list (dev_cb s) @ [?e]" by (simp add: dev_entries_def)
  have cn: "c \<notin> entry_addrs (cb_list (dev_cb s))"
    using alloc_fresh(1) [OF wl_inv_mem [OF inv] c] by (simp add: dev_owned_def de0)
  have live: "live_entry (heap ?s1) ?e" using rest by (auto intro!: live_entryI simp: limit_lt)
  have notin: "Ptr c 0 \<notin> buffptr ` set (cb_list (dev_cb s))" by (rule ptr_notin_addrs [OF refl cn])
  show "mem_inv (heap s') (dev_cb s') (dev_partial s')"
    using f(1) live notin unfolding mem_inv_def s'_def by (simp add: de de0)
  show "dev_cmds s' = dev_cmds s" "dev_rest s' = rest"
    using f(3) by (simp_all add: s'_def dev_cmds_def dev_rest_def entry_bytes_def)
  show "a \<notin> dev_owned s'" "heap s' a \<noteq> None"
    using a c by (auto simp: s'_def dev_owned_def de de0)
  show "unowned s' = unowned s"
    using c cn by (auto simp: s'_def unowned_def dev_owned_def de de0)
qed

text \<open>
  From the end of the loop to the return, on the normal path: either the rest cannot be
  duplicated and is lost, or it becomes the partial command.
\<close>

definition finish_out ::
  "kenv \<Rightarrow> size_t \<Rightarrow> loff_t \<Rightarrow> cptr \<Rightarrow> errno option \<times> aesd_buffer_entry \<times> kernel \<Rightarrow>
   ((errno + size_t) \<times> loff_t \<times> kernel) run" where
  "finish_out K count pos buffer r =
     rbind (Some (write_finish K count pos r)) (\<lambda>(retval, pos', s6). write_out buffer retval pos' s6)"

lemma unlock_out:
  assumes "mem_inv (heap s) (dev_cb s) (dev_partial s)" "a \<notin> dev_owned s" "heap s a \<noteq> None"
  obtains s' where "write_out (Ptr a 0) rv pos (mutex_unlock s) = Some (Inr (rv, pos, s'))" "dev_inv s'"
    "dev_cmds s' = dev_cmds s" "dev_rest s' = dev_rest s" "unowned s' = unowned s - {a}"
proof -
  have u: "mem_inv (heap (mutex_unlock s)) (dev_cb (mutex_unlock s)) (dev_partial (mutex_unlock s))"
    "a \<notin> dev_owned (mutex_unlock s)" "heap (mutex_unlock s) a \<noteq> None"
    "\<not> lock (aesd_device (mutex_unlock s))"
    using assms by simp_all
  show thesis
    by (rule write_out_free [OF u, of rv pos]) (rule that, simp_all)
qed

lemma wl_invD:
  assumes "wl_inv a whole s"
  shows "heap s a = Some (Bytes whole)" "length whole < kmalloc_limit" "a \<notin> dev_owned s"
    "heap s a \<noteq> None" "dev_partial s = null_entry" "dev_rest s = []" "finite (dom (heap s))"
  using assms by (auto simp: wl_inv_def dev_rest_def entry_bytes_def null_entry_def mem_inv_def)

lemma finish_einval:
  assumes inv: "wl_inv a whole s"
  obtains s' where "finish_out K count pos (Ptr a 0) (Some e, w, s) = Some (Inr (Inl e, pos, s'))"
    "dev_inv s'" "dev_cmds s' = dev_cmds s" "dev_rest s' = []" "unowned s' = unowned s - {a}"
proof -
  obtain s' where s': "write_out (Ptr a 0) (Inl e) pos (mutex_unlock s) = Some (Inr (Inl e, pos, s'))"
      "dev_inv s'" "dev_cmds s' = dev_cmds s" "dev_rest s' = dev_rest s" "unowned s' = unowned s - {a}"
    by (rule unlock_out [OF wl_inv_mem [OF inv] wl_invD(3,4) [OF inv]])
  show thesis
    using s' wl_invD(6) [OF inv] by (intro that [of s']) (simp_all add: finish_out_def write_finish_def)
qed

text \<open>
  The end of the locked part: nothing is left of the data, or the rest becomes the partial command,
  for which the allocation may fail.
\<close>

lemma span_left:
  assumes "length (drop off whole) < kmalloc_limit" "drop off whole \<noteq> []"
  shows "unat (esize (span a whole off)) = length (drop off whole)" "0 < esize (span a whole off)"
proof -
  show sz: "unat (esize (span a whole off)) = length (drop off whole)" using limit_lt [OF assms(1)] by (simp add: span_def)
  show "0 < esize (span a whole off)" using sz assms(2) by (simp add: word_less_nat_alt)
qed

lemma finish_empty:
  assumes inv: "wl_inv a whole s" and off: "drop off whole = []"
  obtains s' where "finish_out K count pos (Ptr a 0) (None, span a whole off, s) = Some (Inr (Inr count, pos + count, s'))"
    "dev_inv s'" "dev_cmds s' = dev_cmds s" "dev_rest s' = []" "unowned s' = unowned s - {a}"
proof -
  note d = wl_invD [OF inv]
  have "esize (span a whole off) = 0" using off by (simp add: span_def)
  then have f: "finish_out K count pos (Ptr a 0) (None, span a whole off, s) =
      write_out (Ptr a 0) (Inr count) (pos + count) (mutex_unlock s)"
    by (simp add: finish_out_def write_finish_def)
  show thesis
    using that d(6) unfolding f by (metis unlock_out [OF wl_inv_mem [OF inv] d(3,4), of "Inr count" "pos + count"])
qed

lemma finish_nomem:
  assumes inv: "wl_inv a whole s" and rest: "drop off whole \<noteq> []"
    and fail: "kmemdup K (Ptr a off) (length (drop off whole)) s = Inr (NULL, next_tick s)"
  obtains s' where "finish_out K count pos (Ptr a 0) (None, span a whole off, s) = Some (Inr (Inl ENOMEM, pos, s'))"
    "dev_inv s'" "dev_cmds s' = dev_cmds s" "dev_rest s' = []" "unowned s' = unowned s - {a}" "\<not> reliable K"
proof -
  note d = wl_invD [OF inv]
  let ?t = "set_partial NULL (esize (dev_partial (next_tick s))) (next_tick s)"
  have lim: "length (drop off whole) < kmalloc_limit" using d(2) by simp
  have p: "dev_partial ?t = dev_partial s" using d(5) by (simp add: null_entry_def)
  have t: "mem_inv (heap ?t) (dev_cb ?t) (dev_partial ?t)" "a \<notin> dev_owned ?t" "heap ?t a \<noteq> None"
    "dev_cmds ?t = dev_cmds s" "dev_rest ?t = []" "unowned ?t = unowned s"
    using wl_inv_mem [OF inv] d(3,4,6) unfolding dev_view_defs p by simp_all
  have f: "finish_out K count pos (Ptr a 0) (None, span a whole off, s) =
      write_out (Ptr a 0) (Inl ENOMEM) pos (mutex_unlock ?t)"
    using fail span_left [OF lim rest, of a] by (simp add: finish_out_def write_finish_def)
  show thesis
    using that kmemdup_reliable [OF fail d(7) lim] t(4-6) unfolding f
    by (metis unlock_out [OF t(1-3), of "Inl ENOMEM" pos])
qed

lemma finish_keep:
  assumes inv: "wl_inv a whole s" and rest: "drop off whole \<noteq> []" and c: "heap s c = None"
    and dup: "kmemdup K (Ptr a off) (length (drop off whole)) s =
        Inr (Ptr c 0, next_tick (set_block c (Some (Bytes (drop off whole))) s))"
  obtains s' where "finish_out K count pos (Ptr a 0) (None, span a whole off, s) = Some (Inr (Inr count, pos + count, s'))"
    "dev_inv s'" "dev_cmds s' = dev_cmds s" "dev_rest s' = drop off whole" "unowned s' = unowned s - {a}"
proof -
  let ?rest = "drop off whole"
  have lim: "length ?rest < kmalloc_limit" using wl_invD(2) [OF inv] by simp
  have esz: "esize (span a whole off) = of_nat (length ?rest)" by (simp add: span_def)
  note t = set_partial_frame [OF inv c rest lim]
  have f: "finish_out K count pos (Ptr a 0) (None, span a whole off, s) =
      write_out (Ptr a 0) (Inr count) (pos + count) (mutex_unlock (set_partial (Ptr c 0)
        (of_nat (length ?rest)) (next_tick (set_block c (Some (Bytes ?rest)) s))))"
    using dup span_left [OF lim rest, of a] by (simp add: finish_out_def write_finish_def esz)
  show thesis
    using that t(2,3,6) unfolding f by (metis unlock_out [OF t(1,4,5), of "Inr count" "pos + count"])
qed

lemma finish_normal:
  assumes ok: "kenv_ok K" and inv: "wl_inv a whole s" and off: "off \<le> length whole"
  obtains
    (nomem) s' where "finish_out K count pos (Ptr a 0) (None, span a whole off, s) = Some (Inr (Inl ENOMEM, pos, s'))"
      "dev_inv s'" "dev_cmds s' = dev_cmds s" "dev_rest s' = []" "unowned s' = unowned s - {a}"
      "\<not> reliable K"
  | (stored) s' where "finish_out K count pos (Ptr a 0) (None, span a whole off, s) =
        Some (Inr (Inr count, pos + count, s'))"
      "dev_inv s'" "dev_cmds s' = dev_cmds s" "dev_rest s' = drop off whole" "unowned s' = unowned s - {a}"
proof (cases "drop off whole = []")
  case True
  then show ?thesis using finish_empty [OF inv True] stored by metis
next
  case False
  have le: "off + length (drop off whole) \<le> length whole" using off by simp
  show ?thesis
  proof (rule kmemdup_block [OF ok wl_invD(1) [OF inv] le])
    assume "kmemdup K (Ptr a off) (length (drop off whole)) s = Inr (NULL, next_tick s)"
    then show ?thesis using finish_nomem [OF inv False] nomem by metis
  next
    fix c
    assume "heap s c = None" "kmemdup K (Ptr a off) (length (drop off whole)) s =
      Inr (Ptr c 0, next_tick (set_block c (Some (Bytes (take (length (drop off whole)) (drop off whole)))) s))"
    then show ?thesis using finish_keep [OF inv False, of c] stored by (metis take_all order.refl)
  qed
qed

section \<open>All outcomes of a write\<close>

lemma aesd_write_unfold:
  "private_data filp \<noteq> NoDev \<Longrightarrow> aesd_write K filp ubuf count pos s =
     rbind (Some (write_gather K ubuf count s)) (\<lambda>(err, working, s4).
        case err of
          Some e \<Rightarrow> write_out (buffptr working) (Inl e) pos s4
        | None \<Rightarrow>
            rbind (Some (mutex_lock_interruptible K s4)) (\<lambda>(interrupted, s5).
            if interrupted then write_out (buffptr working) (Inl ERESTARTSYS) pos s5
            else rbind (Some (memchr (buffptr working) newline (unat (esize working)) s5)) (\<lambda>nl.
            rbind (run_loop (write_body K) (working, nl, s5)) (\<lambda>r.
            finish_out K count pos (buffptr working) r))))"
  unfolding aesd_write_def finish_out_def [abs_def] Let_def by simp

text \<open>From the gathered data on, with the lock taken.\<close>

lemma write_commit_cases:
  fixes count :: size_t and pos :: loff_t
  assumes ok: "kenv_ok K" and inv: "wl_inv a whole s"
  defines "run \<equiv> rbind (Some (memchr (Ptr a 0) newline (unat (esize (span a whole 0))) s)) (\<lambda>nl.
            rbind (run_loop (write_body K) (span a whole 0, nl, s)) (\<lambda>r.
            finish_out K count pos (Ptr a 0) r))"
    and "cmds \<equiv> fst (split_cmds whole)" and "rest \<equiv> snd (split_cmds whole)"
  obtains
    (null) "run = Some (Inl Null_Deref)" "\<not> reliable K"
  | (einval) k L s' where "run = Some (Inr (Inl EINVAL, pos, s'))" "dev_inv s'" "k \<le> length cmds"
      "dev_cmds s' = lastn 10 (dev_cmds s @ take k cmds)" "dev_rest s' = []"
      "unowned s' = unowned s \<union> L - {a}" "unowned s \<inter> L = {}" "finite L" "card L = Suc k" "\<not> reliable K"
  | (nopartial) L s' where "run = Some (Inr (Inl ENOMEM, pos, s'))" "dev_inv s'"
      "dev_cmds s' = lastn 10 (dev_cmds s @ cmds)" "dev_rest s' = []"
      "unowned s' = unowned s \<union> L - {a}" "unowned s \<inter> L = {}" "finite L" "card L = length cmds"
      "\<not> reliable K"
  | (stored) L s' where "run = Some (Inr (Inr count, pos + count, s'))" "dev_inv s'"
      "dev_cmds s' = lastn 10 (dev_cmds s @ cmds)" "dev_rest s' = rest"
      "unowned s' = unowned s \<union> L - {a}" "unowned s \<inter> L = {}" "finite L" "card L = length cmds"
proof -
  note d = wl_invD [OF inv]
  obtain r where r: "run_loop (write_body K) (span a whole 0, span_nl a whole 0, s) = Some r"
    "loop_post K a whole 0 s r"
    using write_loop_outcome [OF ok inv] by blast
  have run: "run = rbind (Some r) (finish_out K count pos (Ptr a 0))"
    using r(1) memchr_span [OF d(1,2), of 0] by (simp add: run_def)
  show ?thesis
  proof (cases "r = Inl Null_Deref \<and> \<not> reliable K")
    case True
    then show ?thesis by (intro null) (simp_all add: run)
  next
    case False
    then obtain k L off s1 where p: "k \<le> length cmds" "off \<le> length whole" "wl_inv a whole s1"
        "dev_cmds s1 = lastn 10 (dev_cmds s @ take k cmds)"
        "unowned s1 = unowned s \<union> L" "unowned s \<inter> L = {}" "finite L"
      and "r = Inr (Some EINVAL, span a whole off, s1) \<and> card L = Suc k \<and> \<not> reliable K \<or>
         r = Inr (None, span a whole off, s1) \<and> card L = k \<and> k = length cmds \<and> drop off whole = rest"
      using r(2) unfolding loop_post_def Let_def cmds_def rest_def by auto
    then consider (e) "r = Inr (Some EINVAL, span a whole off, s1)" "card L = Suc k" "\<not> reliable K"
      | (n) "r = Inr (None, span a whole off, s1)" "card L = k" "k = length cmds" "drop off whole = rest"
      by blast
    then show ?thesis
    proof cases
      case e
      obtain s' where s': "finish_out K count pos (Ptr a 0) (Some EINVAL, span a whole off, s1) =
          Some (Inr (Inl EINVAL, pos, s'))" "dev_inv s'" "dev_cmds s' = dev_cmds s1" "dev_rest s' = []"
          "unowned s' = unowned s1 - {a}"
        by (rule finish_einval [OF p(3)])
      show ?thesis using p s' e by (intro einval [of s' k L]) (simp_all add: run)
    next
      case n
      from ok p(3,2) show ?thesis
      proof (cases rule: finish_normal [of K a whole s1 off count pos])
        case (nomem s')
        then show ?thesis using p n by (intro nopartial [of s' L]) (simp_all add: run)
      next
        case s': (stored s')
        then show ?thesis using p n by (intro stored [of s' L]) (simp_all add: run)
      qed
    qed
  qed
qed

text \<open>A block that was allocated for the data of a write is freed at the end, and the device is as before.\<close>

lemma write_out_new:
  assumes mem: "mem_inv (heap s) (dev_cb s) (dev_partial s)" and a: "heap s a = None"
    and s1: "heap s1 = (heap s)(a \<mapsto> Bytes bs)" "aesd_device s1 = aesd_device s" and lock: "\<not> lock (aesd_device s)"
  obtains s' where "write_out (Ptr a 0) rv pos s1 = Some (Inr (rv, pos, s'))" "dev_inv s'"
    "dev_cmds s' = dev_cmds s" "dev_rest s' = dev_rest s" "unowned s' = unowned s"
proof -
  note f = new_block_frame [OF mem a s1]
  have o: "a \<notin> dev_owned s1" "heap s1 a \<noteq> None" "\<not> lock (aesd_device s1)"
    using f(4) alloc_fresh(1) [OF mem a] s1 lock by simp_all
  obtain s' where s': "write_out (Ptr a 0) rv pos s1 = Some (Inr (rv, pos, s'))"
      "dev_inv s'" "dev_cmds s' = dev_cmds s1" "dev_rest s' = dev_rest s1" "unowned s' = unowned s1 - {a}"
    by (rule write_out_free [OF f(1) o])
  show thesis using s' f alloc_fresh(2) [OF mem a] by (intro that [of s']) auto
qed

text \<open>
  A write with the device idle ends in one of six ways. Only the last one returns the count.
  \<open>L\<close> are the blocks that become unreachable: the structs allocated for the entries.
\<close>

lemma aesd_write_cases:
  fixes ubuf :: "byte list" and pos :: loff_t
  assumes ok: "kenv_ok K" and inv: "dev_inv s" and dev: "private_data filp \<noteq> NoDev"
    and n: "unat count < kmalloc_limit"
  defines "run \<equiv> aesd_write K filp ubuf count pos s"
    and "cmds \<equiv> fst (split_cmds (dev_rest s @ take (unat count) ubuf))"
    and "rest \<equiv> snd (split_cmds (dev_rest s @ take (unat count) ubuf))"
  obtains
    (nomem) s' where "run = Some (Inr (Inl ENOMEM, pos, s'))" "dev_inv s'"
      "dev_cmds s' = dev_cmds s" "dev_rest s' = dev_rest s" "unowned s' = unowned s"
      "length (dev_rest s) + unat count < kmalloc_limit \<Longrightarrow>
        \<not> reliable K \<or> \<not> user_copy_ok K ubuf (unat count) s"
  | (interrupted) s' where "run = Some (Inr (Inl ERESTARTSYS, pos, s'))" "dev_inv s'"
      "dev_cmds s' = dev_cmds s" "dev_rest s' = []" "unowned s' = unowned s"
      "k_intr K (Suc (Suc (tick s)))" "user_copy_ok K ubuf (unat count) s"
  | (null) "run = Some (Inl Null_Deref)" "\<not> reliable K"
  | (einval) k L s' where "run = Some (Inr (Inl EINVAL, pos, s'))" "dev_inv s'" "k \<le> length cmds"
      "dev_cmds s' = lastn 10 (dev_cmds s @ take k cmds)" "dev_rest s' = []"
      "unowned s' = unowned s \<union> L" "unowned s \<inter> L = {}" "finite L" "card L = Suc k" "\<not> reliable K"
      "user_copy_ok K ubuf (unat count) s"
  | (nopartial) L s' where "run = Some (Inr (Inl ENOMEM, pos, s'))" "dev_inv s'"
      "dev_cmds s' = lastn 10 (dev_cmds s @ cmds)" "dev_rest s' = []"
      "unowned s' = unowned s \<union> L" "unowned s \<inter> L = {}" "finite L" "card L = length cmds"
      "\<not> reliable K" "user_copy_ok K ubuf (unat count) s"
  | (stored) L s' where "run = Some (Inr (Inr count, pos + count, s'))" "dev_inv s'"
      "dev_cmds s' = lastn 10 (dev_cmds s @ cmds)" "dev_rest s' = rest"
      "unowned s' = unowned s \<union> L" "unowned s \<inter> L = {}" "finite L" "card L = length cmds"
      "user_copy_ok K ubuf (unat count) s" "\<not> k_intr K (Suc (Suc (tick s)))"
proof -
  let ?whole = "dev_rest s @ take (unat count) ubuf"
  note mem = dev_inv_mem [OF inv] and unf = aesd_write_unfold [OF dev]
  have lock: "\<not> lock (aesd_device s)" using inv by (simp add: dev_inv_def)
  from ok mem n show ?thesis
  proof (cases rule: write_gather_cases [of K s count ubuf])
    case g: (nomem w)
    then show ?thesis
      using inv by (intro nomem [of "next_tick s"])
        (auto simp: run_def unf write_out_def dev_inv_def)
  next
    case g: (nocopy a bs w s1)
    obtain s' where "write_out (Ptr a 0) (Inl ENOMEM) pos s1 = Some (Inr (Inl ENOMEM, pos, s'))" "dev_inv s'"
        "dev_cmds s' = dev_cmds s" "dev_rest s' = dev_rest s" "unowned s' = unowned s"
      by (rule write_out_new [OF mem g(3-5) lock])
    then show ?thesis using g(1,2,6) by (intro nomem [of s']) (auto simp: run_def unf)
  next
    case g: (gathered a s1)
    have lock1: "\<not> lock (aesd_device s1)" using g(10) lock by simp
    from lock1 show ?thesis
    proof (cases rule: mutex_lock_cases [of s1 K])
      case intr: interrupted
      let ?t = "next_tick s1"
      have o: "mem_inv (heap ?t) (dev_cb ?t) (dev_partial ?t)" "a \<notin> dev_owned ?t" "heap ?t a \<noteq> None" "\<not> lock (aesd_device ?t)"
        using g lock1 by simp_all
      obtain s' where s': "write_out (Ptr a 0) (Inl ERESTARTSYS) pos ?t = Some (Inr (Inl ERESTARTSYS, pos, s'))" "dev_inv s'"
          "dev_cmds s' = dev_cmds ?t" "dev_rest s' = dev_rest ?t" "unowned s' = unowned ?t - {a}"
        by (rule write_out_free [OF o])
      have "dev_rest s1 = []" using g(6) by (simp add: dev_rest_def entry_bytes_def null_entry_def)
      then show ?thesis
        using s' g intr by (intro interrupted [of s']) (auto simp: run_def unf)
    next
      case (locked s2)
      have inv2: "wl_inv a ?whole s2" and v: "dev_cmds s2 = dev_cmds s" "unowned s2 = insert a (unowned s)"
        using locked g by (simp_all add: wl_inv_def dev_view_defs)
      have un: "unowned s2 \<union> L - {a} = unowned s \<union> L" "unowned s \<inter> L = {}" if "unowned s2 \<inter> L = {}" for L
        using that v(2) g(9) by auto
      have run: "run = rbind (Some (memchr (Ptr a 0) newline (unat (esize (span a ?whole 0))) s2)) (\<lambda>nl.
            rbind (run_loop (write_body K) (span a ?whole 0, nl, s2)) (\<lambda>r.
            finish_out K count pos (Ptr a 0) r))"
        using g(1) locked(1) by (simp add: run_def unf)
      from ok inv2 show ?thesis
      proof (cases rule: write_commit_cases [of K a ?whole s2 count pos])
        case c: null
        then show ?thesis by (intro null) (simp_all add: run)
      next
        case c: (einval k L s')
        then show ?thesis
          using un [OF c(7)] v(1) g(12) by (intro einval [of s' k L]) (simp_all add: run cmds_def)
      next
        case c: (nopartial L s')
        then show ?thesis
          using un [OF c(6)] v(1) g(12) by (intro nopartial [of s' L]) (simp_all add: run cmds_def)
      next
        case c: (stored L s')
        then show ?thesis
          using un [OF c(6)] v(1) g locked(6) by (intro stored [of s' L]) (simp_all add: run cmds_def rest_def)
      qed
    qed
  qed
qed

end
