(* ===== verification/Driver_Spec.thy ===== *)
theory Driver_Spec
  imports Driver_Write
begin

text \<open>
  The abstract device and the refinement of the other file operations to it: reading, the two ways
  to seek, loading and unloading the module. Each \<open>_cases\<close> lemma describes all ways the operation can
  end, whatever the external calls do.
\<close>

section \<open>Abstract device\<close>

text \<open>
  What the device promises: it holds the last ten complete commands and the bytes of a command
  that has not been completed yet. Writing appends, cuts at newlines and drops old commands;
  reading sees the commands one after the other.
\<close>

record dev_abs =
  a_cmds :: "byte list list"
  a_rest :: "byte list"

definition abs_dev :: "kernel \<Rightarrow> dev_abs" where
  "abs_dev s = \<lparr>a_cmds = dev_cmds s, a_rest = dev_rest s\<rparr>"

definition spec_write :: "dev_abs \<Rightarrow> byte list \<Rightarrow> dev_abs" where
  "spec_write d bs =
     (let (cs, r) = split_cmds (a_rest d @ bs)
      in \<lparr>a_cmds = lastn 10 (a_cmds d @ cs), a_rest = r\<rparr>)"

definition spec_data :: "dev_abs \<Rightarrow> byte list" where
  "spec_data d = concat (a_cmds d)"

text \<open>One read stops at the end of the command that holds the position.\<close>

definition spec_read :: "dev_abs \<Rightarrow> nat \<Rightarrow> nat \<Rightarrow> byte list" where
  "spec_read d p n =
     (case locate (map length (a_cmds d)) p of
        None \<Rightarrow> []
      | Some (i, q) \<Rightarrow> take n (drop q (a_cmds d ! i)))"

lemma spec_read_prefix: "\<exists>r. drop p (spec_data d) = spec_read d p n @ r"
proof (cases "locate (map length (a_cmds d)) p")
  case None
  then show ?thesis by (simp add: spec_read_def)
next
  case (Some iq)
  then obtain i q where iq: "locate (map length (a_cmds d)) p = Some (i, q)" by (cases iq) auto
  have "drop p (spec_data d) = take n (drop q (a_cmds d ! i)) @ drop n (drop q (a_cmds d ! i)) @
      concat (drop (Suc i) (a_cmds d))"
    using drop_concat_locate [OF iq] by (simp add: spec_data_def del: drop_drop)
  then show ?thesis by (auto simp: spec_read_def iq)
qed

lemma spec_read_empty: "spec_read d p n = [] \<longleftrightarrow> n = 0 \<or> length (spec_data d) \<le> p"
proof -
  have len: "length (spec_data d) = sum_list (map length (a_cmds d))"
    by (simp add: spec_data_def length_concat)
  show ?thesis
  proof (cases "locate (map length (a_cmds d)) p")
    case None
    then show ?thesis using locate_None [of "map length (a_cmds d)" p] by (simp add: spec_read_def len)
  next
    case (Some iq)
    then obtain i q where iq: "locate (map length (a_cmds d)) p = Some (i, q)" by (cases iq) auto
    then show ?thesis
      using locate_Some [OF iq] locate_None [of "map length (a_cmds d)" p] by (auto simp: spec_read_def len)
  qed
qed

section \<open>Reading\<close>

lemma mem_inv_live: "mem_inv h b part \<Longrightarrow> list_all (live_entry h) (cb_list b)"
  unfolding mem_inv_def dev_entries_def list_all_append by blast

lemma cb_sizes_cmds:
  assumes "mem_inv (heap s) (dev_cb s) (dev_partial s)"
  shows "cb_sizes (dev_cb s) = map length (dev_cmds s)"
proof -
  show ?thesis
    unfolding cb_sizes_def dev_cmds_def map_map
    using mem_inv_live [OF assms] by (intro map_cong refl) (auto simp: list_all_iff elim: live_entryE)
qed

lemma length_dev_cmds [simp]: "length (dev_cmds s) = cb_count (dev_cb s)"
  by (simp add: dev_cmds_def)

text \<open>The entry that holds command \<open>i\<close>.\<close>

lemma cmd_entry:
  assumes inv: "mem_inv (heap s) (dev_cb s) (dev_partial s)" and i: "i < cb_count (dev_cb s)"
  defines "e \<equiv> entry (dev_cb s) ! cb_index (dev_cb s) i"
  obtains a where "entry_at (dev_cb s) (of_nat (cb_index (dev_cb s) i)) = Inr e" "buffptr e = Ptr a 0"
    "heap s a = Some (Bytes (dev_cmds s ! i))" "unat (esize e) = length (dev_cmds s ! i)"
    "length (dev_cmds s ! i) < kmalloc_limit"
proof -
  have "e \<in> set (cb_list (dev_cb s))" using i nth_mem [of i "cb_list (dev_cb s)"] by (simp add: e_def)
  then have live: "live_entry (heap s) e" using mem_inv_live [OF inv] by (simp add: list_all_iff)
  have b: "entry_bytes (heap s) e = dev_cmds s ! i" using i by (simp add: dev_cmds_def e_def)
  have "unat (of_nat (cb_index (dev_cb s) i) :: u8) = cb_index (dev_cb s) i"
    by (rule unat_of_nat_lt) (rule less_trans [OF cb_index_lt], simp)
  then have at: "entry_at (dev_cb s) (of_nat (cb_index (dev_cb s) i)) = Inr e"
    using inv by (simp add: entry_at_ok e_def)
  from live show thesis by (rule live_entryE) (rule that [OF at], simp_all add: b)
qed

lemma dev_inv_locked_unlock:
  "mem_inv (heap s) (dev_cb s) (dev_partial s) \<Longrightarrow> dev_inv (mutex_unlock s)"
  by (simp add: dev_inv_def)

text \<open>The number of bytes a read copies.\<close>

lemma read_amount:
  assumes "unat (esize e) = length c" "length c < kmalloc_limit" "q < length c"
  shows "unat (min (esize e - of_nat q) count) = length (take (unat count) (drop q c))"
proof -
  have q: "unat (of_nat q :: size_t) = q" using assms by (intro limit_lt) simp
  then have "unat (esize e - of_nat q) = length c - q"
    using assms by (simp add: unat_sub word_le_nat_alt)
  then show ?thesis by (auto simp: min_def word_le_nat_alt)
qed

lemma abs_dev_eq: "dev_cmds s' = dev_cmds s \<Longrightarrow> dev_rest s' = dev_rest s \<Longrightarrow> abs_dev s' = abs_dev s"
  by (simp add: abs_dev_def)

lemma abs_dev_simps [simp]: "abs_dev (mutex_unlock s) = abs_dev s" "abs_dev (next_tick s) = abs_dev s"
  by (simp_all add: abs_dev_def)

lemma dev_view_heap_dev:
  assumes "heap s' = heap s" "dev_cb s' = dev_cb s" "dev_partial s' = dev_partial s"
  shows "dev_cmds s' = dev_cmds s" "dev_rest s' = dev_rest s" "abs_dev s' = abs_dev s"
    "unowned s' = unowned s" "mem_inv (heap s') (dev_cb s') (dev_partial s') =
       mem_inv (heap s) (dev_cb s) (dev_partial s)"
  using assms by (simp_all add: abs_dev_def dev_view_defs)

text \<open>The copy of a read, once the entry is found.\<close>

lemma read_copy_cases:
  fixes count :: size_t
  assumes e: "buffptr e = Ptr a 0" "heap s a = Some (Bytes c)" "unat (esize e) = length c"
    "length c < kmalloc_limit" and q: "q < length c"
  defines "bs \<equiv> take (unat count) (drop q c)"
  obtains (fault) bs' where "read_copy K uspace count pos (of_nat q) e s =
      Inr (Inl EFAULT, bs', pos, next_tick s)"
      "copy_left (k_copy_to K (tick s)) uspace (length bs) \<noteq> 0"
  | (data) s' where "read_copy K uspace count pos (of_nat q) e s =
      Inr (Inr (of_nat (length bs)), bs, pos + of_nat (length bs), s')"
      "s' = s \<or> s' = next_tick s" "bs = [] \<or> copy_left (k_copy_to K (tick s)) uspace (length bs) = 0"
proof -
  let ?n = "min (esize e - of_nat q) count"
  have n: "unat ?n = length bs" using read_amount [OF e(3,4) q] by (simp add: bs_def)
  have "?n = of_nat (unat ?n)" by simp
  then have n': "?n = of_nat (length bs)" unfolding n .
  have uq: "unat (of_nat q :: size_t) = q" using q e(4) by (intro limit_lt) simp
  have load: "load_bytes (Ptr a q) k s = Inr (take k (drop q c))" if "k \<le> length bs" for k
    using that e(2) q by (intro load_bytes_block) (auto simp: bs_def)
  show thesis
  proof (cases "?n = 0")
    case True
    then have "bs = []" using n by simp
    with True show thesis by (intro data [of s]) (simp_all add: read_copy_def Let_def)
  next
    case False
    let ?l = "copy_left (k_copy_to K (tick s)) uspace (length bs)"
    have cp: "copy_to_user K (Ptr a q) uspace (length bs) s =
        Inr (?l, take (length bs - ?l) (drop q c), next_tick s)"
      using load [of "length bs - ?l"] by (simp add: copy_to_user_def Let_def)
    have tk: "take (length bs) (drop q c) = bs" by (cases "length c - q \<le> unat count") (simp_all add: bs_def)
    show thesis
    proof (cases "?l = 0")
      case True
      then show thesis
        using False cp tk n n' uq e(1)
        by (intro data [of "next_tick s"]) (simp_all add: read_copy_def Let_def)
    next
      case l: False
      then show thesis
        using False cp n uq e(1) by (intro fault) (simp_all add: read_copy_def Let_def)
    qed
  qed
qed

lemma read_locked_cases:
  fixes count :: size_t and pos :: loff_t
  assumes mem: "mem_inv (heap s) (dev_cb s) (dev_partial s)"
  defines "bs \<equiv> spec_read (abs_dev s) (unat pos) (unat count)"
  obtains (fault) bs' where "read_locked K uspace count pos s = Some (Inr (Inl EFAULT, bs', pos, next_tick s))"
      "copy_left (k_copy_to K (tick s)) uspace (length bs) \<noteq> 0"
  | (data) s' where "read_locked K uspace count pos s =
        Some (Inr (Inr (of_nat (length bs)), bs, pos + of_nat (length bs), s'))" "s' = s \<or> s' = next_tick s"
proof -
  have find: "aesd_circular_buffer_find_entry_offset_for_fpos (dev_cb s) pos =
      Some (Inr (map_option (\<lambda>(i, q). (of_nat (cb_index (dev_cb s) i), of_nat q))
        (locate (map length (dev_cmds s)) (unat pos))))"
    using find_entry_locate [of "dev_cb s" pos] mem cb_sizes_cmds [OF mem] by simp
  show thesis
  proof (cases "locate (map length (dev_cmds s)) (unat pos)")
    case None
    then have "bs = []" by (simp add: bs_def spec_read_def abs_dev_def)
    then show thesis using None find by (intro data [of s]) (simp_all add: read_locked_def)
  next
    case (Some iq)
    then obtain i q where iq: "locate (map length (dev_cmds s)) (unat pos) = Some (i, q)" by (cases iq) auto
    have i: "i < cb_count (dev_cb s)" and q: "q < length (dev_cmds s ! i)"
      using locate_Some [OF iq] by (auto simp: nth_map)
    have bs: "bs = take (unat count) (drop q (dev_cmds s ! i))"
      by (simp add: bs_def spec_read_def abs_dev_def iq)
    let ?e = "entry (dev_cb s) ! cb_index (dev_cb s) i"
    obtain a where a: "entry_at (dev_cb s) (of_nat (cb_index (dev_cb s) i)) = Inr ?e" "buffptr ?e = Ptr a 0"
        "heap s a = Some (Bytes (dev_cmds s ! i))" "unat (esize ?e) = length (dev_cmds s ! i)"
        "length (dev_cmds s ! i) < kmalloc_limit"
      using cmd_entry [OF mem i] by metis
    have run: "read_locked K uspace count pos s = Some (read_copy K uspace count pos (of_nat q) ?e s)"
      using find iq a(1) by (simp add: read_locked_def)
    from a(2-5) q show thesis
    proof (cases rule: read_copy_cases [where count = count and K = K and uspace = uspace and pos = pos])
      case f: (fault bs')
      then show thesis by (intro fault [of bs']) (simp_all add: run bs)
    next
      case d: (data t)
      then show thesis by (intro data [of t]) (simp_all add: run bs)
    qed
  qed
qed

text \<open>Taking the lock and giving it back leaves the device as it was.\<close>

lemma lock_then_unlock:
  assumes inv: "dev_inv s" and intr: "\<not> k_intr K (tick s)"
  obtains s1 where "mutex_lock_interruptible K s = Inr (False, s1)" "heap s1 = heap s" "dev_cb s1 = dev_cb s"
    "dev_partial s1 = dev_partial s" "tick s1 = Suc (tick s)"
    "\<And>t. t = s1 \<or> t = next_tick s1 \<Longrightarrow> dev_inv (mutex_unlock t) \<and> abs_dev (mutex_unlock t) = abs_dev s \<and> unowned (mutex_unlock t) = unowned s"
proof -
  define s1 where "s1 = upd_dev (lock_update (\<lambda>_. True)) (next_tick s)"
  have lk: "mutex_lock_interruptible K s = Inr (False, s1)"
    using intr inv by (simp add: mutex_lock_interruptible_def s1_def dev_inv_def)
  have v: "heap s1 = heap s" "dev_cb s1 = dev_cb s" "dev_partial s1 = dev_partial s" "tick s1 = Suc (tick s)"
    by (simp_all add: s1_def)
  note mem = dev_inv_mem [OF inv] and w = dev_view_heap_dev [OF v(1-3)]
  have "dev_inv (mutex_unlock t)" "abs_dev (mutex_unlock t) = abs_dev s" "unowned (mutex_unlock t) = unowned s"
    if "t = s1 \<or> t = next_tick s1" for t
    using that w(3-5) mem dev_inv_locked_unlock [of s1] dev_inv_locked_unlock [of "next_tick s1"]
    by (elim disjE; simp only: abs_dev_simps dev_view_unlock dev_view_tick next_tick_simps kernel_simps; blast)+
  then show thesis using that [OF lk v] by blast
qed

lemma aesd_read_cases:
  fixes count :: size_t and pos :: loff_t
  assumes inv: "dev_inv s" and dev: "private_data filp \<noteq> NoDev"
  defines "bs \<equiv> spec_read (abs_dev s) (unat pos) (unat count)"
  obtains
    (interrupted) "aesd_read K filp uspace count pos s = Some (Inr (Inl ERESTARTSYS, [], pos, next_tick s))"
      "k_intr K (tick s)"
  | (fault) bs' s' where "aesd_read K filp uspace count pos s = Some (Inr (Inl EFAULT, bs', pos, s'))"
      "dev_inv s'" "abs_dev s' = abs_dev s" "unowned s' = unowned s"
      "copy_left (k_copy_to K (Suc (tick s))) uspace (length bs) \<noteq> 0"
  | (data) s' where "aesd_read K filp uspace count pos s =
        Some (Inr (Inr (of_nat (length bs)), bs, pos + of_nat (length bs), s'))"
      "dev_inv s'" "abs_dev s' = abs_dev s" "unowned s' = unowned s"
proof (cases "k_intr K (tick s)")
  case True
  then show ?thesis
    using dev by (intro interrupted) (simp_all add: aesd_read_def mutex_lock_interruptible_def)
next
  case False
  then obtain s1 where lk: "mutex_lock_interruptible K s = Inr (False, s1)"
    and v: "heap s1 = heap s" "dev_cb s1 = dev_cb s" "dev_partial s1 = dev_partial s" "tick s1 = Suc (tick s)"
    and un: "\<And>t. t = s1 \<or> t = next_tick s1 \<Longrightarrow>
      dev_inv (mutex_unlock t) \<and> abs_dev (mutex_unlock t) = abs_dev s \<and> unowned (mutex_unlock t) = unowned s"
    using lock_then_unlock [OF inv] by metis
  note w = dev_view_heap_dev [OF v(1-3)]
  have "mem_inv (heap s1) (dev_cb s1) (dev_partial s1)" using w(5) dev_inv_mem [OF inv] by simp
  then show ?thesis
  proof (cases rule: read_locked_cases [where K = K and uspace = uspace and count = count and pos = pos])
    case f: (fault bs')
    then show ?thesis
      using un [of "next_tick s1"] v(4) w(3) dev lk
      by (intro fault [of bs' "mutex_unlock (next_tick s1)"]) (simp_all add: aesd_read_def bs_def)
  next
    case d: (data t)
    then show ?thesis
      using un [OF d(2)] w(3) dev lk by (intro data [of "mutex_unlock t"]) (simp_all add: aesd_read_def bs_def)
  qed
qed

end
