(* ===== verification/Driver_Control.thy ===== *)
theory Driver_Control
  imports Driver_Spec
begin

text \<open>
  The operations of the driver that do not move data: the two ways to seek, the ioctl dispatcher,
  loading and unloading the module. The lemmas \<open>aesd_llseek_cases\<close> and \<open>aesd_adjust_cases\<close> list
  every way a seek can end; \<open>cleanup_slots\<close> is the loop of the module's exit.
\<close>


section \<open>Seeking\<close>

lemma foldl_sizes:
  "foldl (\<lambda>acc i. acc + f i) (of_nat k :: size_t) xs = of_nat (k + sum_list (map (\<lambda>i. unat (f i)) xs))"
proof (induction xs arbitrary: k)
  case (Cons x xs)
  have "of_nat k + f x = (of_nat (k + unat (f x)) :: size_t)" by simp
  then show ?case using Cons.IH [of "k + unat (f x)"] by (simp add: add.assoc)
qed simp

lemma length_dev_data: "length (dev_data s) = sum_list (map length (dev_cmds s))"
  by (simp add: dev_data_def length_concat)

lemma spec_data_abs [simp]: "spec_data (abs_dev s) = dev_data s"
  by (simp add: spec_data_def abs_dev_def dev_data_def)

text \<open>The total size computed for \<^verbatim>\<open>lseek\<close> is the number of bytes that can be read.\<close>

lemma total_size:
  assumes "mem_inv (heap s) (dev_cb s) (dev_partial s)"
  shows "foldl (\<lambda>acc i. acc + esize (entry (dev_cb s) ! i)) 0 [0..<MAXW] = of_nat (length (dev_data s))"
proof -
  let ?b = "dev_cb s"
  have "entry ?b = map ((!) (entry ?b)) [0..<10]"
    using assms by (auto simp: mem_inv_def cb_inv_def wf_cb_def list_eq_iff_nth_eq)
  then have "sum_list (map (\<lambda>i. unat (esize (entry ?b ! i))) [0..<10]) = (\<Sum>e\<leftarrow>entry ?b. unat (esize e))"
    by (metis (no_types, lifting) map_map o_apply map_eq_conv)
  also have "\<dots> = length (dev_data s)"
    using sum_all_slots [of ?b] cb_sizes_cmds [OF assms] assms by (simp add: length_dev_data)
  finally show ?thesis
    using foldl_sizes [of "\<lambda>i. esize (entry ?b ! i)" 0 "[0..<10]"] by simp
qed

text \<open>The sizes the ioctl adds up: those of the commands, and 0 behind the last one.\<close>

lemma cmd_slot_size_eq:
  assumes "mem_inv (heap s) (dev_cb s) (dev_partial s)" "i < 10"
  shows "unat (cmd_slot_size (dev_cb s) i) = (if i < length (dev_cmds s) then length (dev_cmds s ! i) else 0)"
  using slot_size [of "dev_cb s" i] assms cb_sizes_cmds [OF assms(1)]
  by (simp add: cmd_slot_size_def cb_index_def nth_map)

lemma cmd_sizes_sum:
  assumes "mem_inv (heap s) (dev_cb s) (dev_partial s)" "n \<le> 10"
  shows "foldl (\<lambda>pos i. pos + cmd_slot_size (dev_cb s) i) 0 [0..<n] =
    of_nat (length (concat (take n (dev_cmds s))))"
proof -
  have "sum_list (map (\<lambda>i. unat (cmd_slot_size (dev_cb s) i)) [0..<n]) =
      length (concat (take n (dev_cmds s)))"
    using assms(2)
  proof (induction n)
    case (Suc n)
    then show ?case
      using cmd_slot_size_eq [OF assms(1), of n]
      by (cases "n < length (dev_cmds s)") (simp_all add: take_Suc_conv_app_nth)
  qed simp
  then show ?thesis using foldl_sizes [of "cmd_slot_size (dev_cb s)" 0 "[0..<n]"] by simp
qed

text \<open>
  A seek to a command and an offset in it, on the sequence of commands. The offset may be that of the
  end of the command; a command that is not stored has length zero.
\<close>

definition spec_seek :: "byte list list \<Rightarrow> kfile \<Rightarrow> aesd_seekto \<Rightarrow> (errno + unit) \<times> kfile" where
  "spec_seek cmds filp seekto =
     (let n = unat (write_cmd seekto); off = unat (write_cmd_offset seekto)
      in if (if n < length cmds then length (cmds ! n) else 0) < off then (Inl EINVAL, filp)
         else (Inr (), filp\<lparr>f_pos := of_nat (length (concat (take n cmds)) + off)\<rparr>))"

text \<open>What the two ways to seek compute while they hold the lock.\<close>

lemma llseek_locked_eq:
  fixes llseek :: llseek_fn and filp :: kfile and offset :: loff_t and whence :: int
  assumes "mem_inv (heap s) (dev_cb s) (dev_partial s)"
  defines "p \<equiv> llseek (f_pos filp) offset whence (of_nat (length (dev_data s)))"
  shows "llseek_locked llseek filp offset whence s = (Inr p, filp\<lparr>f_pos := p\<rparr>)"
  using total_size [OF assms(1)] by (simp add: llseek_locked_def p_def Let_def)

lemma adjust_locked_eq:
  fixes seekto :: aesd_seekto
  assumes mem: "mem_inv (heap s) (dev_cb s) (dev_partial s)" and n: "unat (write_cmd seekto) < 10"
  shows "adjust_locked filp seekto s = spec_seek (dev_cmds s) filp seekto"
proof -
  let ?n = "unat (write_cmd seekto)" and ?off = "unat (write_cmd_offset seekto)"
  let ?limit = "if ?n < length (dev_cmds s) then length (dev_cmds s ! ?n) else 0"
  have uc: "(ucast (write_cmd_offset seekto) :: size_t) = of_nat ?off" by (simp add: unsigned_ucast_eq)
  have off: "unat (of_nat ?off :: size_t) = ?off"
    using unsigned_less [of "write_cmd_offset seekto", where 'a = nat] by (intro unat_of_nat_lt) simp
  have lim: "cmd_slot_size (dev_cb s) ?n < of_nat ?off \<longleftrightarrow> ?limit < ?off"
    using cmd_slot_size_eq [OF mem n] off by (simp add: word_less_nat_alt)
  have pos: "foldl (\<lambda>pos i. pos + cmd_slot_size (dev_cb s) i) 0 [0..<?n] =
      of_nat (length (concat (take ?n (dev_cmds s))))"
    using cmd_sizes_sum [OF mem, of ?n] n by simp
  show ?thesis unfolding adjust_locked_def Let_def uc lim pos spec_seek_def by simp
qed

lemma lock_unlock_view:
  assumes inv: "dev_inv s" and lk: "mutex_lock_interruptible K s = Inr (i, s1)"
  shows "dev_inv (mutex_unlock s1)" "abs_dev (mutex_unlock s1) = abs_dev s"
    "unowned (mutex_unlock s1) = unowned s" "dev_cb s1 = dev_cb s" "heap s1 = heap s"
    "dev_partial s1 = dev_partial s" "i = k_intr K (tick s)" "i \<Longrightarrow> s1 = next_tick s"
proof -
  have v: "heap s1 = heap s" "dev_cb s1 = dev_cb s" "dev_partial s1 = dev_partial s"
    using lk inv by (auto simp: mutex_lock_interruptible_def dev_inv_def split: if_splits)
  note w = dev_view_heap_dev [OF v]
  show "dev_inv (mutex_unlock s1)"
    using w(5) dev_inv_mem [OF inv] by (intro dev_inv_locked_unlock) simp
  show "abs_dev (mutex_unlock s1) = abs_dev s" "unowned (mutex_unlock s1) = unowned s"
    using w by simp_all
  show "dev_cb s1 = dev_cb s" "heap s1 = heap s" "dev_partial s1 = dev_partial s" by (rule v)+
  show "i = k_intr K (tick s)" "i \<Longrightarrow> s1 = next_tick s"
    using lk inv by (auto simp: mutex_lock_interruptible_def dev_inv_def split: if_splits)
qed

lemma lock_total:
  assumes "dev_inv s"
  obtains s1 where "mutex_lock_interruptible K s = Inr (k_intr K (tick s), s1)"
  using assms by (cases "k_intr K (tick s)") (auto simp: mutex_lock_interruptible_def dev_inv_def)

lemma dev_inv_tick [simp]: "dev_inv (next_tick s) = dev_inv s"
  by (simp add: dev_inv_def)

lemma aesd_llseek_cases:
  fixes llseek :: llseek_fn and offset :: loff_t and whence :: int
  assumes inv: "dev_inv s" and dev: "private_data filp \<noteq> NoDev"
  defines "p \<equiv> llseek (f_pos filp) offset whence (of_nat (length (dev_data s)))"
  obtains
    (interrupted) "aesd_llseek K llseek filp offset whence s = Inr (Inl ERESTARTSYS, filp, next_tick s)"
      "k_intr K (tick s)"
  | (moved) s' where "aesd_llseek K llseek filp offset whence s = Inr (Inr p, filp\<lparr>f_pos := p\<rparr>, s')"
      "dev_inv s'" "abs_dev s' = abs_dev s" "unowned s' = unowned s" "\<not> k_intr K (tick s)"
proof -
  obtain s1 where lk: "mutex_lock_interruptible K s = Inr (k_intr K (tick s), s1)"
    by (rule lock_total [OF inv])
  note v = lock_unlock_view [OF inv lk]
  show thesis
  proof (cases "k_intr K (tick s)")
    case True
    then show thesis using lk v(8) dev by (intro interrupted) (simp_all add: aesd_llseek_def)
  next
    case False
    note w = dev_view_heap_dev [OF v(5,4,6)]
    have "mem_inv (heap s1) (dev_cb s1) (dev_partial s1)" using w(5) dev_inv_mem [OF inv] by simp
    then show thesis
      using False lk v(1-3) w(1) dev
      by (intro moved [of "mutex_unlock s1"]) (simp_all add: aesd_llseek_def p_def llseek_locked_eq dev_data_def)
  qed
qed

lemma aesd_adjust_cases:
  fixes seekto :: aesd_seekto
  assumes inv: "dev_inv s" and dev: "private_data filp \<noteq> NoDev"
  defines "n \<equiv> unat (write_cmd seekto)" and "off \<equiv> unat (write_cmd_offset seekto)"
  defines "limit \<equiv> (if n < length (dev_cmds s) then length (dev_cmds s ! n) else 0)"
  obtains
    (range) "aesd_adjust_file_offset K filp seekto s = Inr (Inl EINVAL, filp, s)" "10 \<le> n"
  | (interrupted) "aesd_adjust_file_offset K filp seekto s = Inr (Inl ERESTARTSYS, filp, next_tick s)"
      "n < 10" "k_intr K (tick s)"
  | (offset) s' where "aesd_adjust_file_offset K filp seekto s = Inr (Inl EINVAL, filp, s')" "n < 10"
      "dev_inv s'" "abs_dev s' = abs_dev s" "unowned s' = unowned s" "limit < off" "\<not> k_intr K (tick s)"
  | (moved) s' where "aesd_adjust_file_offset K filp seekto s =
      Inr (Inr (), filp\<lparr>f_pos := of_nat (length (concat (take n (dev_cmds s))) + off)\<rparr>, s')" "n < 10"
      "dev_inv s'" "abs_dev s' = abs_dev s" "unowned s' = unowned s" "off \<le> limit" "\<not> k_intr K (tick s)"
proof (cases "10 \<le> n")
  case True
  then show thesis by (intro range) (simp_all add: aesd_adjust_file_offset_def n_def)
next
  case lt: False
  then have n: "n < 10" "\<not> 10 \<le> unat (write_cmd seekto)" by (simp_all add: n_def)
  obtain s1 where lk: "mutex_lock_interruptible K s = Inr (k_intr K (tick s), s1)"
    by (rule lock_total [OF inv])
  note v = lock_unlock_view [OF inv lk]
  note w = dev_view_heap_dev [OF v(5,4,6)]
  have mem: "mem_inv (heap s1) (dev_cb s1) (dev_partial s1)" using w(5) dev_inv_mem [OF inv] by simp
  have eq: "adjust_locked filp seekto s1 = (if limit < off then (Inl EINVAL, filp)
      else (Inr (), filp\<lparr>f_pos := of_nat (length (concat (take n (dev_cmds s))) + off)\<rparr>))"
    using adjust_locked_eq [OF mem, of seekto filp] n
    unfolding spec_seek_def Let_def limit_def n_def off_def w(1) by simp
  show thesis
  proof (cases "k_intr K (tick s)")
    case True
    then show thesis using n v(8) lk dev by (intro interrupted) (simp_all add: aesd_adjust_file_offset_def)
  next
    case False
    then show thesis
      using n v(1-3) lk dev offset [of "mutex_unlock s1"] moved [of "mutex_unlock s1"]
      by (cases "limit < off") (simp_all add: aesd_adjust_file_offset_def eq)
  qed
qed

section \<open>Loading and unloading the module\<close>

lemma aesd_init_module_ok:
  assumes "0 \<le> alloc_result" "finite (dom (heap s))"
  shows "\<exists>s'. aesd_init_module alloc_result 0 s = (0, s') \<and> dev_inv s' \<and>
    abs_dev s' = \<lparr>a_cmds = [], a_rest = []\<rparr> \<and> heap s' = heap s \<and> region s' \<and> cdev (aesd_device s')"
proof -
  let ?s' = "snd (aesd_init_module alloc_result 0 s)"
  have view: "fst (aesd_init_module alloc_result 0 s) = 0" "dev_cb ?s' = aesd_circular_buffer_init"
    "dev_partial ?s' = null_entry" "heap ?s' = heap s" "region ?s'" "cdev (aesd_device ?s')"
    "\<not> lock (aesd_device ?s')"
    using assms(1) by (simp_all add: aesd_init_module_def aesd_setup_cdev_def Let_def set_cb_def upd_dev_def)
  have none: "dev_entries aesd_circular_buffer_init null_entry = []"
    by (simp add: dev_entries_def null_entry_def)
  have "mem_inv (heap ?s') (dev_cb ?s') (dev_partial ?s')"
    unfolding mem_inv_def view none using assms(2) by (simp add: null_entry_def)
  moreover have "abs_dev ?s' = \<lparr>a_cmds = [], a_rest = []\<rparr>"
    unfolding abs_dev_def dev_cmds_def dev_rest_def view by (simp add: entry_bytes_def null_entry_def)
  ultimately show ?thesis
    using view by (intro exI [of _ ?s'] conjI) (simp_all add: dev_inv_def prod_eq_iff)
qed

text \<open>The array of slots, in its own order: the stored entries rotated, or followed by empty slots.\<close>

lemma slots_cases:
  assumes "cb_inv b"
  obtains (full) ys zs where "entry b = ys @ zs" "cb_list b = zs @ ys"
  | (filling) zs where "entry b = cb_list b @ zs" "\<forall>e\<in>set zs. e = null_entry"
proof (cases "full b")
  case True
  let ?o = "unat (out_offs b)"
  have "cb_list b = rotate ?o (entry b)"
    using assms True by (auto simp: cb_inv_def wf_cb_def list_eq_iff_nth_eq nth_rotate cb_index_def)
  then have "cb_list b = drop ?o (entry b) @ take ?o (entry b)"
    using assms by (simp add: rotate_drop_take cb_inv_def wf_cb_def)
  then show thesis by (intro full [of "take ?o (entry b)" "drop ?o (entry b)"]) simp_all
next
  case False
  let ?i = "unat (in_offs b)"
  have "cb_list b = take ?i (entry b)"
    using assms False by (auto simp: cb_inv_def wf_cb_def list_eq_iff_nth_eq cb_count_if cb_index_def)
  moreover have "drop ?i (entry b) = replicate (10 - ?i) null_entry"
    using assms False by (simp add: cb_inv_def)
  moreover have "entry b = take ?i (entry b) @ drop ?i (entry b)" by simp
  ultimately show thesis by (intro filling [of "drop ?i (entry b)"]) (metis, metis in_set_replicate)
qed

definition nonnull :: "aesd_buffer_entry \<Rightarrow> bool" where
  "nonnull e \<longleftrightarrow> buffptr e \<noteq> NULL"

lemma live_nonnull: "live_entry h e \<Longrightarrow> nonnull e"
  by (auto simp: nonnull_def elim: live_entryE)

lemma slots_owned:
  assumes inv: "mem_inv h b part"
  shows "list_all (live_entry h) (filter nonnull (entry b))"
    "distinct (map buffptr (filter nonnull (entry b)))" "entry_addrs (entry b) = entry_addrs (cb_list b)"
proof -
  have live: "list_all (live_entry h) (cb_list b)" by (rule mem_inv_live [OF inv])
  have dist: "distinct (map buffptr (cb_list b))"
    using inv unfolding mem_inv_def dev_entries_def map_append distinct_append by blast
  have all: "filter nonnull xs = xs" if "list_all (live_entry h) xs" for xs
    using that by (auto simp: list_all_iff live_nonnull filter_id_conv)
  have "cb_inv b" using inv by simp
  then have "list_all (live_entry h) (filter nonnull (entry b)) \<and>
    distinct (map buffptr (filter nonnull (entry b))) \<and> entry_addrs (entry b) = entry_addrs (cb_list b)"
  proof (cases rule: slots_cases)
    case (full ys zs)
    then show ?thesis using live dist all [of ys] all [of zs] by (auto simp: Int_commute)
  next
    case (filling zs)
    moreover have "filter nonnull zs = []" "entry_addrs zs = {}"
      using filling(2) by (auto simp: nonnull_def null_entry_def filter_empty_conv entry_addrs_def)
    ultimately show ?thesis using live dist all [of "cb_list b"] by simp
  qed
  then show "list_all (live_entry h) (filter nonnull (entry b))"
    "distinct (map buffptr (filter nonnull (entry b)))" "entry_addrs (entry b) = entry_addrs (cb_list b)"
    by blast+
qed


text \<open>The loop of the module's exit, after \<open>n\<close> slots.\<close>

definition cleanup_step ::
  "nat \<Rightarrow> (aesd_circular_buffer \<times> kernel) checked \<Rightarrow> (aesd_circular_buffer \<times> kernel) checked" where
  "cleanup_step index acc = cbind acc (\<lambda>(b, s). cbind (entry_at b (of_nat index)) (\<lambda>e.
     cbind (cleanup_entry index e s) (\<lambda>(e', s'). Inr (b\<lparr>entry := (entry b)[index := e']\<rparr>, s'))))"

lemma filter_take_drop_distinct:
  assumes "distinct (map f (filter P xs))" "n < length xs" "P (xs ! n)"
  shows "f (xs ! n) \<notin> f ` set (filter P (take n xs))"
proof -
  have "xs = take n xs @ xs ! n # drop (Suc n) xs" using assms(2) by (rule id_take_nth_drop)
  then have "map f (filter P xs) =
      map f (filter P (take n xs)) @ f (xs ! n) # map f (filter P (drop (Suc n) xs))"
    using assms(3) by (metis filter.simps(2) filter_append list.simps(9) map_append)
  with assms(1) have "f (xs ! n) \<notin> set (map f (filter P (take n xs)))" by (metis distinct_append distinct.simps(2) IntI empty_iff list.set_intros(1))
  then show ?thesis by simp
qed

lemma entry_addrs_filter: "entry_addrs (filter nonnull es) = entry_addrs es"
  by (induction es) (auto simp: nonnull_def ptr_block_def split: cptr.splits)

lemma cleanup_step_slot:
  assumes "length (entry b) = 10" "n < 10" "entry b ! n = e"
    and "buffptr e = NULL \<or> (\<exists>a. buffptr e = Ptr a 0 \<and> heap s a \<noteq> None)"
  shows "\<exists>s'. cleanup_step n (Inr (b, s)) = Inr (b\<lparr>entry := (entry b)[n := e\<lparr>buffptr := NULL\<rparr>]\<rparr>, s') \<and>
     heap s' = (heap s) |` (- ptr_block (buffptr e)) \<and> aesd_device s' = aesd_device s \<and> region s' = region s"
proof -
  have un: "unat (of_nat n :: u8) = n" using assms(2) by (intro unat_of_nat_lt) simp
  have at: "entry_at b (of_nat n) = Inr e" using assms(1-3) un by (simp add: entry_at_def)
  show ?thesis
  proof (cases "buffptr e")
    case NULL
    then have id: "e\<lparr>buffptr := NULL\<rparr> = e" by simp
    show ?thesis
      unfolding id using at NULL by (intro exI [of _ s]) (simp add: cleanup_step_def cleanup_entry_def ptr_block_def restrict_map_def)
  next
    case (Ptr a off)
    then have "kfree_const (buffptr e) s = Inr (set_block a None s)" using assms(4) by (auto simp: mem_simps)
    then show ?thesis
      using at Ptr by (intro exI [of _ "set_block a None s"])
        (auto simp: cleanup_step_def cleanup_entry_def ptr_block_def fun_eq_iff restrict_map_def)
  qed
qed

text \<open>A slot in use owns a live block, which no earlier slot owns.\<close>

lemma slot_block:
  assumes "length (entry b) = 10" "n < 10" "buffptr (entry b ! n) = Ptr a off"
    and live: "list_all (live_entry h) (filter nonnull (entry b))"
    and dist: "distinct (map buffptr (filter nonnull (entry b)))"
  shows "off = 0" "h a \<noteq> None" "a \<notin> entry_addrs (take n (entry b))"
proof -
  let ?e = "entry b ! n"
  have mem: "nonnull ?e" "?e \<in> set (filter nonnull (entry b))" using assms(1-3) by (simp_all add: nonnull_def)
  then have lv: "live_entry h ?e" using live by (simp only: list_all_iff)
  then show a: "off = 0" "h a \<noteq> None" using assms(3) by (auto elim: live_entryE)
  have "a \<notin> entry_addrs (filter nonnull (take n (entry b)))"
  proof (rule live_notin_addrs [OF lv])
    show "list_all (live_entry h) (filter nonnull (take n (entry b)))"
      using live by (auto simp: list_all_iff dest: in_set_takeD)
    show "buffptr ?e \<notin> buffptr ` set (filter nonnull (take n (entry b)))"
      using dist assms(1,2) mem by (intro filter_take_drop_distinct) simp_all
    show "buffptr ?e = Ptr a 0" using assms(3) a by simp
  qed
  then show "a \<notin> entry_addrs (take n (entry b))" by (simp add: entry_addrs_filter)
qed

lemma cleanup_slots:
  assumes len: "length (entry b) = 10" and n: "n \<le> 10"
    and live: "list_all (live_entry (heap s)) (filter nonnull (entry b))"
    and dist: "distinct (map buffptr (filter nonnull (entry b)))"
  shows "\<exists>b' s'. fold cleanup_step [0..<n] (Inr (b, s)) = Inr (b', s') \<and> length (entry b') = 10 \<and>
     drop n (entry b') = drop n (entry b) \<and> (\<forall>i<n. buffptr (entry b' ! i) = NULL) \<and>
     heap s' = (heap s) |` (- entry_addrs (take n (entry b))) \<and>
     aesd_device s' = aesd_device s \<and> region s' = region s"
  using n
proof (induction n)
  case 0
  then show ?case using len by simp
next
  case (Suc n)
  then obtain b' s' where IH: "fold cleanup_step [0..<n] (Inr (b, s)) = Inr (b', s')" "length (entry b') = 10"
     "drop n (entry b') = drop n (entry b)" "\<forall>i<n. buffptr (entry b' ! i) = NULL"
     "heap s' = (heap s) |` (- entry_addrs (take n (entry b)))"
     "aesd_device s' = aesd_device s" "region s' = region s"
    by auto
  let ?e = "entry b ! n"
  have n10: "n < 10" using Suc.prems by simp
  have e: "entry b' ! n = ?e" using IH(3) n10 len IH(2) by (metis hd_drop_conv_nth)
  have "buffptr ?e = NULL \<or> (\<exists>a. buffptr ?e = Ptr a 0 \<and> heap s' a \<noteq> None)"
    using slot_block [OF len n10 _ live dist] IH(5) by (cases "buffptr ?e") auto
  then obtain s2 where s2: "cleanup_step n (Inr (b', s')) = Inr (b'\<lparr>entry := (entry b')[n := ?e\<lparr>buffptr := NULL\<rparr>]\<rparr>, s2)"
      "heap s2 = (heap s') |` (- ptr_block (buffptr ?e))" "aesd_device s2 = aesd_device s'" "region s2 = region s'"
    using cleanup_step_slot [OF IH(2) n10 e] by blast
  have tk: "entry_addrs (take (Suc n) (entry b)) = entry_addrs (take n (entry b)) \<union> ptr_block (buffptr ?e)"
    using n10 len by (simp add: take_Suc_conv_app_nth)
  have h: "heap s2 = (heap s) |` (- entry_addrs (take (Suc n) (entry b)))"
    unfolding s2(2) IH(5) tk by (simp add: Int_commute)
  have dr: "drop (Suc n) (entry b') = drop (Suc n) (entry b)"
    using arg_cong [OF IH(3), of tl] by (simp add: drop_Suc tl_drop)
  have nu: "\<forall>i<Suc n. buffptr ((entry b')[n := ?e\<lparr>buffptr := NULL\<rparr>] ! i) = NULL"
    using IH(2,4) n10 by (simp add: nth_list_update less_Suc_eq)
  show ?case
    using IH(1,2,6,7) s2(1,3,4) dr nu h
    by (intro exI [of _ "b'\<lparr>entry := (entry b')[n := ?e\<lparr>buffptr := NULL\<rparr>]\<rparr>"] exI [of _ s2]) simp
qed

lemma cdev_simps [simp]:
  "cdev (aesd_device (set_cb b s)) = cdev (aesd_device s)"
  "cdev (aesd_device (set_partial p n s)) = cdev (aesd_device s)"
  by (simp_all add: set_cb_def set_partial_def)

lemma aesd_cleanup_ok:
  assumes inv: "dev_inv s"
  shows "\<exists>s'. aesd_cleanup_module s = Inr s' \<and> dom (heap s') = unowned s \<and>
    (\<forall>a\<in>unowned s. heap s' a = heap s a) \<and>
    (\<forall>e\<in>set (entry (dev_cb s')). buffptr e = NULL) \<and> dev_partial s' = null_entry \<and>
    \<not> region s' \<and> \<not> cdev (aesd_device s')"
proof -
  let ?s0 = "upd_dev (cdev_update (\<lambda>_. False)) s" and ?b = "dev_cb s" and ?p = "dev_partial s"
  note mem = dev_inv_mem [OF inv] note own = slots_owned [OF mem]
  have len: "length (entry ?b) = 10" using mem by (simp add: mem_inv_def cb_inv_def wf_cb_def)
  have "AESD_CIRCULAR_BUFFER_FOREACH cleanup_entry b t = fold cleanup_step [0..<10] (Inr (b, t))" for b t
    by (simp only: AESD_CIRCULAR_BUFFER_FOREACH_def cleanup_step_def [abs_def] MAXW_eq)
  moreover obtain b' s1 where l: "fold cleanup_step [0..<10] (Inr (?b, ?s0)) = Inr (b', s1)"
     "length (entry b') = 10" "\<forall>i<10. buffptr (entry b' ! i) = NULL"
     "heap s1 = (heap s) |` (- entry_addrs (take 10 (entry ?b)))"
     "aesd_device s1 = aesd_device ?s0" "region s1 = region s"
    using cleanup_slots [of ?b 10 ?s0] len own(1,2) by auto
  ultimately have F: "AESD_CIRCULAR_BUFFER_FOREACH cleanup_entry ?b ?s0 = Inr (b', s1)" by simp
  have h1: "heap s1 = (heap s) |` (- entry_addrs (cb_list ?b))" using l(4) len own(3) by simp
  have nul: "\<forall>e\<in>set (entry b'). buffptr e = NULL" using l(2,3) by (auto simp: in_set_conv_nth)
  have owned: "dev_owned s = entry_addrs (cb_list ?b) \<union> ptr_block (buffptr ?p)"
    by (auto simp: dev_owned_def dev_entries_def ptr_block_def split: cptr.splits)
  show ?thesis
  proof (cases "buffptr ?p")
    case NULL
    then have "?p = null_entry" using mem by (cases ?p) (simp add: mem_inv_def null_entry_def)
    then show ?thesis
      using F h1 l(5) nul owned NULL
      by (auto simp: aesd_cleanup_module_def release_partial_def unowned_def Let_def ptr_block_def null_entry_def)
  next
    case (Ptr a off)
    then have de: "dev_entries ?b ?p = cb_list ?b @ [?p]" by (simp add: dev_entries_def)
    have lv: "live_entry (heap s) ?p" "buffptr ?p \<notin> buffptr ` set (cb_list ?b)"
      using mem unfolding mem_inv_def de by simp_all
    have a: "off = 0" "heap s a \<noteq> None" using lv(1) Ptr by (auto elim: live_entryE)
    have "a \<notin> entry_addrs (cb_list ?b)"
      using live_notin_addrs [OF lv(1) mem_inv_live [OF mem] lv(2)] Ptr a by simp
    then have "heap s1 a = heap s a" using h1 by simp
    then have "kfree_const (Ptr a 0) (set_cb b' s1) = Inr (set_block a None (set_cb b' s1))"
      using a by (auto simp: mem_simps)
    then show ?thesis
      using F h1 l(5) nul owned Ptr a
      by (auto simp: aesd_cleanup_module_def release_partial_def unowned_def Let_def ptr_block_def null_entry_def)
  qed
qed

end
