(* ===== verification/Driver_History.thy ===== *)
theory Driver_History
  imports Driver_Control
begin

text \<open>
  Sequences of operations of the driver: writes in pieces, the kernel in which no call fails, and
  the step relation \<open>drv_step\<close> of all operations with the states \<open>drv_reach\<close> that a loaded driver can
  get into. \<open>drv_reach_inv\<close> is the invariant of all of them, by rule induction.
\<close>


section \<open>Writing in pieces\<close>

lemma split_cmds_append:
  "split_cmds (xs @ ys) =
     (fst (split_cmds xs) @ fst (split_cmds (snd (split_cmds xs) @ ys)),
      snd (split_cmds (snd (split_cmds xs) @ ys)))"
proof (induction xs rule: split_cmds.induct)
  case (1 xs)
  show ?case
  proof (cases "newline \<in> set xs")
    case True
    have tw: "cmd_len (xs @ ys) = cmd_len xs" using True by (simp add: cmd_len_def takeWhile_append1)
    have le: "cmd_len xs \<le> length xs" using True by (rule cmd_len_le)
    show ?thesis
      using 1 [OF True] True le by (simp add: split_cmds_newline tw)
  qed (simp add: split_cmds_no_newline)
qed

text \<open>Two writes have the effect of one write of all the data.\<close>

lemma spec_write_append: "spec_write (spec_write d xs) ys = spec_write d (xs @ ys)"
  using split_cmds_append [of "a_rest d @ xs" ys]
  by (simp add: spec_write_def split_def Let_def lastn_lastn_append)

lemma spec_write_foldl: "foldl spec_write d (xs # xss) = spec_write d (concat (xs # xss))"
  by (induction xss arbitrary: xs d) (simp_all add: spec_write_append)

section \<open>A kernel in which no call fails\<close>

definition calm :: "kenv \<Rightarrow> bool" where
  "calm K \<longleftrightarrow> kenv_ok K \<and> reliable K \<and> (\<forall>t. k_copy_from K t = 0 \<and> k_copy_to K t = 0 \<and> \<not> k_intr K t)"

definition first_fit :: kenv where
  "first_fit =
     \<lparr>k_alloc = \<lambda>t h n. if finite (dom h) \<and> n < kmalloc_limit then Some (LEAST a. h a = None, replicate n 0) else None,
      k_copy_from = \<lambda>t. 0, k_copy_to = \<lambda>t. 0, k_intr = \<lambda>t. False\<rparr>"

lemma calm_first_fit: "calm first_fit"
proof -
  have "h (LEAST a. h a = None) = None" if "finite (dom h)" for h :: heap
  proof -
    have "\<exists>a. a \<notin> dom h" using that by (rule ex_new_if_finite [OF infinite_UNIV_nat])
    then have "\<exists>a. h a = None" by (simp add: domIff)
    then show ?thesis by (rule LeastI_ex)
  qed
  then show ?thesis by (auto simp: calm_def kenv_ok_def reliable_def first_fit_def split: if_splits)
qed

definition blank :: kernel where
  "blank = \<lparr>heap = Map.empty, tick = 0,
     aesd_device = \<lparr>cdev = False, lock = False, circular_buffer = aesd_circular_buffer_init, partial = null_entry\<rparr>,
     region = False\<rparr>"

definition loaded :: kernel where
  "loaded = snd (aesd_init_module 0 0 blank)"

lemma loaded: "dev_inv loaded" "abs_dev loaded = \<lparr>a_cmds = [], a_rest = []\<rparr>" "heap loaded = Map.empty" "tick loaded = 0"
proof -
  show "dev_inv loaded" "abs_dev loaded = \<lparr>a_cmds = [], a_rest = []\<rparr>" "heap loaded = Map.empty"
    using aesd_init_module_ok [of 0 blank] by (auto simp: loaded_def blank_def)
  show "tick loaded = 0" by (simp add: loaded_def blank_def aesd_init_module_def aesd_setup_cdev_def)
qed

lemma write_stores:
  assumes K: "kenv_ok K" "reliable K" and inv: "dev_inv s" and dev: "private_data filp = AesdDevice"
    and calm: "k_copy_from K (Suc (tick s)) = 0" "\<not> k_intr K (Suc (Suc (tick s)))"
    and len: "length (dev_rest s) + length ubuf < kmalloc_limit"
  shows "\<exists>s'. aesd_write K filp ubuf (of_nat (length ubuf)) pos s =
      Some (Inr (Inr (of_nat (length ubuf)), pos + of_nat (length ubuf), s')) \<and>
    dev_inv s' \<and> abs_dev s' = spec_write (abs_dev s) ubuf"
proof -
  have n: "unat (of_nat (length ubuf) :: size_t) = length ubuf" using len by (intro limit_lt) simp
  have u: "user_copy_ok K ubuf (length ubuf) s"
    using calm(1) by (simp add: user_copy_ok_def copy_left_zero_iff)
  have d: "private_data filp \<noteq> NoDev" using dev by simp
  from n len have lt: "unat (of_nat (length ubuf) :: size_t) < kmalloc_limit" by simp
  from K(1) inv d lt show ?thesis
  proof (cases rule: aesd_write_cases [of K s filp "of_nat (length ubuf)" ubuf pos])
    case (stored L s')
    then show ?thesis
      by (intro exI [of _ s']) (simp add: n abs_dev_def spec_write_def split_def Let_def)
  qed (use K(2) calm(2) len u n in auto)
qed

section \<open>Complete commands\<close>

definition cmd_ok :: "byte list \<Rightarrow> bool" where
  "cmd_ok c \<longleftrightarrow> c \<noteq> [] \<and> last c = newline \<and> newline \<notin> set (butlast c)"

definition abs_ok :: "dev_abs \<Rightarrow> bool" where
  "abs_ok d \<longleftrightarrow> length (a_cmds d) \<le> 10 \<and> (\<forall>c\<in>set (a_cmds d). cmd_ok c) \<and> newline \<notin> set (a_rest d)"

lemma cmd_ok_take:
  assumes "newline \<in> set bs"
  shows "cmd_ok (take (cmd_len bs) bs)"
proof -
  obtain ys zs where bs: "bs = ys @ newline # zs" and ys: "newline \<notin> set ys"
    using split_list_first [OF assms] by blast
  have "takeWhile (\<lambda>x. x \<noteq> newline) bs = ys" using ys by (auto simp: bs takeWhile_tail)
  then have "take (cmd_len bs) bs = ys @ [newline]" by (simp add: cmd_len_def bs)
  with ys show ?thesis by (simp add: cmd_ok_def)
qed

lemma split_cmds_ok: "c \<in> set (fst (split_cmds bs)) \<Longrightarrow> cmd_ok c"
proof (induction bs rule: split_cmds.induct)
  case (1 bs)
  then show ?case
    by (cases "newline \<in> set bs") (auto simp: split_cmds_newline split_cmds_no_newline cmd_ok_take)
qed

lemma abs_ok_stored:
  assumes "abs_ok d" "set cs \<subseteq> set (fst (split_cmds bs))" "newline \<notin> set r"
  shows "abs_ok \<lparr>a_cmds = lastn 10 (a_cmds d @ cs), a_rest = r\<rparr>"
  using assms split_cmds_ok [of _ bs] by (auto simp: abs_ok_def lastn_def dest!: in_set_dropD)

section \<open>All histories of the driver\<close>

text \<open>
  The states a loaded driver can get into: any operations in any order, from any number of open
  files, each with its own choices of the kernel, as long as the operation returns. A call from
  user space transfers less than \<open>kmalloc_limit\<close> bytes; the kernel cuts longer requests.
\<close>

inductive drv_step :: "kernel \<Rightarrow> kernel \<Rightarrow> bool" where
  step_read: "kenv_ok K \<Longrightarrow> private_data filp = AesdDevice \<Longrightarrow>
    aesd_read K filp uspace count pos s = Some (Inr (res, bs, pos', s')) \<Longrightarrow> drv_step s s'"
| step_write: "kenv_ok K \<Longrightarrow> private_data filp = AesdDevice \<Longrightarrow> unat count < kmalloc_limit \<Longrightarrow>
    aesd_write K filp ubuf count pos s = Some (Inr (res, pos', s')) \<Longrightarrow> drv_step s s'"
| step_llseek: "private_data filp = AesdDevice \<Longrightarrow>
    aesd_llseek K llseek filp offset whence s = Inr (newpos, filp', s') \<Longrightarrow> drv_step s s'"
| step_ioctl: "private_data filp = AesdDevice \<Longrightarrow>
    aesd_ioctl K A filp cmd arg s = Inr (done_or_error, filp', s') \<Longrightarrow> drv_step s s'"

inductive drv_reach :: "kernel \<Rightarrow> bool" where
  reach_load: "finite (dom (heap s)) \<Longrightarrow> 0 \<le> alloc_result \<Longrightarrow>
    aesd_init_module alloc_result 0 s = (0, s') \<Longrightarrow> drv_reach s'"
| reach_step: "drv_reach s \<Longrightarrow> drv_step s s' \<Longrightarrow> drv_reach s'"

definition drv_inv :: "kernel \<Rightarrow> bool" where
  "drv_inv s \<longleftrightarrow> dev_inv s \<and> abs_ok (abs_dev s)"

lemma aesd_ioctl_keeps:
  assumes inv: "dev_inv s" and dev: "private_data filp = AesdDevice"
  shows "\<exists>r filp' s'. aesd_ioctl K A filp cmd arg s = Inr (r, filp', s') \<and>
    dev_inv s' \<and> abs_dev s' = abs_dev s \<and> unowned s' = unowned s"
proof -
  have n: "private_data filp \<noteq> NoDev" "dev_inv (next_tick s)" using dev inv by simp_all
  have a: "\<exists>r filp' s'. aesd_adjust_file_offset K filp x (next_tick s) = Inr (r, filp', s') \<and>
      dev_inv s' \<and> abs_dev s' = abs_dev s \<and> unowned s' = unowned s" for x
    by (rule aesd_adjust_cases [OF n(2,1), of K x]) (use inv in auto)
  show ?thesis
    using inv a by (cases arg) (auto simp: aesd_ioctl_def)
qed

lemma drv_step_inv:
  assumes "drv_step s s'" "drv_inv s"
  shows "drv_inv s'"
  using assms
proof (induction rule: drv_step.induct)
  case (step_read K filp uspace count pos s res bs pos' s')
  then have "dev_inv s" "private_data filp \<noteq> NoDev" by (simp_all add: drv_inv_def)
  then show ?case
    by (rule aesd_read_cases [of s filp K uspace count pos]) (use step_read in \<open>auto simp: drv_inv_def\<close>)
next
  case (step_write K filp count ubuf pos s res pos' s')
  then have h: "dev_inv s" "private_data filp \<noteq> NoDev" "abs_ok (abs_dev s)" by (simp_all add: drv_inv_def)
  let ?p = "split_cmds (dev_rest s @ take (unat count) ubuf)"
  have st: "drv_inv t" if "dev_inv t" "dev_cmds t = lastn 10 (dev_cmds s @ cs)" "set cs \<subseteq> set (fst ?p)"
      "newline \<notin> set (dev_rest t)" for t cs
    using abs_ok_stored [OF h(3) that(3,4)] that by (simp add: drv_inv_def abs_dev_def)
  have nil: "lastn 10 (dev_cmds s @ []) = dev_cmds s"
    using h(3) by (simp add: abs_ok_def abs_dev_def lastn_def)
  from step_write.hyps(1) h(1,2) step_write.hyps(3) show ?case
  proof (cases rule: aesd_write_cases [of K s filp count ubuf pos])
    case (nomem t)
    then show ?thesis using step_write h by (auto simp: drv_inv_def abs_dev_def)
  next
    case (interrupted t)
    then show ?thesis using step_write st [of t "[]"] nil by auto
  next
    case (einval k L t)
    then show ?thesis using step_write st [of t "take k (fst ?p)"] by (auto dest: in_set_takeD)
  next
    case (nopartial L t)
    then show ?thesis using step_write st [of t "fst ?p"] by auto
  next
    case (stored L t)
    then show ?thesis
      using step_write st [of t "fst ?p"] snd_split_cmds_no_newline by auto
  qed (use step_write in simp)
next
  case (step_llseek filp K llseek offset whence s newpos filp' s')
  then have "dev_inv s" "private_data filp \<noteq> NoDev" by (simp_all add: drv_inv_def)
  then show ?case
    by (rule aesd_llseek_cases [of s filp K llseek offset whence]) (use step_llseek in \<open>auto simp: drv_inv_def\<close>)
next
  case (step_ioctl filp K A cmd arg s done_or_error filp' s')
  then have "dev_inv s" by (simp add: drv_inv_def)
  from aesd_ioctl_keeps [OF this step_ioctl.hyps(1), of K A cmd arg] step_ioctl show ?case
    by (auto simp: drv_inv_def)
qed

lemma drv_reach_inv: "drv_reach s \<Longrightarrow> drv_inv s"
proof (induction rule: drv_reach.induct)
  case (reach_load s alloc_result s')
  then show ?case
    using aesd_init_module_ok [of alloc_result s] by (auto simp: drv_inv_def abs_ok_def)
qed (rule drv_step_inv)

end
