(* ===== verification/Driver_Properties.thy ===== *)
theory Driver_Properties
  imports Driver_History
begin

text \<open>
  The properties of the character driver, each with an instance where its hypotheses hold.
\<close>

section \<open>Writing\<close>

lemma write_interrupted:
  assumes K: "kenv_ok K" "reliable K" and inv: "dev_inv s" and dev: "private_data filp = AesdDevice"
    and env: "k_copy_from K (Suc (tick s)) = 0" "k_intr K (Suc (Suc (tick s)))"
    and len: "length (a_rest (abs_dev s)) + length ubuf < kmalloc_limit"
  shows "\<exists>s'. aesd_write K filp ubuf (of_nat (length ubuf)) pos s = Some (Inr (Inl ERESTARTSYS, pos, s')) \<and>
    dev_inv s' \<and> abs_dev s' = (abs_dev s)\<lparr>a_rest := []\<rparr>"
proof -
  have n: "unat (of_nat (length ubuf) :: size_t) = length ubuf" using len by (intro limit_lt) simp
  have u: "user_copy_ok K ubuf (length ubuf) s"
    using env(1) by (simp add: user_copy_ok_def copy_left_zero_iff)
  have d: "private_data filp \<noteq> NoDev" using dev by simp
  from n len have lt: "unat (of_nat (length ubuf) :: size_t) < kmalloc_limit" by simp
  from K(1) inv d lt show ?thesis
  proof (cases rule: aesd_write_cases [of K s filp "of_nat (length ubuf)" ubuf pos])
    case (interrupted s')
    then show ?thesis by (intro exI [of _ s']) (simp add: abs_dev_def)
  qed (use K(2) env(2) len u n in \<open>auto simp: abs_dev_def\<close>)
qed

definition opened :: kfile where
  "opened = snd (aesd_open \<lparr>f_pos = 0, private_data = NoDev\<rparr>)"

lemma opened [simp]: "private_data opened = AesdDevice" "f_pos opened = 0"
  by (simp_all add: opened_def aesd_open_def)

lemma loaded_rest [simp]: "dev_rest loaded = []" "dev_cmds loaded = []"
  using loaded(2) by (simp_all add: abs_dev_def)

text \<open>
  C1. A write that meets no failure returns the number of bytes, advances the position by it and
  does to the device exactly what the specification says: every complete command of the
  unfinished rest followed by the new bytes is appended, the last ten are kept, and the bytes
  after the last newline are the new rest. The device invariant holds again.
\<close>

theorem write_refines:
  assumes "kenv_ok K" "reliable K" "dev_inv s" "private_data filp = AesdDevice"
    and "k_copy_from K (Suc (tick s)) = 0" "\<not> k_intr K (Suc (Suc (tick s)))"
    and "length (a_rest (abs_dev s)) + length ubuf < kmalloc_limit"
  shows "\<exists>s'. aesd_write K filp ubuf (of_nat (length ubuf)) pos s =
      Some (Inr (Inr (of_nat (length ubuf)), pos + of_nat (length ubuf), s')) \<and>
    dev_inv s' \<and> abs_dev s' = spec_write (abs_dev s) ubuf"
  using assms by (intro write_stores) (simp_all add: abs_dev_def)

theorem write_refines_witness:
  "kenv_ok first_fit \<and> reliable first_fit \<and> dev_inv loaded \<and>
   (\<exists>s'. aesd_write first_fit opened [97, 10, 98] 3 0 loaded = Some (Inr (Inr 3, 3, s')) \<and>
    dev_inv s' \<and> abs_dev s' = \<lparr>a_cmds = [[97, 10]], a_rest = [98]\<rparr>)"
proof -
  have K: "kenv_ok first_fit" "reliable first_fit" "\<And>t. k_copy_from first_fit t = 0" "\<And>t. \<not> k_intr first_fit t"
    using calm_first_fit by (simp_all add: calm_def)
  have "spec_write (abs_dev loaded) [97, 10, 98] = \<lparr>a_cmds = [[97, 10]], a_rest = [98]\<rparr>"
    by (simp add: loaded(2) spec_write_def split_cmds.simps newline_def cmd_len_def)
  then show ?thesis
    using write_refines [OF K(1,2) loaded(1) opened(1), of "[97, 10, 98]" 0] K loaded(1)
    by (simp add: loaded(2) kmalloc_limit_def)
qed

text \<open>
  C7. Whatever the kernel does, a write in a good state ends. It does not block, does not read or
  write out of bounds and does not free a block twice: the only fault it can meet is the null
  pointer of the struct allocated for an entry, and only when an allocation fails. Otherwise it
  leaves the device in a good state, with the lock released.
\<close>

theorem write_safe:
  assumes "kenv_ok K" "dev_inv s" "private_data filp = AesdDevice" "unat count < kmalloc_limit"
  shows "(\<exists>r pos' s'. aesd_write K filp ubuf count pos s = Some (Inr (r, pos', s')) \<and> dev_inv s') \<or>
    (aesd_write K filp ubuf count pos s = Some (Inl Null_Deref) \<and> \<not> reliable K)"
proof -
  have "private_data filp \<noteq> NoDev" using assms(3) by simp
  from assms(1,2) this assms(4) show ?thesis
    by (cases rule: aesd_write_cases [of K s filp count ubuf pos]) auto
qed

definition no_memory :: kenv where
  "no_memory = \<lparr>k_alloc = \<lambda>t h n. None, k_copy_from = \<lambda>t. 0, k_copy_to = \<lambda>t. 0, k_intr = \<lambda>t. False\<rparr>"

lemma kenv_ok_no_memory: "kenv_ok no_memory"
  by (simp add: kenv_ok_def no_memory_def)

theorem write_safe_witness:
  "kenv_ok no_memory \<and> dev_inv loaded \<and>
   ((\<exists>r pos' s'. aesd_write no_memory opened [97] 1 0 loaded = Some (Inr (r, pos', s')) \<and> dev_inv s') \<or>
    (aesd_write no_memory opened [97] 1 0 loaded = Some (Inl Null_Deref) \<and> \<not> reliable no_memory))"
  using write_safe [OF kenv_ok_no_memory loaded(1) opened(1), of 1 "[97]" 0] kenv_ok_no_memory loaded(1)
  by (simp add: kmalloc_limit_def)

text \<open>
  C10. A write that returns an error leaves the position alone and stores whole commands only: the
  commands that were there, then a prefix of the new complete commands, cut to the last ten. When
  the error is \<^verbatim>\<open>ENOMEM\<close> from a failed copy of the user's data, nothing has changed at all.
\<close>

theorem write_error:
  assumes "kenv_ok K" "dev_inv s" "private_data filp = AesdDevice" "unat count < kmalloc_limit"
    and "aesd_write K filp ubuf count pos s = Some (Inr (Inl e, pos', s'))"
  shows "pos' = pos \<and> dev_inv s' \<and> e \<in> {ENOMEM, ERESTARTSYS, EINVAL} \<and>
    (\<exists>k. a_cmds (abs_dev s') = lastn 10 (a_cmds (abs_dev s) @
       take k (fst (split_cmds (a_rest (abs_dev s) @ take (unat count) ubuf))))) \<and>
    (a_rest (abs_dev s') = a_rest (abs_dev s) \<or> a_rest (abs_dev s') = []) \<and>
    (copy_left (k_copy_from K (Suc (tick s))) (length ubuf) (unat count) \<noteq> 0 \<longrightarrow>
       e = ENOMEM \<and> abs_dev s' = abs_dev s)"
proof -
  have nd: "private_data filp \<noteq> NoDev" using assms(3) by simp
  let ?cs = "fst (split_cmds (dev_rest s @ take (unat count) ubuf))"
  have "length (dev_cmds s) \<le> 10" using cb_count_le by simp
  then have same: "\<exists>k. dev_cmds s = lastn 10 (dev_cmds s @ take k ?cs)" by (intro exI [of _ 0]) simp
  have all: "\<exists>k. lastn 10 (dev_cmds s @ ?cs) = lastn 10 (dev_cmds s @ take k ?cs)"
    by (intro exI [of _ "length ?cs"]) simp
  note unf = abs_dev_def user_copy_ok_def
  from assms(1,2) nd assms(4) show ?thesis
  proof (cases rule: aesd_write_cases [of K s filp count ubuf pos])
    case (nomem t)
    then show ?thesis using assms(5) same by (auto simp: unf)
  next
    case (interrupted t)
    then show ?thesis using assms(5) same by (auto simp: unf)
  next
    case (einval k L t)
    then show ?thesis using assms(5) by (auto simp: unf)
  next
    case (nopartial L t)
    then show ?thesis using assms(5) all by (auto simp: unf)
  qed (use assms(5) in simp_all)
qed

lemma no_memory_write:
  "aesd_write no_memory opened [97] 1 0 loaded = Some (Inr (Inl ENOMEM, 0, next_tick loaded))"
  by (simp add: aesd_write_def write_gather_def kmalloc_def no_memory_def write_out_def Let_def)

theorem write_error_witness:
  "aesd_write no_memory opened [97] 1 0 loaded = Some (Inr (Inl ENOMEM, 0, next_tick loaded)) \<and>
   dev_inv (next_tick loaded) \<and>
   (\<exists>k. a_cmds (abs_dev (next_tick loaded)) = lastn 10 (a_cmds (abs_dev loaded) @
       take k (fst (split_cmds (a_rest (abs_dev loaded) @ take 1 [97])))))"
  using write_error [OF kenv_ok_no_memory loaded(1) opened(1) _ no_memory_write] no_memory_write
  by (simp add: kmalloc_limit_def)

text \<open>
  C19. What a write leaves behind. A write that stores its data makes exactly one block per new
  complete command unreachable: the struct allocated for the entry, which is copied into the ring
  and never freed. Nothing else is leaked, and nothing that was unreachable is freed.
\<close>

theorem write_leaks_structs:
  assumes "kenv_ok K" "dev_inv s" "private_data filp = AesdDevice" "unat count < kmalloc_limit"
    and "aesd_write K filp ubuf count pos s = Some (Inr (Inr n, pos', s'))"
  shows "\<exists>L. unowned s' = unowned s \<union> L \<and> unowned s \<inter> L = {} \<and> finite L \<and>
    card L = length (fst (split_cmds (a_rest (abs_dev s) @ take (unat count) ubuf)))"
proof -
  have "private_data filp \<noteq> NoDev" using assms(3) by simp
  from assms(1,2) this assms(4) show ?thesis
  proof (cases rule: aesd_write_cases [of K s filp count ubuf pos])
    case (stored L t)
    then show ?thesis using assms(5) by (intro exI [of _ L]) (simp add: abs_dev_def)
  qed (use assms(5) in simp_all)
qed

lemma first_fit_write:
  assumes "length ubuf < kmalloc_limit"
  obtains s' where "aesd_write first_fit opened ubuf (of_nat (length ubuf)) 0 loaded =
    Some (Inr (Inr (of_nat (length ubuf)), of_nat (length ubuf), s'))" "dev_inv s'"
    "abs_dev s' = spec_write (abs_dev loaded) ubuf"
  using write_stores [of first_fit loaded opened ubuf 0] calm_first_fit loaded(1) assms
  by (auto simp: calm_def)

theorem write_leaks_structs_witness:
  "\<exists>s' L. aesd_write first_fit opened [97, 10] 2 0 loaded = Some (Inr (Inr 2, 2, s')) \<and>
     unowned s' = L \<and> card L = 1"
proof -
  obtain s' where w: "aesd_write first_fit opened [97, 10] 2 0 loaded = Some (Inr (Inr 2, 2, s'))"
    using first_fit_write [of "[97, 10]"] by (auto simp: kmalloc_limit_def)
  have "unowned loaded = {}" by (simp add: unowned_def loaded(3))
  then show ?thesis
    using w write_leaks_structs [OF _ loaded(1) opened(1) _ w] calm_first_fit
    by (auto simp: calm_def kmalloc_limit_def loaded(2) split_cmds.simps newline_def cmd_len_def)
qed

text \<open>
  C16. A signal while the write waits for the lock. The call returns \<^verbatim>\<open>-ERESTARTSYS\<close> and the stored
  commands stay, but the unfinished command is lost: it was freed before the lock was taken.
\<close>

theorem write_interrupted_loses_rest:
  assumes "kenv_ok K" "reliable K" "dev_inv s" "private_data filp = AesdDevice"
    and "k_copy_from K (Suc (tick s)) = 0" "k_intr K (Suc (Suc (tick s)))"
    and "length (a_rest (abs_dev s)) + length ubuf < kmalloc_limit"
  shows "\<exists>s'. aesd_write K filp ubuf (of_nat (length ubuf)) pos s = Some (Inr (Inl ERESTARTSYS, pos, s')) \<and>
    dev_inv s' \<and> abs_dev s' = (abs_dev s)\<lparr>a_rest := []\<rparr>"
  using assms by (rule write_interrupted)

lemma signal_env: "kenv_ok (first_fit\<lparr>k_intr := \<lambda>t. True\<rparr>)" "reliable (first_fit\<lparr>k_intr := \<lambda>t. True\<rparr>)"
  using calm_first_fit by (simp_all add: calm_def kenv_ok_def reliable_def)

theorem write_interrupted_loses_rest_witness:
  "\<exists>s s'. a_rest (abs_dev s) = [98] \<and>
     aesd_write (first_fit\<lparr>k_intr := \<lambda>t. True\<rparr>) opened [99] 1 0 s = Some (Inr (Inl ERESTARTSYS, 0, s')) \<and>
     a_rest (abs_dev s') = []"
proof -
  obtain s where s: "dev_inv s" "abs_dev s = spec_write (abs_dev loaded) [98]"
    by (rule first_fit_write [of "[98]"]) (simp add: kmalloc_limit_def)
  have r: "a_rest (abs_dev s) = [98]"
    by (simp add: s(2) loaded(2) spec_write_def split_cmds.simps newline_def)
  obtain s' where "aesd_write (first_fit\<lparr>k_intr := \<lambda>t. True\<rparr>) opened [99] 1 0 s =
      Some (Inr (Inl ERESTARTSYS, 0, s'))" "abs_dev s' = (abs_dev s)\<lparr>a_rest := []\<rparr>"
    using write_interrupted_loses_rest [OF signal_env s(1) opened(1), of "[99]" 0] r
    by (auto simp: first_fit_def kmalloc_limit_def)
  with r show ?thesis by (intro exI [of _ s] exI [of _ s']) simp
qed

section \<open>Sequences of writes\<close>

text \<open>A client that writes the pieces one after the other and stops at the first error.\<close>

fun aesd_writes ::
  "kenv \<Rightarrow> kfile \<Rightarrow> byte list list \<Rightarrow> loff_t \<Rightarrow> kernel \<Rightarrow> ((errno + unit) \<times> loff_t \<times> kernel) run" where
  "aesd_writes K filp [] pos s = Some (Inr (Inr (), pos, s))"
| "aesd_writes K filp (ubuf # ubufs) pos s =
     rbind (aesd_write K filp ubuf (of_nat (length ubuf)) pos s) (\<lambda>(r, pos', s').
       case r of Inl e \<Rightarrow> Some (Inr (Inl e, pos', s')) | Inr _ \<Rightarrow> aesd_writes K filp ubufs pos' s')"

lemma abs_dev_fields: "a_cmds (abs_dev s) = dev_cmds s" "a_rest (abs_dev s) = dev_rest s"
  by (simp_all add: abs_dev_def)

lemma spec_write_rest_le: "length (a_rest (spec_write d bs)) \<le> length (a_rest d) + length bs"
  using arg_cong [OF concat_split_cmds [of "a_rest d @ bs"], of length]
  by (simp add: spec_write_def split_def Let_def)

lemma aesd_writes_spec:
  assumes "calm K" "dev_inv s" "private_data filp = AesdDevice"
    and "length (a_rest (abs_dev s)) + length (concat ubufs) < kmalloc_limit"
  shows "\<exists>s'. aesd_writes K filp ubufs pos s = Some (Inr (Inr (), pos + of_nat (length (concat ubufs)), s')) \<and>
    dev_inv s' \<and> abs_dev s' = foldl spec_write (abs_dev s) ubufs"
  using assms(2,4)
proof (induction ubufs arbitrary: s pos)
  case (Cons ub ubufs)
  have K: "kenv_ok K" "reliable K" "k_copy_from K (Suc (tick s)) = 0" "\<not> k_intr K (Suc (Suc (tick s)))"
    using assms(1) by (simp_all add: calm_def)
  obtain s1 where w: "aesd_write K filp ub (of_nat (length ub)) pos s =
      Some (Inr (Inr (of_nat (length ub)), pos + of_nat (length ub), s1))"
      "dev_inv s1" "abs_dev s1 = spec_write (abs_dev s) ub"
    using write_stores [OF K(1,2) Cons.prems(1) assms(3) K(3,4), of ub pos] Cons.prems(2)
    by (auto simp: abs_dev_fields)
  have "length (a_rest (abs_dev s1)) + length (concat ubufs) < kmalloc_limit"
    using spec_write_rest_le [of "abs_dev s" ub] Cons.prems(2) by (simp add: w(3))
  from Cons.IH [OF w(2) this, of "pos + of_nat (length ub)"] w show ?case by (auto simp: add.assoc)
qed simp

text \<open>
  C6. How user space cuts its data into writes does not matter. After loading the module and
  writing the pieces one after the other, the device holds the last ten complete commands of the
  concatenation and the rest behind the last newline, and the position is the number of bytes
  written.
\<close>

theorem writes_from_load:
  assumes "calm K" "finite (dom (heap s0))" "aesd_init_module 0 0 s0 = (0, s)"
    and "private_data filp = AesdDevice" "length (concat ubufs) < kmalloc_limit"
  shows "\<exists>s'. aesd_writes K filp ubufs 0 s = Some (Inr (Inr (), of_nat (length (concat ubufs)), s')) \<and>
    dev_inv s' \<and> a_cmds (abs_dev s') = lastn 10 (fst (split_cmds (concat ubufs))) \<and>
    a_rest (abs_dev s') = snd (split_cmds (concat ubufs))"
proof -
  have s: "dev_inv s" "abs_dev s = \<lparr>a_cmds = [], a_rest = []\<rparr>"
    using aesd_init_module_ok [of 0 s0] assms(2,3) by auto
  have "foldl spec_write (abs_dev s) ubufs = spec_write (abs_dev s) (concat ubufs)"
    using spec_write_foldl [of "abs_dev s" "hd ubufs" "tl ubufs"]
    by (cases ubufs) (simp_all add: s(2) spec_write_def split_cmds_no_newline)
  then show ?thesis
    using aesd_writes_spec [OF assms(1) s(1) assms(4), of ubufs 0] assms(5)
    by (auto simp: s(2) spec_write_def split_def Let_def)
qed

theorem writes_from_load_witness:
  "calm first_fit \<and> (\<exists>s'. aesd_writes first_fit opened [[97], [98, 10], [99]] 0 loaded = Some (Inr (Inr (), 4, s')) \<and>
    abs_dev s' = \<lparr>a_cmds = [[97, 98, 10]], a_rest = [99]\<rparr>)"
proof -
  have "aesd_init_module 0 0 blank = (0, loaded)"
    using aesd_init_module_ok [of 0 blank] by (auto simp: loaded_def blank_def)
  moreover have "finite (dom (heap blank))" by (simp add: blank_def)
  moreover have "split_cmds [97, 98, 10, 99] = ([[97, 98, 10]], [99])"
    by (simp add: split_cmds.simps newline_def cmd_len_def)
  ultimately show ?thesis
    using writes_from_load [OF calm_first_fit _ _ opened(1), of blank loaded "[[97], [98, 10], [99]]"] calm_first_fit
    by (auto simp: kmalloc_limit_def)
qed

section \<open>Reading\<close>

text \<open>
  C8. A read without a failure returns the bytes from the position to the end of the command
  there, at most as many as asked for. They are the bytes of the concatenated commands from that
  position on. It returns 0 only at the end of the data or for an empty request; the position
  advances by the bytes returned, and the device is as before.
\<close>

theorem read_refines:
  assumes "dev_inv s" "private_data filp = AesdDevice"
    and "\<not> k_intr K (tick s)" "k_copy_to K (Suc (tick s)) = 0" "unat count \<le> uspace"
  shows "\<exists>bs s' rest. aesd_read K filp uspace count pos s =
      Some (Inr (Inr (of_nat (length bs)), bs, pos + of_nat (length bs), s')) \<and>
    bs = spec_read (abs_dev s) (unat pos) (unat count) \<and>
    drop (unat pos) (concat (a_cmds (abs_dev s))) = bs @ rest \<and> length bs \<le> unat count \<and>
    (bs = [] \<longleftrightarrow> count = 0 \<or> length (concat (a_cmds (abs_dev s))) \<le> unat pos) \<and>
    dev_inv s' \<and> abs_dev s' = abs_dev s"
proof -
  let ?bs = "spec_read (abs_dev s) (unat pos) (unat count)"
  have len: "length ?bs \<le> unat count" by (auto simp: spec_read_def split: option.split)
  have nd: "private_data filp \<noteq> NoDev" using assms(2) by simp
  obtain rest where rest: "drop (unat pos) (spec_data (abs_dev s)) = ?bs @ rest"
    using spec_read_prefix by blast
  have e: "?bs = [] \<longleftrightarrow> count = 0 \<or> length (spec_data (abs_dev s)) \<le> unat pos"
    using spec_read_empty [of "abs_dev s" "unat pos" "unat count"] by (simp add: unat_eq_0)
  from assms(1) nd show ?thesis
  proof (cases rule: aesd_read_cases [of s filp K uspace count pos])
    case (data s')
    then show ?thesis
      using len rest e unfolding spec_data_def by (intro exI [of _ ?bs] exI [of _ s'] exI [of _ rest]) simp
  next
    case (fault bs' s')
    then show ?thesis using assms(4,5) len by (simp add: copy_left_zero_iff)
  qed (use assms(3) in simp)
qed

theorem read_refines_witness:
  "\<exists>s. abs_dev s = \<lparr>a_cmds = [[97, 98, 10]], a_rest = []\<rparr> \<and>
     (\<exists>s'. aesd_read first_fit opened 100 100 1 s = Some (Inr (Inr 2, [98, 10], 3, s')) \<and> abs_dev s' = abs_dev s)"
proof -
  obtain s where s: "dev_inv s" "abs_dev s = spec_write (abs_dev loaded) [97, 98, 10]"
    by (rule first_fit_write [of "[97, 98, 10]"]) (simp add: kmalloc_limit_def)
  have a: "abs_dev s = \<lparr>a_cmds = [[97, 98, 10]], a_rest = []\<rparr>"
    by (simp add: s(2) loaded(2) spec_write_def split_cmds.simps newline_def cmd_len_def)
  have "spec_read (abs_dev s) 1 100 = [98, 10]" by (simp add: spec_read_def a)
  then have "\<exists>s'. aesd_read first_fit opened 100 100 1 s = Some (Inr (Inr 2, [98, 10], 3, s')) \<and> abs_dev s' = abs_dev s"
    using read_refines [OF s(1) opened(1), of first_fit 100 100 1] calm_first_fit by (auto simp: calm_def)
  with a show ?thesis by blast
qed

text \<open>
  C9. Whatever the kernel does, a read in a good state returns, without a fault and without
  blocking. It never changes the stored data, frees nothing and leaks nothing, and an error
  leaves the position where it was.
\<close>

theorem read_safe:
  assumes "dev_inv s" "private_data filp = AesdDevice"
  shows "\<exists>r bs pos' s'. aesd_read K filp uspace count pos s = Some (Inr (r, bs, pos', s')) \<and>
    dev_inv s' \<and> abs_dev s' = abs_dev s \<and> unowned s' = unowned s \<and>
    (\<forall>e. r = Inl e \<longrightarrow> e \<in> {ERESTARTSYS, EFAULT} \<and> pos' = pos)"
proof -
  have nd: "private_data filp \<noteq> NoDev" using assms(2) by simp
  from assms(1) nd show ?thesis
    by (cases rule: aesd_read_cases [of s filp K uspace count pos]) (use assms(1) in auto)
qed

theorem read_safe_witness:
  "dev_inv loaded \<and> (\<exists>r bs pos' s'. aesd_read no_memory opened 0 5 0 loaded = Some (Inr (r, bs, pos', s')) \<and>
    dev_inv s' \<and> abs_dev s' = abs_dev loaded)"
  using read_safe [OF loaded(1) opened(1), of no_memory 0 5 0] loaded(1) by blast

section \<open>Seeking\<close>

lemma sum_list_bound: "\<forall>x\<in>set xs. f x < (b :: nat) \<Longrightarrow> sum_list (map f xs) \<le> length xs * b"
  by (induction xs) (auto simp: less_imp_le add_mono)

lemma dev_data_bound:
  assumes "dev_inv s"
  shows "length (dev_data s) \<le> 10 * kmalloc_limit"
proof -
  have "\<forall>c\<in>set (dev_cmds s). length c < kmalloc_limit"
    using mem_inv_live [OF dev_inv_mem [OF assms]]
    by (auto simp: dev_cmds_def list_all_iff elim!: live_entryE dest!: bspec)
  then have "length (dev_data s) \<le> length (dev_cmds s) * kmalloc_limit"
    unfolding length_dev_data by (rule sum_list_bound)
  also have "\<dots> \<le> 10 * kmalloc_limit" using cb_count_le by (intro mult_right_mono) simp_all
  finally show ?thesis .
qed

lemma pos_of_nat: "dev_inv s \<Longrightarrow> n \<le> length (dev_data s) \<Longrightarrow> unat (of_nat n :: loff_t) = n"
  using dev_data_bound [of s] by (intro unat_of_nat_lt) (simp add: kmalloc_limit_def)

text \<open>
  C14. Seeking with the ioctl. For a command that is stored and an offset inside it, the ioctl
  sets the position so that what can be read from there is the rest of that command from the
  offset on, followed by the later commands. The stored data does not change.
\<close>

theorem ioctl_seek:
  fixes seekto :: aesd_seekto
  assumes A: "ioc_ok A" and inv: "dev_inv s" and dev: "private_data filp = AesdDevice"
    and env: "k_copy_from K (tick s) = 0" "\<not> k_intr K (Suc (tick s))"
    and n: "n = unat (write_cmd seekto)" "n < length (a_cmds (abs_dev s))"
    and off: "off = unat (write_cmd_offset seekto)" "off \<le> length (a_cmds (abs_dev s) ! n)"
  shows "\<exists>pos s'. aesd_ioctl K A filp (AESDCHAR_IOCSEEKTO A) (Some seekto) s =
      Inr (Inr (), filp\<lparr>f_pos := pos\<rparr>, s') \<and>
    drop (unat pos) (concat (a_cmds (abs_dev s))) =
      drop off (a_cmds (abs_dev s) ! n) @ concat (drop (Suc n) (a_cmds (abs_dev s))) \<and>
    dev_inv s' \<and> abs_dev s' = abs_dev s"
proof -
  have nd: "private_data filp \<noteq> NoDev" "dev_inv (next_tick s)" using dev inv by simp_all
  have n10: "n < 10" using n(2) cb_count_le [of "dev_cb s"] by (simp add: abs_dev_fields)
  let ?cs = "dev_cmds s" and ?p = "length (concat (take n (dev_cmds s))) + off"
  have cs: "?cs = take n ?cs @ ?cs ! n # drop (Suc n) ?cs" using n(2) by (intro id_take_nth_drop) (simp add: abs_dev_fields)
  have data: "dev_data s = concat (take n ?cs) @ ?cs ! n @ concat (drop (Suc n) ?cs)"
    unfolding dev_data_def using arg_cong [OF cs, of concat] by simp
  then have u: "unat (of_nat ?p :: loff_t) = ?p"
    using off(2) by (intro pos_of_nat [OF inv]) (simp add: abs_dev_fields)
  have run: "aesd_ioctl K A filp (AESDCHAR_IOCSEEKTO A) (Some seekto) s =
      aesd_adjust_file_offset K filp seekto (next_tick s)"
    using A env by (simp add: aesd_ioctl_def AESDCHAR_IOCSEEKTO_def ioc_ok_def AESD_IOC_MAGIC_def AESDCHAR_IOC_MAXNR_def)
  have v: "dev_cmds (next_tick s) = ?cs" by simp
  from nd(2,1) show ?thesis
  proof (cases rule: aesd_adjust_cases [of "next_tick s" filp K seekto])
    case (moved s')
    have "drop (unat (of_nat ?p :: loff_t)) (dev_data s) = drop off (?cs ! n) @ concat (drop (Suc n) ?cs)"
      unfolding u data using off(2) by (simp add: abs_dev_fields)
    with moved show ?thesis
      by (intro exI [of _ "of_nat ?p"] exI [of _ s']) (simp add: run n(1) off(1) abs_dev_fields dev_data_def [symmetric])
  qed (use n10 n off env in \<open>auto simp: abs_dev_fields\<close>)
qed

text \<open>The kernel's encoding of ioctl numbers, as the generic headers have it.\<close>

definition linux_ioc :: ioc_abi where
  "linux_ioc = \<lparr>IOC_TYPE = \<lambda>c. of_nat (unat c div 2 ^ 8 mod 2 ^ 8), IOC_NR = \<lambda>c. of_nat (unat c mod 2 ^ 8),
     IOWR = \<lambda>ty nr sz. of_nat (unat nr + 2 ^ 8 * unat ty + 2 ^ 16 * sz + 3 * 2 ^ 30)\<rparr>"

lemma linux_ioc_ok: "ioc_ok linux_ioc"
  unfolding ioc_ok_def
proof (intro allI impI)
  fix ty nr :: u32 and sz :: nat
  assume h: "ty < 256" "nr < 256" "sz < 2 ^ 13"
  let ?c = "unat nr + 2 ^ 8 * unat ty + 2 ^ 16 * sz + 3 * 2 ^ 30"
  have b: "unat ty < 256" "unat nr < 256" using h(1,2) by (simp_all add: word_less_nat_alt)
  have u: "unat (of_nat ?c :: u32) = ?c"
    by (rule unat_of_nat_lt) (use b h(3) in simp)
  have eq: "?c = unat nr + 256 * (unat ty + 256 * (sz + 49152))" by simp
  have mod: "(a + 256 * x) mod 256 = a" "(a + 256 * x) div 256 = x" if "a < 256" for a x :: nat
    using that by simp_all
  have "?c mod 256 = unat nr" "?c div 256 mod 256 = unat ty"
    unfolding eq mod [OF b(2)] by (rule refl) (rule mod(1) [OF b(1)])
  then show "IOC_TYPE linux_ioc (IOWR linux_ioc ty nr sz) = ty \<and> IOC_NR linux_ioc (IOWR linux_ioc ty nr sz) = nr"
    using u by (simp add: linux_ioc_def)
qed

theorem ioctl_seek_witness:
  "ioc_ok linux_ioc \<and> (\<exists>s. abs_dev s = \<lparr>a_cmds = [[97, 10], [98, 99, 10]], a_rest = []\<rparr> \<and>
     (\<exists>pos s'. aesd_ioctl first_fit linux_ioc opened (AESDCHAR_IOCSEEKTO linux_ioc)
        (Some \<lparr>write_cmd = 1, write_cmd_offset = 1\<rparr>) s = Inr (Inr (), opened\<lparr>f_pos := pos\<rparr>, s') \<and>
      drop (unat pos) [97, 10, 98, 99, 10 :: byte] = [99, 10]))"
proof -
  obtain s where s: "dev_inv s" "abs_dev s = spec_write (abs_dev loaded) [97, 10, 98, 99, 10]"
    by (rule first_fit_write [of "[97, 10, 98, 99, 10]"]) (simp add: kmalloc_limit_def)
  have a: "abs_dev s = \<lparr>a_cmds = [[97, 10], [98, 99, 10]], a_rest = []\<rparr>"
    by (simp add: s(2) loaded(2) spec_write_def split_cmds.simps newline_def cmd_len_def)
  show ?thesis
    using ioctl_seek [OF linux_ioc_ok s(1) opened(1), of first_fit 1 "\<lparr>write_cmd = 1, write_cmd_offset = 1\<rparr>" 1]
      calm_first_fit linux_ioc_ok a by (auto simp: calm_def)
qed

text \<open>
  C15. Which seeks are accepted. Without a signal the request succeeds if and only if the command
  number is below ten and the offset is at most the length of that command, where a command that
  is not stored counts as length 0. So the position one past the end of a command and a command
  that does not exist are accepted. Every other request gives \<^verbatim>\<open>-EINVAL\<close> and leaves the file and
  the stored data alone.
\<close>

theorem seek_accepted_iff:
  fixes seekto :: aesd_seekto
  assumes "dev_inv s" "private_data filp = AesdDevice" "\<not> k_intr K (tick s)"
  defines "n \<equiv> unat (write_cmd seekto)" and "off \<equiv> unat (write_cmd_offset seekto)"
    and "cmds \<equiv> a_cmds (abs_dev s)"
  shows "\<exists>r filp' s'. aesd_adjust_file_offset K filp seekto s = Inr (r, filp', s') \<and> dev_inv s' \<and>
    abs_dev s' = abs_dev s \<and>
    (if n < 10 \<and> off \<le> (if n < length cmds then length (cmds ! n) else 0)
     then r = Inr () \<and> filp' = filp\<lparr>f_pos := of_nat (length (concat (take n cmds)) + off)\<rparr>
     else r = Inl EINVAL \<and> filp' = filp)"
proof -
  have nd: "private_data filp \<noteq> NoDev" using assms(2) by simp
  note fold = n_def [symmetric] off_def [symmetric]
  have c: "cmds = dev_cmds s" by (simp add: cmds_def abs_dev_fields)
  from assms(1) nd show ?thesis
  proof (cases rule: aesd_adjust_cases [of s filp K seekto])
    case range
    then show ?thesis using assms(1) unfolding fold by simp
  next
    case (offset s')
    then show ?thesis unfolding fold c by (auto split: if_splits)
  next
    case (moved s')
    then show ?thesis unfolding fold c by auto
  qed (use assms(3) in simp)
qed

theorem seek_accepted_iff_witness:
  "\<exists>filp' s'. aesd_adjust_file_offset first_fit opened \<lparr>write_cmd = 9, write_cmd_offset = 0\<rparr> loaded =
     Inr (Inr (), filp', s') \<and> a_cmds (abs_dev loaded) = []"
  using seek_accepted_iff [OF loaded(1) opened(1), of first_fit "\<lparr>write_cmd = 9, write_cmd_offset = 0\<rparr>"] calm_first_fit
  by (auto simp: calm_def loaded(2))

text \<open>
  C16. The errors of the ioctl: a number of another driver, a number above the driver's own and any
  number but the seek give \<^verbatim>\<open>-ENOTTY\<close>, and an unreadable argument gives \<^verbatim>\<open>-EFAULT\<close>; nothing else
  happens. No ioctl changes the stored data or the memory the driver owns.
\<close>

theorem ioctl_errors:
  assumes "dev_inv s" "private_data filp = AesdDevice"
  shows "\<exists>r filp' s'. aesd_ioctl K A filp cmd arg s = Inr (r, filp', s') \<and> dev_inv s' \<and>
    abs_dev s' = abs_dev s \<and> unowned s' = unowned s \<and>
    (IOC_TYPE A cmd \<noteq> AESD_IOC_MAGIC \<or> 1 < IOC_NR A cmd \<or> cmd \<noteq> AESDCHAR_IOCSEEKTO A \<longrightarrow>
       r = Inl ENOTTY \<and> filp' = filp \<and> s' = s) \<and>
    (IOC_TYPE A cmd = AESD_IOC_MAGIC \<and> IOC_NR A cmd \<le> 1 \<and> cmd = AESDCHAR_IOCSEEKTO A \<and> arg = None \<longrightarrow>
       r = Inl EFAULT \<and> filp' = filp)"
proof -
  obtain r filp' s' where r: "aesd_ioctl K A filp cmd arg s = Inr (r, filp', s')" "dev_inv s'"
      "abs_dev s' = abs_dev s" "unowned s' = unowned s"
    using aesd_ioctl_keeps [OF assms, of K A cmd arg] by blast
  then show ?thesis
    by (intro exI [of _ r] exI [of _ filp'] exI [of _ s']) (auto simp: aesd_ioctl_def AESDCHAR_IOC_MAXNR_def split: if_splits)
qed

theorem ioctl_errors_witness:
  "\<exists>s'. aesd_ioctl first_fit linux_ioc opened 0 None loaded = Inr (Inl ENOTTY, opened, s')"
  using ioctl_errors [OF loaded(1) opened(1), of first_fit linux_ioc 0 None]
  by (auto simp: linux_ioc_def AESD_IOC_MAGIC_def)

lemma unat_of_negative:
  assumes "sint (p :: loff_t) < 0"
  shows "2 ^ 63 \<le> unat p"
proof (rule ccontr)
  assume "\<not> 2 ^ 63 \<le> unat p"
  then have "\<not> bit (unat p) 63" by (simp add: bit_iff_odd)
  moreover have "bit p 63" using assms bit_last_iff [of p] by simp
  ultimately show False by (simp add: bit_unsigned_iff)
qed

text \<open>
  C17. \<^verbatim>\<open>lseek\<close> hands the kernel helper the exact number of readable bytes as the size of the file,
  and the value the helper returns becomes the position. That includes an error: after a helper
  that reports an error as a negative number, the position is that number, and a read from it
  returns 0 bytes although data may be stored.
\<close>

theorem llseek_position:
  fixes llseek :: llseek_fn and offset :: loff_t and whence :: int
  assumes "dev_inv s" "private_data filp = AesdDevice" "\<not> k_intr K (tick s)"
  defines "p \<equiv> llseek (f_pos filp) offset whence (of_nat (length (concat (a_cmds (abs_dev s)))))"
  shows "\<exists>s'. aesd_llseek K llseek filp offset whence s = Inr (Inr p, filp\<lparr>f_pos := p\<rparr>, s') \<and>
    dev_inv s' \<and> abs_dev s' = abs_dev s \<and>
    (sint p < 0 \<longrightarrow> (\<forall>n. spec_read (abs_dev s') (unat p) n = []))"
proof -
  have nd: "private_data filp \<noteq> NoDev" using assms(2) by simp
  have p: "p = llseek (f_pos filp) offset whence (of_nat (length (dev_data s)))"
    by (simp add: p_def abs_dev_fields dev_data_def)
  have big: "length (dev_data s) \<le> unat p" if "sint p < 0"
  proof -
    have "2 ^ 63 \<le> unat p" using that by (rule unat_of_negative)
    then show ?thesis using dev_data_bound [OF assms(1)] by (simp add: kmalloc_limit_def)
  qed
  from assms(1) nd show ?thesis
  proof (cases rule: aesd_llseek_cases [of s filp K llseek offset whence])
    case (moved s')
    then show ?thesis
      using big spec_read_empty [of "abs_dev s" "unat p"] unfolding p [symmetric] by auto
  qed (use assms(3) in simp)
qed

theorem llseek_position_witness:
  "\<exists>s'. aesd_llseek first_fit (\<lambda>pos offset whence size. - 22) opened 5 9 loaded =
     Inr (Inr (- 22), opened\<lparr>f_pos := - 22\<rparr>, s') \<and> (\<forall>n. spec_read (abs_dev s') (unat (- 22 :: loff_t)) n = [])"
  using llseek_position [OF loaded(1) opened(1), of first_fit "\<lambda>pos offset whence size. - 22" 5 9] calm_first_fit
  by (auto simp: calm_def)

section \<open>Loading, unloading and all histories\<close>

text \<open>
  Loading the module: when the registration succeeds the device is empty, unlocked and in a
  good state, and memory is untouched; when one of the two registrations fails the error is
  returned and no device number stays allocated that was not allocated before.
\<close>

theorem init_establishes:
  assumes "finite (dom (heap s))"
  shows "case aesd_init_module alloc_result add_result s of (r, s') \<Rightarrow>
    heap s' = heap s \<and>
    (0 \<le> alloc_result \<and> add_result = 0 \<longrightarrow> r = 0 \<and> dev_inv s' \<and> region s' \<and> cdev (aesd_device s') \<and>
       abs_dev s' = \<lparr>a_cmds = [], a_rest = []\<rparr>) \<and>
    (0 \<le> alloc_result \<and> add_result \<noteq> 0 \<longrightarrow> r = add_result \<and> \<not> region s' \<and> \<not> cdev (aesd_device s')) \<and>
    (alloc_result < 0 \<longrightarrow> r = alloc_result \<and> s' = s)"
proof (cases "0 \<le> alloc_result \<and> add_result = 0")
  case True
  then show ?thesis using aesd_init_module_ok [OF _ assms, of alloc_result] by auto
next
  case False
  then show ?thesis by (auto simp: aesd_init_module_def aesd_setup_cdev_def Let_def set_cb_def upd_dev_def)
qed

theorem init_establishes_witness:
  "fst (aesd_init_module 0 (- 12) blank) = - 12 \<and> \<not> region (snd (aesd_init_module 0 (- 12) blank)) \<and>
   dev_inv (snd (aesd_init_module 0 0 blank))"
  using init_establishes [of blank 0 "- 12"] init_establishes [of blank 0 0]
  by (auto simp: blank_def split: prod.splits)

text \<open>
  C18. Unloading the module in a good state never frees a block twice or a pointer that is not the
  start of a block. It frees every block the device owns and no other: what stays allocated is
  exactly the memory that no pointer of the device reached before. No pointer to freed memory is
  left in the device, and the registrations are undone.
\<close>

theorem cleanup_frees_all:
  assumes "dev_inv s"
  shows "\<exists>s'. aesd_cleanup_module s = Inr s' \<and> dom (heap s') = unowned s \<and>
    (\<forall>a\<in>unowned s. heap s' a = heap s a) \<and>
    (\<forall>e\<in>set (entry (dev_cb s')). buffptr e = NULL) \<and> dev_partial s' = null_entry \<and>
    \<not> region s' \<and> \<not> cdev (aesd_device s')"
  using assms by (rule aesd_cleanup_ok)

theorem cleanup_frees_all_witness:
  "\<exists>s s'. a_cmds (abs_dev s) = [[97, 10]] \<and> aesd_cleanup_module s = Inr s' \<and> dom (heap s') = unowned s"
proof -
  obtain s where s: "dev_inv s" "abs_dev s = spec_write (abs_dev loaded) [97, 10]"
    by (rule first_fit_write [of "[97, 10]"]) (simp add: kmalloc_limit_def)
  have "a_cmds (abs_dev s) = [[97, 10]]"
    by (simp add: s(2) loaded(2) spec_write_def split_cmds.simps newline_def cmd_len_def)
  then show ?thesis using cleanup_frees_all [OF s(1)] by blast
qed

text \<open>
  C4. In every state a loaded driver can get into, by any sequence of operations and whatever the
  kernel does, the device is in a good state: every stored pointer is the start of a live block of
  the recorded size, no block is referred to twice, the lock is free. At most ten commands are
  stored, each ends with a newline and has no other, and the unfinished command has none.
\<close>

theorem driver_invariant:
  assumes "drv_reach s"
  shows "dev_inv s \<and> length (a_cmds (abs_dev s)) \<le> 10 \<and> newline \<notin> set (a_rest (abs_dev s)) \<and>
    (\<forall>c\<in>set (a_cmds (abs_dev s)). c \<noteq> [] \<and> last c = newline \<and> newline \<notin> set (butlast c))"
  using drv_reach_inv [OF assms] by (auto simp: drv_inv_def abs_ok_def cmd_ok_def)

lemma reach_loaded: "drv_reach loaded"
proof (rule reach_load)
  show "aesd_init_module 0 0 blank = (0, loaded)"
    using aesd_init_module_ok [of 0 blank] by (auto simp: loaded_def blank_def)
qed (simp_all add: blank_def)

theorem driver_invariant_witness:
  "\<exists>s. drv_reach s \<and> a_cmds (abs_dev s) = [[97, 10]] \<and> dev_inv s"
proof -
  obtain s where s: "aesd_write first_fit opened [97, 10] (of_nat (length [97 :: byte, 10])) 0 loaded =
      Some (Inr (Inr (of_nat (length [97 :: byte, 10])), of_nat (length [97 :: byte, 10]), s))"
    "abs_dev s = spec_write (abs_dev loaded) [97, 10]"
    by (rule first_fit_write [of "[97, 10]"]) (simp add: kmalloc_limit_def)
  have "drv_reach s"
    using calm_first_fit reach_loaded
    by (intro reach_step [OF reach_loaded] step_write [OF _ _ _ s(1)]) (simp_all add: calm_def kmalloc_limit_def)
  moreover have "a_cmds (abs_dev s) = [[97, 10]]"
    by (simp add: s(2) loaded(2) spec_write_def split_cmds.simps newline_def cmd_len_def)
  ultimately show ?thesis using driver_invariant by blast
qed

definition second_fails :: kenv where
  "second_fails = \<lparr>k_alloc = \<lambda>t h n. if t = 0 \<and> h = Map.empty \<and> n < kmalloc_limit then Some (0, replicate n 0) else None,
     k_copy_from = \<lambda>t. 0, k_copy_to = \<lambda>t. 0, k_intr = \<lambda>t. False\<rparr>"

text \<open>
  The null pointer write is real: with one command to store and a kernel in which only the
  second allocation fails, a write to a freshly loaded device dereferences a null pointer. The
  result of the allocation of the struct for the entry is used without a check.
\<close>

theorem write_null_dereference:
  "kenv_ok second_fails \<and> dev_inv loaded \<and>
   aesd_write second_fails opened [97, 10] 2 0 loaded = Some (Inl Null_Deref)"
proof -
  have ok: "kenv_ok second_fails" by (simp add: kenv_ok_def second_fails_def)
  have l: "dev_partial loaded = null_entry" "\<not> lock (aesd_device loaded)"
    by (simp_all add: loaded_def blank_def aesd_init_module_def aesd_setup_cdev_def Let_def)
  define s1 where "s1 = set_block 0 (Some (Bytes [97, 10]))
    (next_tick (next_tick (set_block 0 (Some (Bytes (replicate 2 0))) loaded)))"
  have v: "heap s1 = [0 \<mapsto> Bytes [97, 10]]" "tick s1 = 2" "\<not> lock (aesd_device s1)"
    by (simp_all add: s1_def loaded(3,4) l)
  have g: "write_gather second_fails [97, 10] 2 loaded = Inr (None, \<lparr>buffptr = Ptr 0 0, esize = 2\<rparr>, s1)"
    by (simp add: write_gather_def Let_def kmalloc_def second_fails_def loaded(3,4) l null_entry_def kmalloc_limit_def
        copy_partial_def copy_from_user_def copy_left_def mem_simps release_partial_def s1_def ptr_add_def)
  define s2 where "s2 = upd_dev (lock_update (\<lambda>_. True)) (next_tick s1)"
  have lk: "mutex_lock_interruptible second_fails s1 = Inr (False, s2)"
    using v(3) by (simp add: mutex_lock_interruptible_def second_fails_def s2_def)
  have nl: "memchr (Ptr 0 0) newline 2 s2 = Inr (Ptr 0 (Suc 0))"
    by (simp add: s2_def v mem_simps newline_def)
  have body: "write_body second_fails (\<lparr>buffptr = Ptr 0 0, esize = 2\<rparr>, Ptr 0 (Suc 0), s2) = Inl Null_Deref"
    by (simp add: write_body_def Let_def kmalloc_def second_fails_def kmemdup_def store_entry_def s2_def v)
  have "aesd_write second_fails opened [97, 10] 2 0 loaded = Some (Inl Null_Deref)"
    by (simp add: aesd_write_def Let_def g lk nl run_loop_step(1) [of "write_body second_fails", OF body])
  with ok loaded(1) show ?thesis by blast
qed

end
