(* ===== verification/Driver_Steps.thy ===== *)
theory Driver_Steps
  imports Driver_Properties
begin

text \<open>
  The calls of the driver as sequences of steps, between which another process may run.
  \<^verbatim>\<open>aesd_write\<close> of \<^verbatim>\<open>main.c\<close> handles the unfinished command of the device before it takes the lock; so
  a write is cut at every access to the device before the lock, at every round of its loop and at
  every call after it, with its local variables in the step it has reached. The other calls, a read
  and the two ways to seek (the queries), take the lock first: they are cut where they take and
  release it. Alone, the steps of a call are the call (\<open>alone_is_call\<close>).
\<close>

section \<open>A write in steps\<close>

record wargs =
  wa_filp :: kfile
  wa_buf :: "byte list"
  wa_count :: size_t
  wa_pos :: loff_t

datatype wstate =
    W_Start
  | W_Copy aesd_buffer_entry
  | W_User aesd_buffer_entry
  | W_Test aesd_buffer_entry
  | W_Free aesd_buffer_entry
  | W_Null aesd_buffer_entry
  | W_Size aesd_buffer_entry
  | W_Lock aesd_buffer_entry
  | W_Loop cptr aesd_buffer_entry cptr
  | W_Finish cptr "errno option" aesd_buffer_entry
  | W_Out cptr "errno + size_t" loff_t
  | W_Done "errno + size_t" loff_t

text \<open>A write that has returned makes no step; it is left where it is.\<close>

fun wstep :: "kenv \<Rightarrow> wargs \<Rightarrow> wstate \<Rightarrow> kernel \<Rightarrow> (wstate \<times> kernel) checked" where
  "wstep K a W_Start s =
     (if private_data (wa_filp a) = NoDev then Inl Null_Deref else
      let combined_count = esize (dev_partial s) + wa_count a;
          (buffer, s1) = kmalloc K (unat combined_count) s
      in if buffer = NULL then Inr (W_Out buffer (Inl ENOMEM) (wa_pos a), s1)
         else Inr (W_Copy \<lparr>buffptr = buffer, esize = combined_count\<rparr>, s1))"
| "wstep K a (W_Copy working) s = cbind (copy_partial (buffptr working) s) (\<lambda>s1. Inr (W_User working, s1))"
| "wstep K a (W_User working) s =
     cbind (copy_from_user K (ptr_add (buffptr working) (unat (esize (dev_partial s))))
              (wa_buf a) (unat (wa_count a)) s) (\<lambda>(left, s1).
     Inr (if left \<noteq> 0 then W_Out (buffptr working) (Inl ENOMEM) (wa_pos a) else W_Test working, s1))"
| "wstep K a (W_Test working) s =
     Inr (if buffptr (dev_partial s) \<noteq> NULL then W_Free working else W_Lock working, s)"
| "wstep K a (W_Free working) s =
     cbind (kfree_const (buffptr (dev_partial s)) s) (\<lambda>s1. Inr (W_Null working, s1))"
| "wstep K a (W_Null working) s = Inr (W_Size working, set_partial NULL (esize (dev_partial s)) s)"
| "wstep K a (W_Size working) s = Inr (W_Lock working, set_partial (buffptr (dev_partial s)) 0 s)"
| "wstep K a (W_Lock working) s =
     cbind (mutex_lock_interruptible K s) (\<lambda>(interrupted, s1).
     if interrupted then Inr (W_Out (buffptr working) (Inl ERESTARTSYS) (wa_pos a), s1)
     else cbind (memchr (buffptr working) newline (unat (esize working)) s1) (\<lambda>nl.
          Inr (W_Loop (buffptr working) working nl, s1)))"
| "wstep K a (W_Loop buffer working nl) s =
     cbind (write_body K (working, nl, s)) (\<lambda>r.
     case r of
       Inl (working', nl', s1) \<Rightarrow> Inr (W_Loop buffer working' nl', s1)
     | Inr (err, working', s1) \<Rightarrow> Inr (W_Finish buffer err working', s1))"
| "wstep K a (W_Finish buffer err working) s =
     cbind (write_finish K (wa_count a) (wa_pos a) (err, working, s)) (\<lambda>(retval, pos, s1).
     Inr (W_Out buffer retval pos, s1))"
| "wstep K a (W_Out buffer retval pos) s = cbind (kfree_const buffer s) (\<lambda>s1. Inr (W_Done retval pos, s1))"
| "wstep K a (W_Done retval pos) s = Inr (W_Done retval pos, s)"

text \<open>The steps of one write without others.\<close>

definition solo :: "kenv \<Rightarrow> wargs \<Rightarrow> wstate \<times> kernel \<Rightarrow>
    ((wstate \<times> kernel) + ((errno + size_t) \<times> loff_t \<times> kernel)) checked" where
  "solo K a = (\<lambda>(w, s). case w of
       W_Done retval pos \<Rightarrow> Inr (Inr (retval, pos, s))
     | _ \<Rightarrow> cbind (wstep K a w s) (\<lambda>x. Inr (Inl x)))"

section \<open>Alone, the steps of a write are the call\<close>

lemma solo_done: "run_loop (solo K a) (W_Done retval pos, s) = Some (Inr (retval, pos, s))"
  by (intro run_loop_step) (simp add: solo_def)

lemma solo_step:
  assumes "\<forall>retval pos. w \<noteq> W_Done retval pos"
  shows "run_loop (solo K a) (w, s) = rbind (Some (wstep K a w s)) (run_loop (solo K a))"
proof -
  have "solo K a (w, s) = cbind (wstep K a w s) (\<lambda>x. Inr (Inl x))" using assms by (cases w) (simp_all add: solo_def)
  then show ?thesis by (cases "wstep K a w s") (simp_all add: run_loop_step)
qed

lemma solo_out: "run_loop (solo K a) (W_Out b retval pos, s) = write_out b retval pos s"
  by (cases "kfree_const b s") (simp_all add: solo_step solo_done write_out_def)

lemma solo_finish:
  "run_loop (solo K a) (W_Finish b err working, s) = finish_out K (wa_count a) (wa_pos a) b (err, working, s)"
  by (cases "write_finish K (wa_count a) (wa_pos a) (err, working, s)")
    (simp_all add: solo_step solo_out finish_out_def split: prod.splits)

lemma solo_loop:
  "run_loop (solo K a) (W_Loop b working nl, s) =
     rbind (run_loop (write_body K) (working, nl, s)) (finish_out K (wa_count a) (wa_pos a) b)"
proof -
  let ?emb = "\<lambda>(working, nl, s). (W_Loop b working nl, s)" and ?fin = "\<lambda>(err, working, s). (W_Finish b err working, s)"
  have "solo K a (?emb x) = (case write_body K x of Inl f \<Rightarrow> Inl f
      | Inr y \<Rightarrow> Inr (Inl (case y of Inl x' \<Rightarrow> ?emb x' | Inr r \<Rightarrow> ?fin r)))" for x
    by (cases x) (auto simp: solo_def split: sum.splits prod.splits)
  from run_loop_inside [where outer = "solo K a" and emb = ?emb and body = "write_body K" and fin = ?fin, OF this,
      of "(working, nl, s)"]
  show ?thesis by (auto simp: solo_finish rbind_def split: option.splits sum.splits prod.splits)
qed

lemma solo_lock:
  "run_loop (solo K a) (W_Lock working, s) =
     rbind (Some (mutex_lock_interruptible K s)) (\<lambda>(interrupted, s5).
       if interrupted then write_out (buffptr working) (Inl ERESTARTSYS) (wa_pos a) s5
       else rbind (Some (memchr (buffptr working) newline (unat (esize working)) s5)) (\<lambda>nl.
            rbind (run_loop (write_body K) (working, nl, s5)) (\<lambda>r.
            finish_out K (wa_count a) (wa_pos a) (buffptr working) r)))"
  by (auto simp: solo_step solo_out solo_loop rbind_def cbind_def split: sum.splits prod.splits option.splits)

lemma set_partial_twice [simp]: "set_partial p m (set_partial q n s) = set_partial p m s"
  by (simp add: set_partial_def upd_dev_def)

lemma solo_test:
  "run_loop (solo K a) (W_Test working, s) =
     rbind (Some (release_partial s)) (\<lambda>s4. run_loop (solo K a) (W_Lock working, s4))"
proof (cases "kfree_const (buffptr (dev_partial s)) s")
  case (Inr s')
  then show ?thesis by (simp add: solo_step [of "W_Test _"] solo_step [of "W_Free _"] solo_step [of "W_Null _"]
      solo_step [of "W_Size _"] release_partial_def)
qed (simp add: solo_step [of "W_Test _"] solo_step [of "W_Free _"] release_partial_def)

lemma solo_is_aesd_write:
  "run_loop (solo K a) (W_Start, s) = aesd_write K (wa_filp a) (wa_buf a) (wa_count a) (wa_pos a) s"
proof (cases "private_data (wa_filp a) = NoDev")
  case True
  then show ?thesis by (simp add: solo_step [of W_Start] aesd_write_def)
next
  case False
  show ?thesis
    unfolding aesd_write_unfold [OF False] write_gather_def
    using False by (auto simp: solo_step [of W_Start] solo_step [of "W_Copy _"] solo_step [of "W_User _"] solo_test solo_out Let_def
        solo_lock rbind_def cbind_def split: prod.splits sum.splits option.splits)
qed

section \<open>The calls that only look\<close>

datatype query =
    Q_Read kfile nat size_t loff_t
  | Q_Llseek kfile loff_t int
  | Q_Seek kfile aesd_seekto

datatype answer =
    A_Write "errno + size_t" loff_t
  | A_Read "errno + size_t" "byte list" loff_t
  | A_Llseek "errno + loff_t" kfile
  | A_Seek "errno + unit" kfile

fun q_filp :: "query \<Rightarrow> kfile" where
  "q_filp (Q_Read filp uspace count pos) = filp"
| "q_filp (Q_Llseek filp offset whence) = filp"
| "q_filp (Q_Seek filp seekto) = filp"

text \<open>The answers before the lock is held: to a seek that is refused at once, and when the wait is interrupted.\<close>

fun q_refused :: "query \<Rightarrow> answer option" where
  "q_refused (Q_Seek filp seekto) = (if unat (write_cmd seekto) \<ge> MAXW then Some (A_Seek (Inl EINVAL) filp) else None)"
| "q_refused _ = None"

fun q_interrupted :: "query \<Rightarrow> answer" where
  "q_interrupted (Q_Read filp uspace count pos) = A_Read (Inl ERESTARTSYS) [] pos"
| "q_interrupted (Q_Llseek filp offset whence) = A_Llseek (Inl ERESTARTSYS) filp"
| "q_interrupted (Q_Seek filp seekto) = A_Seek (Inl ERESTARTSYS) filp"

fun q_locked :: "kenv \<Rightarrow> llseek_fn \<Rightarrow> query \<Rightarrow> kernel \<Rightarrow> (answer \<times> kernel) run" where
  "q_locked K L (Q_Read filp uspace count pos) s =
     rbind (read_locked K uspace count pos s) (\<lambda>(retval, bs, pos', s1). Some (Inr (A_Read retval bs pos', s1)))"
| "q_locked K L (Q_Llseek filp offset whence) s =
     (let (retval, filp') = llseek_locked L filp offset whence s in Some (Inr (A_Llseek retval filp', s)))"
| "q_locked K L (Q_Seek filp seekto) s =
     (let (retval, filp') = adjust_locked filp seekto s in Some (Inr (A_Seek retval filp', s)))"

datatype qstate =
    Q_Enter
  | Q_Locked
  | Q_Unlock answer
  | Q_Return answer

fun qstep :: "kenv \<Rightarrow> llseek_fn \<Rightarrow> query \<Rightarrow> qstate \<Rightarrow> kernel \<Rightarrow> (qstate \<times> kernel) run" where
  "qstep K L q Q_Enter s =
     (case q_refused q of
        Some ans \<Rightarrow> Some (Inr (Q_Return ans, s))
      | None \<Rightarrow>
          if private_data (q_filp q) = NoDev then Some (Inl Null_Deref)
          else rbind (Some (mutex_lock_interruptible K s)) (\<lambda>(interrupted, s1).
               Some (Inr (if interrupted then Q_Return (q_interrupted q) else Q_Locked, s1))))"
| "qstep K L q Q_Locked s = rbind (q_locked K L q s) (\<lambda>(ans, s1). Some (Inr (Q_Unlock ans, s1)))"
| "qstep K L q (Q_Unlock ans) s = Some (Inr (Q_Return ans, mutex_unlock s))"
| "qstep K L q (Q_Return ans) s = Some (Inr (Q_Return ans, s))"

section \<open>All calls\<close>

datatype call =
    C_Write wargs
  | C_Query query

datatype pstate =
    P_Write wstate
  | P_Query qstate

fun call_start :: "call \<Rightarrow> pstate" where
  "call_start (C_Write a) = P_Write W_Start"
| "call_start (C_Query q) = P_Query Q_Enter"

fun outcome :: "pstate \<Rightarrow> answer option" where
  "outcome (P_Write (W_Done retval pos)) = Some (A_Write retval pos)"
| "outcome (P_Query (Q_Return ans)) = Some ans"
| "outcome _ = None"

text \<open>A call is never in the states of a call of the other kind; it would stay there.\<close>

fun call_step :: "kenv \<Rightarrow> llseek_fn \<Rightarrow> call \<Rightarrow> pstate \<Rightarrow> kernel \<Rightarrow> (pstate \<times> kernel) run" where
  "call_step K L (C_Write a) (P_Write w) s = rbind (Some (wstep K a w s)) (\<lambda>(w', s'). Some (Inr (P_Write w', s')))"
| "call_step K L (C_Query q) (P_Query w) s = rbind (qstep K L q w s) (\<lambda>(w', s'). Some (Inr (P_Query w', s')))"
| "call_step K L _ p s = Some (Inr (p, s))"

definition alone :: "kenv \<Rightarrow> llseek_fn \<Rightarrow> call \<Rightarrow> pstate \<times> kernel \<Rightarrow> ((pstate \<times> kernel) + (answer \<times> kernel)) run" where
  "alone K L c = (\<lambda>(p, s). case outcome p of
       Some ans \<Rightarrow> Some (Inr (Inr (ans, s)))
     | None \<Rightarrow> rbind (call_step K L c p s) (\<lambda>x. Some (Inr (Inl x))))"

text \<open>The functions of \<^verbatim>\<open>main.c\<close>, with their results as answers.\<close>

fun whole_call :: "kenv \<Rightarrow> llseek_fn \<Rightarrow> call \<Rightarrow> kernel \<Rightarrow> (answer \<times> kernel) run" where
  "whole_call K L (C_Write a) s =
     rbind (aesd_write K (wa_filp a) (wa_buf a) (wa_count a) (wa_pos a) s) (\<lambda>(retval, pos, s').
       Some (Inr (A_Write retval pos, s')))"
| "whole_call K L (C_Query (Q_Read filp uspace count pos)) s =
     rbind (aesd_read K filp uspace count pos s) (\<lambda>(retval, bs, pos', s'). Some (Inr (A_Read retval bs pos', s')))"
| "whole_call K L (C_Query (Q_Llseek filp offset whence)) s =
     rbind (Some (aesd_llseek K L filp offset whence s)) (\<lambda>(retval, filp', s'). Some (Inr (A_Llseek retval filp', s')))"
| "whole_call K L (C_Query (Q_Seek filp seekto)) s =
     rbind (Some (aesd_adjust_file_offset K filp seekto s)) (\<lambda>(retval, filp', s'). Some (Inr (A_Seek retval filp', s')))"

lemma alone_write:
  "run_iter (alone K L (C_Write a)) (P_Write w, s) =
     rbind (run_loop (solo K a) (w, s)) (\<lambda>(retval, pos, s'). Some (Inr (A_Write retval pos, s')))"
proof -
  let ?emb = "\<lambda>(w, s). (P_Write w, s)" and ?g = "\<lambda>(retval, pos, s'). (A_Write retval pos, s')"
  have "alone K L (C_Write a) (?emb x) = Some (case solo K a x of Inl f \<Rightarrow> Inl f
      | Inr y \<Rightarrow> Inr (case y of Inl x' \<Rightarrow> Inl (?emb x') | Inr r \<Rightarrow> Inr (?g r)))" for x
    by (cases x; cases "fst x")
      (auto simp: alone_def solo_def rbind_def cbind_def simp del: wstep.simps split: sum.splits)
  from run_iter_embed [where outer = "alone K L (C_Write a)" and emb = ?emb and body = "solo K a" and g = ?g, OF this, of "(w, s)"]
  show ?thesis by (simp add: case_prod_beta')
qed

lemma alone_next:
  assumes "outcome p = None"
  shows "run_iter (alone K L c) (p, s) = rbind (call_step K L c p s) (run_iter (alone K L c))"
proof -
  have "alone K L c (p, s) = rbind (call_step K L c p s) (\<lambda>x. Some (Inr (Inl x)))" using assms by (simp add: alone_def)
  then show ?thesis by (auto simp: rbind_def run_iter_step split: option.splits sum.splits)
qed

lemma alone_return: "run_iter (alone K L c) (P_Query (Q_Return ans), s) = Some (Inr (ans, s))"
  by (intro run_iter_step) (simp add: alone_def)

lemma alone_query:
  "run_iter (alone K L (C_Query q)) (P_Query Q_Enter, s) = whole_call K L (C_Query q) s"
  by (cases q)
    (auto simp: alone_next alone_return aesd_read_def aesd_llseek_def aesd_adjust_file_offset_def Let_def
      rbind_def cbind_def split: option.splits sum.splits prod.splits)

lemma alone_is_call: "run_iter (alone K L c) (call_start c, s) = whole_call K L c s"
  by (cases c) (simp_all add: alone_query alone_write solo_is_aesd_write)

end
