(* ===== verification/Driver_Calls.thy ===== *)
theory Driver_Calls
  imports Driver_Steps
begin

text \<open>
  One step of a call that other calls may overlap. \<open>step_ok\<close> says what a step of a write, a read or a
  seek changes and leaves alone, in terms of the call's own buffer, the lock and the commands of
  the device; every step is such a step or waits for the lock (\<open>call_step_ok\<close>).
\<close>

section \<open>What a call answers\<close>

definition returned :: "pstate \<Rightarrow> bool" where
  [simp]: "returned p \<longleftrightarrow> outcome p \<noteq> None"

text \<open>What a call answers when it takes effect on a device with given commands and nothing fails.\<close>

fun spec_answer :: "llseek_fn \<Rightarrow> call \<Rightarrow> byte list list \<Rightarrow> answer" where
  "spec_answer L (C_Write a) cmds = A_Write (Inr (wa_count a)) (wa_pos a + wa_count a)"
| "spec_answer L (C_Query (Q_Read filp uspace count pos)) cmds =
     (let bs = spec_read \<lparr>a_cmds = cmds, a_rest = []\<rparr> (unat pos) (unat count)
      in A_Read (Inr (of_nat (length bs))) bs (pos + of_nat (length bs)))"
| "spec_answer L (C_Query (Q_Llseek filp offset whence)) cmds =
     (let p = L (f_pos filp) offset whence (of_nat (length (concat cmds))) in A_Llseek (Inr p) (filp\<lparr>f_pos := p\<rparr>))"
| "spec_answer L (C_Query (Q_Seek filp seekto)) cmds =
     (let (retval, filp') = spec_seek cmds filp seekto in A_Seek retval filp')"

section \<open>Calls in progress\<close>

text \<open>
  The device holds no unfinished command and every write has only complete ones; a read has room for what it asks
  for, and a seek is not refused at once, in which case it does not touch the device. What a write
  knows at each step (\<open>pc_ok\<close>) concerns its own buffer only (\<open>pc_block\<close>), which the device does not own.
\<close>

definition wdata :: "wargs \<Rightarrow> byte list" where
  "wdata a = take (unat (wa_count a)) (wa_buf a)"

definition wcmds :: "wargs \<Rightarrow> byte list list" where
  "wcmds a = fst (split_cmds (wdata a))"

definition warg_ok :: "wargs \<Rightarrow> bool" where
  "warg_ok a \<longleftrightarrow> private_data (wa_filp a) \<noteq> NoDev \<and> unat (wa_count a) \<le> length (wa_buf a) \<and> unat (wa_count a) < kmalloc_limit \<and> snd (split_cmds (wdata a)) = []"

fun query_ok :: "query \<Rightarrow> bool" where
  "query_ok (Q_Read filp uspace count pos) \<longleftrightarrow> private_data filp \<noteq> NoDev \<and> unat count \<le> uspace"
| "query_ok (Q_Llseek filp offset whence) \<longleftrightarrow> private_data filp \<noteq> NoDev"
| "query_ok (Q_Seek filp seekto) \<longleftrightarrow> private_data filp \<noteq> NoDev \<and> unat (write_cmd seekto) < 10"

fun call_ok :: "call \<Rightarrow> bool" where
  "call_ok (C_Write a) = warg_ok a"
| "call_ok (C_Query q) = query_ok q"

fun blk_of :: "cptr \<Rightarrow> nat option" where
  "blk_of NULL = None"
| "blk_of (Ptr x off) = Some x"

fun off_of :: "cptr \<Rightarrow> nat" where
  "off_of NULL = 0"
| "off_of (Ptr x off) = off"

fun pc_block :: "wstate \<Rightarrow> nat option" where
  "pc_block W_Start = None"
| "pc_block (W_Copy working) = blk_of (buffptr working)"
| "pc_block (W_User working) = blk_of (buffptr working)"
| "pc_block (W_Test working) = blk_of (buffptr working)"
| "pc_block (W_Free working) = blk_of (buffptr working)"
| "pc_block (W_Null working) = blk_of (buffptr working)"
| "pc_block (W_Size working) = blk_of (buffptr working)"
| "pc_block (W_Lock working) = blk_of (buffptr working)"
| "pc_block (W_Loop b working nl) = blk_of b"
| "pc_block (W_Finish b err working) = blk_of b"
| "pc_block (W_Out b retval pos) = blk_of b"
| "pc_block (W_Done retval pos) = None"

fun pc_ok :: "wargs \<Rightarrow> heap \<Rightarrow> wstate \<Rightarrow> bool" where
  "pc_ok a h W_Start \<longleftrightarrow> True"
| "pc_ok a h (W_Copy working) \<longleftrightarrow> (\<exists>x bs. working = \<lparr>buffptr = Ptr x 0, esize = wa_count a\<rparr> \<and>
     h x = Some (Bytes bs) \<and> length bs = unat (wa_count a))"
| "pc_ok a h (W_User working) \<longleftrightarrow> (\<exists>x bs. working = \<lparr>buffptr = Ptr x 0, esize = wa_count a\<rparr> \<and>
     h x = Some (Bytes bs) \<and> length bs = unat (wa_count a))"
| "pc_ok a h (W_Test working) \<longleftrightarrow> (\<exists>x. working = span x (wdata a) 0 \<and> h x = Some (Bytes (wdata a)))"
| "pc_ok a h (W_Lock working) \<longleftrightarrow> (\<exists>x. working = span x (wdata a) 0 \<and> h x = Some (Bytes (wdata a)))"
| "pc_ok a h (W_Loop b working nl) \<longleftrightarrow> (\<exists>x off. b = Ptr x 0 \<and> working = span x (wdata a) off \<and>
     nl = span_nl x (wdata a) off \<and> off \<le> length (wdata a) \<and> h x = Some (Bytes (wdata a)) \<and>
     snd (split_cmds (drop off (wdata a))) = [])"
| "pc_ok a h (W_Finish b err working) \<longleftrightarrow> (\<exists>x. b = Ptr x 0 \<and> err = None \<and>
     working = span x (wdata a) (length (wdata a)) \<and> h x = Some (Bytes (wdata a)))"
| "pc_ok a h (W_Out b retval pos) \<longleftrightarrow> (\<exists>x. b = Ptr x 0 \<and> h x \<noteq> None \<and>
     retval = Inr (wa_count a) \<and> pos = wa_pos a + wa_count a)"
| "pc_ok a h (W_Done retval pos) \<longleftrightarrow> retval = Inr (wa_count a) \<and> pos = wa_pos a + wa_count a"
| "pc_ok a h _ \<longleftrightarrow> False"

text \<open>Which write holds the lock, which has had it, and the commands the holder has still to store.\<close>

fun holds :: "wstate \<Rightarrow> bool" where
  "holds (W_Loop b working nl) = True"
| "holds (W_Finish b err working) = True"
| "holds _ = False"

fun past :: "wstate \<Rightarrow> bool" where
  "past (W_Loop b working nl) = True"
| "past (W_Finish b err working) = True"
| "past (W_Out b retval pos) = True"
| "past (W_Done retval pos) = True"
| "past _ = False"

fun pending :: "wargs \<Rightarrow> wstate \<Rightarrow> byte list list" where
  "pending a (W_Loop b working nl) = fst (split_cmds (drop (off_of (buffptr working)) (wdata a)))"
| "pending a _ = []"

text \<open>A bound for the number of steps that a write still makes.\<close>

fun rank :: "wargs \<Rightarrow> wstate \<Rightarrow> nat" where
  "rank a W_Start = length (wdata a) + 9"
| "rank a (W_Copy working) = length (wdata a) + 8"
| "rank a (W_User working) = length (wdata a) + 7"
| "rank a (W_Test working) = length (wdata a) + 6"
| "rank a (W_Lock working) = length (wdata a) + 5"
| "rank a (W_Loop b working nl) = length (wdata a) - off_of (buffptr working) + 4"
| "rank a (W_Finish b err working) = 3"
| "rank a (W_Out b retval pos) = 2"
| "rank a _ = 0"

text \<open>The same for all calls; and the answer that a query has found.\<close>

fun c_block :: "pstate \<Rightarrow> nat option" where
  "c_block (P_Write w) = pc_block w"
| "c_block (P_Query w) = None"

fun c_ok :: "call \<Rightarrow> heap \<Rightarrow> pstate \<Rightarrow> bool" where
  "c_ok (C_Write a) h (P_Write w) = pc_ok a h w"
| "c_ok (C_Query q) h (P_Query w) = True"
| "c_ok _ h p = False"

fun c_holds :: "pstate \<Rightarrow> bool" where
  "c_holds (P_Write w) = holds w"
| "c_holds (P_Query w) \<longleftrightarrow> w = Q_Locked \<or> (\<exists>ans. w = Q_Unlock ans)"

fun c_past :: "pstate \<Rightarrow> bool" where
  "c_past (P_Write w) = past w"
| "c_past (P_Query w) \<longleftrightarrow> w \<noteq> Q_Enter"

fun c_pending :: "call \<Rightarrow> pstate \<Rightarrow> byte list list" where
  "c_pending (C_Write a) (P_Write w) = pending a w"
| "c_pending c p = []"

fun c_cmds :: "call \<Rightarrow> byte list list" where
  "c_cmds (C_Write a) = wcmds a"
| "c_cmds (C_Query q) = []"

fun c_answer :: "pstate \<Rightarrow> answer option" where
  "c_answer (P_Query (Q_Unlock ans)) = Some ans"
| "c_answer (P_Query (Q_Return ans)) = Some ans"
| "c_answer _ = None"

fun c_rank :: "call \<Rightarrow> pstate \<Rightarrow> nat" where
  "c_rank (C_Write a) (P_Write w) = rank a w"
| "c_rank c (P_Query Q_Enter) = 3"
| "c_rank c (P_Query Q_Locked) = 2"
| "c_rank c (P_Query (Q_Unlock ans)) = 1"
| "c_rank c p = 0"

definition idle :: "kernel \<Rightarrow> bool" where
  "idle s \<longleftrightarrow> mem_inv (heap s) (dev_cb s) (dev_partial s) \<and> dev_partial s = null_entry"

definition call_pre :: "call \<Rightarrow> pstate \<Rightarrow> kernel \<Rightarrow> bool" where
  "call_pre c p s \<longleftrightarrow> idle s \<and> c_ok c (heap s) p \<and> (\<forall>x. c_block p = Some x \<longrightarrow> x \<in> unowned s) \<and>
     (c_holds p \<longrightarrow> lock (aesd_device s))"

definition step_ok :: "llseek_fn \<Rightarrow> call \<Rightarrow> pstate \<Rightarrow> kernel \<Rightarrow> pstate \<Rightarrow> kernel \<Rightarrow> bool" where
  "step_ok L c p s p' s' \<longleftrightarrow> idle s' \<and> c_ok c (heap s') p' \<and>
     (\<forall>x. c_block p' = Some x \<longrightarrow> x \<in> unowned s' \<and> (c_block p = Some x \<or> heap s x = None)) \<and>
     (\<forall>x\<in>unowned s. c_block p \<noteq> Some x \<longrightarrow> x \<in> unowned s' \<and> heap s' x = heap s x) \<and>
     (c_past p \<longrightarrow> c_past p') \<and>
     lastn 10 (dev_cmds s' @ c_pending c p') =
       lastn 10 (dev_cmds s @ (if c_past p then c_pending c p else if c_past p' then c_cmds c else [])) \<and>
     (lock (aesd_device s') \<longleftrightarrow> c_holds p' \<or> lock (aesd_device s) \<and> \<not> c_holds p) \<and>
     (c_holds p' \<and> \<not> c_holds p \<longrightarrow> \<not> lock (aesd_device s) \<and> \<not> c_past p) \<and> (c_past p' \<and> \<not> c_past p \<longrightarrow> c_holds p') \<and>
     (c_answer p' \<noteq> c_answer p \<longrightarrow> c_holds p \<and> c_pending c p = [] \<and> c_cmds c = [] \<and>
        c_answer p' = Some (spec_answer L c (dev_cmds s))) \<and>
     (\<not> returned p \<longrightarrow> c_rank c p' < c_rank c p)"

abbreviation wr_pre :: "wargs \<Rightarrow> wstate \<Rightarrow> kernel \<Rightarrow> bool" where
  "wr_pre a w s \<equiv> call_pre (C_Write a) (P_Write w) s"

abbreviation wr_ok :: "llseek_fn \<Rightarrow> wargs \<Rightarrow> wstate \<Rightarrow> kernel \<Rightarrow> wstate \<Rightarrow> kernel \<Rightarrow> bool" where
  "wr_ok L a w s w' s' \<equiv> step_ok L (C_Write a) (P_Write w) s (P_Write w') s'"

section \<open>One step of a write\<close>

lemma calmD: "calm K \<Longrightarrow> kenv_ok K" "calm K \<Longrightarrow> reliable K" "calm K \<Longrightarrow> k_copy_from K t = 0"
  "calm K \<Longrightarrow> \<not> k_intr K t" "calm K \<Longrightarrow> k_copy_to K t = 0"
  by (simp_all add: calm_def)

lemma idleD:
  assumes "idle s"
  shows "mem_inv (heap s) (dev_cb s) (dev_partial s)" "dev_partial s = null_entry" "finite (dom (heap s))"
  using assms unfolding idle_def by (blast, blast, simp add: mem_inv_def)

lemma idle_heap_dev:
  assumes "heap s' = heap s" "dev_cb s' = dev_cb s" "dev_partial s' = dev_partial s"
  shows "idle s' = idle s" "dev_cmds s' = dev_cmds s" "unowned s' = unowned s"
  using assms by (simp_all add: idle_def dev_view_defs)

lemma unownedD: "x \<in> unowned s \<Longrightarrow> x \<notin> dev_owned s" "x \<in> unowned s \<Longrightarrow> heap s x \<noteq> None"
  by (auto simp: unowned_def)

lemma kmalloc_calm:
  assumes "calm K" "idle s" "n < kmalloc_limit"
  obtains x bs where "kmalloc K n s = (Ptr x 0, next_tick (set_block x (Some (Bytes bs)) s))" "heap s x = None" "length bs = n"
  using calmD(1) [OF assms(1)]
proof (cases rule: kmalloc_cases [of K n s])
  case fail
  then show ?thesis using kmalloc_reliable [OF fail idleD(3) [OF assms(2)] assms(3)] calmD(2) [OF assms(1)] by simp
next
  case (ok x bs)
  then show ?thesis using that by blast
qed

lemma step_start:
  assumes K: "calm K" and a: "warg_ok a" and pre: "wr_pre a W_Start s"
  shows "\<exists>w' s'. wstep K a W_Start s = Inr (w', s') \<and> wr_ok L a W_Start s w' s'"
proof -
  have id: "idle s" using pre by (simp add: call_pre_def)
  note d = idleD [OF id]
  have e: "esize (dev_partial s) = 0" using d(2) by (simp add: null_entry_def)
  obtain x bs where x: "kmalloc K (unat (wa_count a)) s = (Ptr x 0, next_tick (set_block x (Some (Bytes bs)) s))"
      "heap s x = None" "length bs = unat (wa_count a)"
    using kmalloc_calm [OF K id] a by (auto simp: warg_ok_def)
  let ?s' = "next_tick (set_block x (Some (Bytes bs)) s)"
  note f = alloc_frame [OF d(1) x(2) refl, of "Bytes bs"]
  have "idle ?s'" using f(1,2) d(2) by (simp add: idle_def)
  moreover have "\<forall>y\<in>unowned s. y \<in> unowned ?s' \<and> heap ?s' y = heap s y"
    using f(6) x(2) unownedD(2) [of x s] by auto
  ultimately have "wr_ok L a W_Start s (W_Copy \<lparr>buffptr = Ptr x 0, esize = wa_count a\<rparr>) ?s'"
    using x(2,3) f(2,3,6) by (simp add: step_ok_def)
  then show ?thesis using x(1) e a by (simp add: warg_ok_def)
qed

text \<open>Steps that leave memory and device alone, and steps that only write the write's own buffer.\<close>

lemma pending_not_past: "\<not> past w \<Longrightarrow> pending a w = []"
  by (cases w) simp_all

lemma wr_ok_same:
  assumes "wr_pre a w s" "pc_ok a (heap s) w'" "pc_block w' = pc_block w" "past w' = past w" "holds w' = holds w"
    "pending a w' = pending a w" "\<not> returned (P_Write w) \<longrightarrow> rank a w' < rank a w"
  shows "wr_ok L a w s w' s"
  using assms pending_not_past [of w a] by (auto simp: step_ok_def call_pre_def)

lemma step_copy:
  assumes pre: "wr_pre a (W_Copy working) s"
  shows "\<exists>w' s'. wstep K a (W_Copy working) s = Inr (w', s') \<and> wr_ok L a (W_Copy working) s w' s'"
proof -
  have "copy_partial (buffptr working) s = Inr s"
    using pre by (auto simp: call_pre_def idle_def copy_partial_def null_entry_def)
  moreover have "wr_ok L a (W_Copy working) s (W_User working) s"
    using pre by (intro wr_ok_same) (auto simp: call_pre_def)
  ultimately show ?thesis by simp
qed

lemma step_test:
  assumes pre: "wr_pre a (W_Test working) s"
  shows "\<exists>w' s'. wstep K a (W_Test working) s = Inr (w', s') \<and> wr_ok L a (W_Test working) s w' s'"
proof -
  have "buffptr (dev_partial s) = NULL" using pre by (auto simp: call_pre_def idle_def null_entry_def)
  moreover have "wr_ok L a (W_Test working) s (W_Lock working) s"
    using pre by (intro wr_ok_same) (auto simp: call_pre_def)
  ultimately show ?thesis by simp
qed

lemma length_wdata: "warg_ok a \<Longrightarrow> length (wdata a) = unat (wa_count a)"
  by (simp add: warg_ok_def wdata_def)

lemma span_wdata: "warg_ok a \<Longrightarrow> span x (wdata a) 0 = \<lparr>buffptr = Ptr x 0, esize = wa_count a\<rparr>"
  by (simp add: span_def length_wdata)

lemma step_user:
  assumes K: "calm K" and a: "warg_ok a" and pre: "wr_pre a (W_User working) s"
  shows "\<exists>w' s'. wstep K a (W_User working) s = Inr (w', s') \<and> wr_ok L a (W_User working) s w' s'"
proof -
  have id: "idle s" using pre by (simp add: call_pre_def)
  note d = idleD [OF id]
  obtain x bs where x: "working = \<lparr>buffptr = Ptr x 0, esize = wa_count a\<rparr>" "heap s x = Some (Bytes bs)"
      "length bs = unat (wa_count a)" "x \<in> unowned s"
    using pre by (auto simp: call_pre_def)
  let ?s' = "set_block x (Some (Bytes (wdata a))) (next_tick s)"
  have left: "copy_left 0 (length (wa_buf a)) (unat (wa_count a)) = 0"
    using a by (simp add: copy_left_zero_iff warg_ok_def)
  have st: "store_bytes (Ptr x 0) (wdata a) (next_tick s) = Inr ?s'"
    using x(2,3) length_wdata [OF a] by (simp add: mem_simps)
  have w: "wstep K a (W_User working) s = Inr (W_Test (span x (wdata a) 0), ?s')"
    using d(2) calmD(3) [OF K] left st span_wdata [OF a]
    by (simp add: x(1) null_entry_def copy_from_user_def Let_def wdata_def ptr_add_def)
  have mem: "mem_inv (heap (next_tick s)) (dev_cb (next_tick s)) (dev_partial (next_tick s))" "x \<notin> dev_owned (next_tick s)"
      "heap (next_tick s) x \<noteq> None"
    using d(1) x(2) unownedD [OF x(4)] by simp_all
  note f = overwrite_frame [OF mem refl, of "Bytes (wdata a)"]
  have "idle ?s'" using f(1,2) d(2) by (simp add: idle_def)
  then have "wr_ok L a (W_User working) s (W_Test (span x (wdata a) 0)) ?s'"
    using f x by (auto simp: step_ok_def)
  then show ?thesis using w by simp
qed

lemma step_out:
  assumes pre: "wr_pre a (W_Out b retval pos) s"
  shows "\<exists>w' s'. wstep K a (W_Out b retval pos) s = Inr (w', s') \<and> wr_ok L a (W_Out b retval pos) s w' s'"
proof -
  have id: "idle s" using pre by (simp add: call_pre_def)
  obtain x where x: "b = Ptr x 0" "heap s x \<noteq> None" "x \<in> unowned s" "retval = Inr (wa_count a)" "pos = wa_pos a + wa_count a"
    using pre by (auto simp: call_pre_def)
  note f = free_frame [OF idleD(1) [OF id] unownedD(1) [OF x(3)]]
  let ?s' = "set_block x None s"
  have "idle ?s'" using f(1) idleD(2) [OF id] by (simp add: idle_def)
  then have "wr_ok L a (W_Out b retval pos) s (W_Done retval pos) ?s'"
    using f x by (simp add: step_ok_def)
  then show ?thesis using x by (auto simp: mem_simps)
qed

lemma step_lock:
  assumes K: "calm K" and a: "warg_ok a" and pre: "wr_pre a (W_Lock working) s"
  shows "lock (aesd_device s) \<and> wstep K a (W_Lock working) s = Inl Would_Block \<or>
    (\<exists>w' s'. wstep K a (W_Lock working) s = Inr (w', s') \<and> wr_ok L a (W_Lock working) s w' s')"
proof (cases "lock (aesd_device s)")
  case True
  then show ?thesis using calmD(4) [OF K] by (simp add: mutex_lock_interruptible_def)
next
  case False
  obtain x where x: "working = span x (wdata a) 0" "heap s x = Some (Bytes (wdata a))" "x \<in> unowned s"
    using pre by (auto simp: call_pre_def span_def)
  let ?s' = "upd_dev (lock_update (\<lambda>_. True)) (next_tick s)"
  have v: "idle ?s'" "dev_cmds ?s' = dev_cmds s" "unowned ?s' = unowned s"
    using idle_heap_dev [of ?s' s] pre by (simp_all add: call_pre_def)
  have lim: "length (wdata a) < kmalloc_limit" using a length_wdata [OF a] by (simp add: warg_ok_def)
  have "memchr (Ptr x 0) newline (unat (esize (span x (wdata a) 0))) ?s' = Inr (span_nl x (wdata a) 0)"
    using x(2) lim by (intro memchr_span) simp_all
  then have w: "wstep K a (W_Lock working) s = Inr (W_Loop (Ptr x 0) working (span_nl x (wdata a) 0), ?s')"
    using False calmD(4) [OF K] by (simp add: mutex_lock_interruptible_def x(1))
  have "wr_ok L a (W_Lock working) s (W_Loop (Ptr x 0) working (span_nl x (wdata a) 0)) ?s'"
    using v x False a by (auto simp: step_ok_def wcmds_def warg_ok_def)
  then show ?thesis using w by blast
qed

lemma split_round:
  assumes "newline \<in> set bs"
  shows "split_cmds bs = (take (cmd_len bs) bs # fst (split_cmds (drop (cmd_len bs) bs)), snd (split_cmds (drop (cmd_len bs) bs)))"
  using split_cmds_newline [OF assms] by simp

lemma step_loop:
  assumes K: "calm K" and a: "warg_ok a" and pre: "wr_pre a (W_Loop b working nl) s"
  shows "\<exists>w' s'. wstep K a (W_Loop b working nl) s = Inr (w', s') \<and> wr_ok L a (W_Loop b working nl) s w' s'"
proof -
  obtain x off where x: "b = Ptr x 0" "working = span x (wdata a) off" "nl = span_nl x (wdata a) off"
      "off \<le> length (wdata a)" "heap s x = Some (Bytes (wdata a))" "snd (split_cmds (drop off (wdata a))) = []" "x \<in> unowned s"
    using pre by (auto simp: call_pre_def)
  have lim: "length (wdata a) < kmalloc_limit" using a length_wdata [OF a] by (simp add: warg_ok_def)
  have lk: "lock (aesd_device s)" and id: "idle s" using pre by (simp_all add: call_pre_def)
  have inv: "wl_inv x (wdata a) s" using x(5) lim unownedD(1) [OF x(7)] idleD [OF id] lk by (simp add: wl_inv_def)
  show ?thesis
  proof (cases "newline \<in> set (drop off (wdata a))")
    case False
    then have "drop off (wdata a) = []" using x(6) by (simp add: split_cmds_no_newline)
    then have off: "off = length (wdata a)" using x(4) by simp
    have "write_body K (working, nl, s) = Inr (Inr (None, working, s))"
      using False by (simp add: x write_body_def span_nl_def)
    then have w: "wstep K a (W_Loop b working nl) s = Inr (W_Finish b None working, s)" by simp
    have "wr_ok L a (W_Loop b working nl) s (W_Finish b None working) s"
      using False by (intro wr_ok_same [OF pre]) (simp_all add: x off split_cmds_no_newline)
    then show ?thesis using w by blast
  next
    case nl: True
    let ?n = "cmd_len (drop off (wdata a))"
    let ?w' = "W_Loop b (span x (wdata a) (off + ?n)) (span_nl x (wdata a) (off + ?n))"
    from calmD(1) [OF K] inv nl show ?thesis
    proof (cases rule: write_body_cases)
      case (stored l s')
      have sp: "split_cmds (drop off (wdata a)) = (take ?n (drop off (wdata a)) # fst (split_cmds (drop (off + ?n) (wdata a))),
          snd (split_cmds (drop (off + ?n) (wdata a))))"
        using split_round [OF nl] by (simp add: add.commute)
      have le: "off + ?n \<le> length (wdata a)" using span_round(3) [OF lim nl] .
      have less: "length (wdata a) - (off + ?n) < length (wdata a) - off"
        using le cmd_len_pos [of "drop off (wdata a)"] by linarith
      have id': "idle s'" and lk': "lock (aesd_device s')" and x': "heap s' x = Some (Bytes (wdata a))"
        using stored(2) unfolding wl_inv_def idle_def by blast+
      have "lastn 10 (dev_cmds s' @ zs) = lastn 10 (dev_cmds s @ take ?n (drop off (wdata a)) # zs)" for zs
        using lastn_lastn_append [of 10 "dev_cmds s @ [take ?n (drop off (wdata a))]" zs] by (simp add: stored(3))
      moreover have "pc_ok a (heap s') ?w'"
        unfolding pc_ok.simps using x' le x(1,6) sp by (intro exI [of _ x] exI [of _ "off + ?n"]) simp
      ultimately have "wr_ok L a (W_Loop b working nl) s ?w' s'"
        using stored(4,6) x id' lk' sp less by (simp add: step_ok_def del: pc_ok.simps)
      moreover have "wstep K a (W_Loop b working nl) s = Inr (?w', s')" using stored(1) x by simp
      ultimately show ?thesis by blast
    qed (use calmD(2) [OF K] in auto)
  qed
qed

lemma step_finish:
  assumes pre: "wr_pre a (W_Finish b err working) s"
  shows "\<exists>w' s'. wstep K a (W_Finish b err working) s = Inr (w', s') \<and> wr_ok L a (W_Finish b err working) s w' s'"
proof -
  obtain x where x: "b = Ptr x 0" "err = None" "working = span x (wdata a) (length (wdata a))"
      "heap s x = Some (Bytes (wdata a))" "x \<in> unowned s"
    using pre by (auto simp: call_pre_def)
  let ?w' = "W_Out b (Inr (wa_count a)) (wa_pos a + wa_count a)"
  have "write_finish K (wa_count a) (wa_pos a) (err, working, s) = Inr (Inr (wa_count a), wa_pos a + wa_count a, mutex_unlock s)"
    by (simp add: x write_finish_def span_def)
  then have w: "wstep K a (W_Finish b err working) s = Inr (?w', mutex_unlock s)" by simp
  have "wr_ok L a (W_Finish b err working) s ?w' (mutex_unlock s)"
    using pre x idle_heap_dev(1) [of "mutex_unlock s" s] by (auto simp: step_ok_def call_pre_def)
  then show ?thesis using w by blast
qed

lemma step_done:
  assumes "wr_pre a (W_Done retval pos) s"
  shows "wstep K a (W_Done retval pos) s = Inr (W_Done retval pos, s) \<and> wr_ok L a (W_Done retval pos) s (W_Done retval pos) s"
  using assms by (auto intro!: wr_ok_same simp: call_pre_def)

lemma wstep_ok:
  assumes "calm K" "warg_ok a" "wr_pre a w s"
  shows "(lock (aesd_device s) \<and> \<not> holds w \<and> \<not> returned (P_Write w) \<and> wstep K a w s = Inl Would_Block) \<or>
    (\<exists>w' s'. wstep K a w s = Inr (w', s') \<and> wr_ok L a w s w' s')"
proof (cases w)
  case (W_Lock working)
  then show ?thesis using step_lock [of K a working s] assms by auto
qed (use assms step_start [of K a s] step_copy [of a _ s K] step_user [of K a _ s] step_test [of a _ s K]
      step_loop [of K a _ _ _ s] step_finish [of a _ _ _ s K] step_out [of a _ _ _ s K] step_done [of a _ _ s K]
    in \<open>auto simp: call_pre_def simp del: wstep.simps\<close>)

section \<open>One step of a query\<close>

lemma idle_abs: "idle s \<Longrightarrow> abs_dev s = \<lparr>a_cmds = dev_cmds s, a_rest = []\<rparr>"
  by (simp add: idle_def abs_dev_def dev_rest_def entry_bytes_def null_entry_def)

lemma length_spec_read: "length (spec_read d p n) \<le> n"
  by (auto simp: spec_read_def split: option.splits)

lemma q_locked_ok:
  assumes K: "calm K" and q: "query_ok q" and id: "idle s"
  shows "\<exists>s'. q_locked K L q s = Some (Inr (spec_answer L (C_Query q) (dev_cmds s), s')) \<and> (s' = s \<or> s' = next_tick s)"
proof (cases q)
  case (Q_Read filp uspace count pos)
  let ?bs = "spec_read (abs_dev s) (unat pos) (unat count)"
  have "length ?bs \<le> uspace" using length_spec_read [of "abs_dev s" "unat pos" "unat count"] q Q_Read by simp
  then have "copy_left (k_copy_to K (tick s)) uspace (length ?bs) = 0"
    using calmD(5) [OF K] by (simp add: copy_left_zero_iff)
  then obtain s' where "read_locked K uspace count pos s = Some (Inr (Inr (of_nat (length ?bs)), ?bs, pos + of_nat (length ?bs), s'))"
      "s' = s \<or> s' = next_tick s"
    using read_locked_cases [OF idleD(1) [OF id], where K = K and uspace = uspace and count = count and pos = pos] by metis
  then show ?thesis using idle_abs [OF id] by (auto simp: Q_Read Let_def)
next
  case (Q_Llseek filp offset whence)
  then show ?thesis using llseek_locked_eq [OF idleD(1) [OF id]] by (simp add: Let_def dev_data_def)
next
  case (Q_Seek filp seekto)
  then show ?thesis using adjust_locked_eq [OF idleD(1) [OF id], of seekto filp] q by (simp add: case_prod_beta)
qed

text \<open>A step of a query leaves memory and device alone, except for the lock.\<close>

lemma query_frame:
  assumes "call_pre (C_Query q) (P_Query w) s" "heap s' = heap s" "dev_cb s' = dev_cb s" "dev_partial s' = dev_partial s"
  shows "idle s'" "lastn 10 (dev_cmds s' @ []) = lastn 10 (dev_cmds s @ [])" "\<forall>x\<in>unowned s. x \<in> unowned s' \<and> heap s' x = heap s x"
  using assms idle_heap_dev [OF assms(2-4)] by (simp_all add: call_pre_def)

lemma qstep_ok:
  assumes K: "calm K" and q: "query_ok q" and pre: "call_pre (C_Query q) (P_Query w) s"
  shows "(lock (aesd_device s) \<and> \<not> c_holds (P_Query w) \<and> \<not> returned (P_Query w) \<and> qstep K L q w s = Some (Inl Would_Block)) \<or>
    (\<exists>w' s'. qstep K L q w s = Some (Inr (w', s')) \<and> step_ok L (C_Query q) (P_Query w) s (P_Query w') s')"
proof (cases w)
  case Q_Enter
  have ok: "q_refused q = None" "private_data (q_filp q) \<noteq> NoDev" using q by (cases q; simp)+
  show ?thesis
  proof (cases "lock (aesd_device s)")
    case True
    then show ?thesis using Q_Enter ok calmD(4) [OF K] by (simp add: mutex_lock_interruptible_def)
  next
    case False
    let ?s' = "upd_dev (lock_update (\<lambda>_. True)) (next_tick s)"
    have "step_ok L (C_Query q) (P_Query w) s (P_Query Q_Locked) ?s'"
      using query_frame [OF pre, of ?s'] False by (simp add: step_ok_def Q_Enter)
    then show ?thesis using False Q_Enter ok calmD(4) [OF K] by (simp add: mutex_lock_interruptible_def)
  qed
next
  case Q_Locked
  have id: "idle s" and lk: "lock (aesd_device s)" using pre Q_Locked by (simp_all add: call_pre_def)
  obtain s' where s': "q_locked K L q s = Some (Inr (spec_answer L (C_Query q) (dev_cmds s), s'))" "s' = s \<or> s' = next_tick s"
    using q_locked_ok [OF K q id] by blast
  have "heap s' = heap s" "dev_cb s' = dev_cb s" "dev_partial s' = dev_partial s" "lock (aesd_device s')" using s'(2) lk by auto
  then have "step_ok L (C_Query q) (P_Query w) s (P_Query (Q_Unlock (spec_answer L (C_Query q) (dev_cmds s)))) s'"
    using query_frame [OF pre, of s'] lk by (simp add: step_ok_def Q_Locked)
  then show ?thesis using s'(1) Q_Locked by simp
next
  case (Q_Unlock ans)
  then have "step_ok L (C_Query q) (P_Query w) s (P_Query (Q_Return ans)) (mutex_unlock s)"
    using query_frame [OF pre, of "mutex_unlock s"] pre by (simp add: step_ok_def call_pre_def)
  then show ?thesis using Q_Unlock by simp
next
  case (Q_Return ans)
  then show ?thesis using query_frame [OF pre refl refl refl] by (simp add: step_ok_def)
qed

lemma call_step_ok:
  assumes "calm K" "call_ok c" "call_pre c p s"
  shows "(lock (aesd_device s) \<and> \<not> c_holds p \<and> \<not> returned p \<and> call_step K L c p s = Some (Inl Would_Block)) \<or>
    (\<exists>p' s'. call_step K L c p s = Some (Inr (p', s')) \<and> step_ok L c p s p' s')"
proof -
  consider (wr) a w where "c = C_Write a" "p = P_Write w" | (qu) q w where "c = C_Query q" "p = P_Query w"
    using assms(3) by (cases c; cases p) (auto simp: call_pre_def)
  then show ?thesis
  proof cases
    case wr
    then show ?thesis using wstep_ok [of K a w s L] assms by (auto simp del: wstep.simps)
  next
    case qu
    then show ?thesis using qstep_ok [of K q w s L] assms by (auto simp del: qstep.simps c_holds.simps)
  qed
qed

end
