(* ===== verification/Driver_Concurrency.thy ===== *)
theory Driver_Concurrency
  imports Driver_Calls
begin

text \<open>
  Calls to the device that overlap: writes, reads and seeks of any number of processes, as a list of
  positions in their steps over one kernel, any of which may go next. Calls whose writes have complete commands
  only take effect one after the other, in the order in which they take the lock (\<open>overlapping_calls_atomic\<close>); a
  command that was left unfinished can be freed twice.
\<close>

section \<open>Several calls\<close>

record conc =
  kern :: kernel
  pcs :: "pstate list"

definition conc_start :: "call list \<Rightarrow> kernel \<Rightarrow> conc" where
  "conc_start args s = \<lparr>kern = s, pcs = map call_start args\<rparr>"

definition conc_do :: "kenv \<Rightarrow> llseek_fn \<Rightarrow> call list \<Rightarrow> nat \<Rightarrow> conc \<Rightarrow> conc run" where
  "conc_do K L args i c =
     rbind (call_step K L (args ! i) (pcs c ! i) (kern c)) (\<lambda>(p, s). Some (Inr \<lparr>kern = s, pcs = (pcs c)[i := p]\<rparr>))"

text \<open>A schedule names the call that goes next; and the states that any schedule reaches.\<close>

fun run_sched :: "kenv \<Rightarrow> llseek_fn \<Rightarrow> call list \<Rightarrow> nat list \<Rightarrow> conc \<Rightarrow> conc run" where
  "run_sched K L args [] c = Some (Inr c)"
| "run_sched K L args (i # is) c = rbind (conc_do K L args i c) (run_sched K L args is)"

inductive conc_reach :: "kenv \<Rightarrow> llseek_fn \<Rightarrow> call list \<Rightarrow> kernel \<Rightarrow> conc \<Rightarrow> bool" for K L args s0 where
  conc_init: "conc_reach K L args s0 (conc_start args s0)"
| conc_next: "conc_reach K L args s0 c \<Longrightarrow> i < length args \<Longrightarrow> conc_do K L args i c = Some (Inr c') \<Longrightarrow>
    conc_reach K L args s0 c'"

section \<open>The invariant of all interleavings\<close>

text \<open>
  Every write has its own buffer, at most one call holds the lock, and the commands of the device are those of
  the writes that have had the lock, in the order in which they took it, except for what the holder has
  still to store. Every query that has an answer has that of its place in the order.
\<close>

definition in_order :: "call list \<Rightarrow> kernel \<Rightarrow> nat list \<Rightarrow> byte list list" where
  "in_order args s0 order = lastn 10 (dev_cmds s0 @ concat (map (\<lambda>i. c_cmds (args ! i)) order))"

definition own_inv :: "call list \<Rightarrow> conc \<Rightarrow> bool" where
  "own_inv args c \<longleftrightarrow> length (pcs c) = length args \<and> idle (kern c) \<and>
     (\<forall>i<length args. c_ok (args ! i) (heap (kern c)) (pcs c ! i)) \<and>
     (\<forall>i<length args. \<forall>x. c_block (pcs c ! i) = Some x \<longrightarrow> x \<in> unowned (kern c)) \<and>
     (\<forall>i<length args. \<forall>j<length args. \<forall>x. c_block (pcs c ! i) = Some x \<longrightarrow> c_block (pcs c ! j) = Some x \<longrightarrow> i = j)"

definition lock_inv :: "call list \<Rightarrow> conc \<Rightarrow> bool" where
  "lock_inv args c \<longleftrightarrow> (lock (aesd_device (kern c)) \<longleftrightarrow> (\<exists>i<length args. c_holds (pcs c ! i))) \<and>
     (\<forall>i<length args. \<forall>j<length args. c_holds (pcs c ! i) \<longrightarrow> c_holds (pcs c ! j) \<longrightarrow> i = j)"

definition answers_inv :: "llseek_fn \<Rightarrow> call list \<Rightarrow> kernel \<Rightarrow> nat list \<Rightarrow> pstate list \<Rightarrow> bool" where
  "answers_inv L args s0 order ps \<longleftrightarrow> (\<forall>k<length order. \<forall>ans. c_answer (ps ! (order ! k)) = Some ans \<longrightarrow>
     ans = spec_answer L (args ! (order ! k)) (in_order args s0 (take k order)))"

definition cmds_inv :: "llseek_fn \<Rightarrow> call list \<Rightarrow> kernel \<Rightarrow> nat list \<Rightarrow> conc \<Rightarrow> bool" where
  "cmds_inv L args s0 order c \<longleftrightarrow> distinct order \<and> set order = {i. i < length args \<and> c_past (pcs c ! i)} \<and>
     (\<forall>i<length args. c_holds (pcs c ! i) \<longrightarrow> order \<noteq> [] \<and> last order = i \<and>
        lastn 10 (dev_cmds (kern c) @ c_pending (args ! i) (pcs c ! i)) = in_order args s0 order) \<and>
     (\<not> lock (aesd_device (kern c)) \<longrightarrow> dev_cmds (kern c) = in_order args s0 order) \<and>
     answers_inv L args s0 order (pcs c)"

definition conc_inv :: "llseek_fn \<Rightarrow> call list \<Rightarrow> kernel \<Rightarrow> nat list \<Rightarrow> conc \<Rightarrow> bool" where
  "conc_inv L args s0 order c \<longleftrightarrow> own_inv args c \<and> lock_inv args c \<and> cmds_inv L args s0 order c"

lemma c_holds_past: "c_holds p \<Longrightarrow> c_past p"
  by (cases p) (auto elim: holds.elims)

lemma c_answer_past: "c_answer p = Some ans \<Longrightarrow> c_past p"
  by (cases p rule: c_answer.cases) simp_all

lemma pending_not_holds: "\<not> holds w \<Longrightarrow> pending a w = []"
  by (cases w) simp_all

lemma c_pending_not_holds: "\<not> c_holds p \<Longrightarrow> c_pending c p = []"
  by (cases "(c, p)" rule: c_pending.cases) (auto elim: pending_not_holds)

lemma holds_not_returned: "c_holds p \<Longrightarrow> outcome p = None"
  by (cases p rule: outcome.cases) auto

lemma pc_ok_frame:
  assumes "pc_ok a h w" "\<And>x. pc_block w = Some x \<Longrightarrow> h' x = h x"
  shows "pc_ok a h' w"
  using assms by (cases w) auto

lemma c_ok_frame:
  assumes "c_ok c h p" "\<And>x. c_block p = Some x \<Longrightarrow> h' x = h x"
  shows "c_ok c h' p"
  using assms by (cases c; cases p) (auto intro: pc_ok_frame)

lemma call_start_simps [simp]: "c_ok c h (call_start c)" "c_block (call_start c) = None" "\<not> c_holds (call_start c)"
  "\<not> c_past (call_start c)" "c_answer (call_start c) = None" "outcome (call_start c) = None"
  by (cases c; simp)+

lemma step_okD:
  assumes "step_ok L c p s p' s'"
  shows "idle s'" "c_ok c (heap s') p'"
    "\<forall>x. c_block p' = Some x \<longrightarrow> x \<in> unowned s' \<and> (c_block p = Some x \<or> heap s x = None)"
    "\<forall>x\<in>unowned s. c_block p \<noteq> Some x \<longrightarrow> x \<in> unowned s' \<and> heap s' x = heap s x"
    "c_past p \<longrightarrow> c_past p'"
    "lastn 10 (dev_cmds s' @ c_pending c p') =
       lastn 10 (dev_cmds s @ (if c_past p then c_pending c p else if c_past p' then c_cmds c else []))"
    "lock (aesd_device s') \<longleftrightarrow> c_holds p' \<or> lock (aesd_device s) \<and> \<not> c_holds p"
    "c_holds p' \<and> \<not> c_holds p \<longrightarrow> \<not> lock (aesd_device s) \<and> \<not> c_past p" "c_past p' \<and> \<not> c_past p \<longrightarrow> c_holds p'"
    "c_answer p' \<noteq> c_answer p \<longrightarrow> c_holds p \<and> c_pending c p = [] \<and> c_cmds c = [] \<and>
       c_answer p' = Some (spec_answer L c (dev_cmds s))"
    "\<not> returned p \<longrightarrow> c_rank c p' < c_rank c p"
  using assms unfolding step_ok_def by - (elim conjE, assumption)+

lemma conc_inv_pre:
  assumes "own_inv args c" "lock_inv args c" "i < length args"
  shows "call_pre (args ! i) (pcs c ! i) (kern c)"
  using assms by (auto simp: own_inv_def lock_inv_def call_pre_def)

lemma own_inv_step:
  assumes inv: "own_inv args c" and i: "i < length args" and st: "step_ok L (args ! i) (pcs c ! i) (kern c) w s"
  shows "own_inv args \<lparr>kern = s, pcs = (pcs c)[i := w]\<rparr>"
proof -
  have uniq: "\<forall>i<length args. \<forall>j<length args. \<forall>x. c_block (pcs c ! i) = Some x \<longrightarrow> c_block (pcs c ! j) = Some x \<longrightarrow> i = j"
    and un: "\<forall>i<length args. \<forall>x. c_block (pcs c ! i) = Some x \<longrightarrow> x \<in> unowned (kern c)"
    and ok: "\<forall>i<length args. c_ok (args ! i) (heap (kern c)) (pcs c ! i)"
    using inv by (simp_all add: own_inv_def)
  have keep: "\<forall>x\<in>unowned (kern c). c_block (pcs c ! i) \<noteq> Some x \<longrightarrow> x \<in> unowned s \<and> heap s x = heap (kern c) x"
    and fresh: "\<forall>x. c_block w = Some x \<longrightarrow> x \<in> unowned s \<and> (c_block (pcs c ! i) = Some x \<or> heap (kern c) x = None)"
    by (rule step_okD(4) [OF st], rule step_okD(3) [OF st])
  have block: "x \<in> unowned s \<and> heap s x = heap (kern c) x \<and> c_block w \<noteq> Some x"
    if "c_block (pcs c ! j) = Some x" "j < length args" "j \<noteq> i" for j x
  proof -
    have x: "x \<in> unowned (kern c)" "c_block (pcs c ! i) \<noteq> Some x" using un uniq that i by blast+
    then have "c_block w \<noteq> Some x" using fresh [rule_format, of x] unownedD(2) [OF x(1)] by fastforce
    then show ?thesis using keep [rule_format, OF x] by simp
  qed
  have other: "c_ok (args ! j) (heap s) (pcs c ! j) \<and> (\<forall>x. c_block (pcs c ! j) = Some x \<longrightarrow> x \<in> unowned s \<and> c_block w \<noteq> Some x)"
    if j: "j < length args" "j \<noteq> i" for j
    using block [OF _ j] c_ok_frame [of "args ! j" "heap (kern c)" "pcs c ! j" "heap s"] ok j by blast
  have len: "length (pcs c) = length args" using inv by (simp add: own_inv_def)
  have mine: "idle s" "c_ok (args ! i) (heap s) w" "\<forall>x. c_block w = Some x \<longrightarrow> x \<in> unowned s"
    using step_okD(1-3) [OF st] by blast+
  show ?thesis
    using len mine other uniq i unfolding own_inv_def by (auto simp: nth_list_update)
qed

lemma lock_inv_step:
  assumes inv: "lock_inv args c" "length (pcs c) = length args" and i: "i < length args"
    and st: "step_ok L (args ! i) (pcs c ! i) (kern c) w s"
  shows "lock_inv args \<lparr>kern = s, pcs = (pcs c)[i := w]\<rparr>"
proof -
  have lk: "lock (aesd_device s) \<longleftrightarrow> c_holds w \<or> lock (aesd_device (kern c)) \<and> \<not> c_holds (pcs c ! i)"
      "c_holds w \<and> \<not> c_holds (pcs c ! i) \<longrightarrow> \<not> lock (aesd_device (kern c))"
    using step_okD(7,8) [OF st] by blast+
  have l: "lock (aesd_device (kern c)) \<longleftrightarrow> (\<exists>i<length args. c_holds (pcs c ! i))"
    and u: "c_holds (pcs c ! j) \<Longrightarrow> c_holds (pcs c ! k) \<Longrightarrow> j < length args \<Longrightarrow> k < length args \<Longrightarrow> j = k" for j k
    using inv(1) by (auto simp: lock_inv_def)
  let ?p = "\<lambda>j. if j = i then w else pcs c ! j"
  have nth: "(pcs c)[i := w] ! j = ?p j" if "j < length args" for j using that inv(2) by (simp add: nth_list_update)
  have "lock (aesd_device s) \<longleftrightarrow> (\<exists>j<length args. c_holds (?p j))" using lk(1) l u i by (metis (full_types))
  moreover have "j = k" if "j < length args" "k < length args" "c_holds (?p j)" "c_holds (?p k)" for j k
    using that lk(2) l u i by (metis (full_types))
  ultimately show ?thesis unfolding lock_inv_def by (simp add: nth cong: conj_cong)
qed

text \<open>A call enters the order when it takes the lock.\<close>

definition next_order :: "nat \<Rightarrow> pstate \<Rightarrow> pstate \<Rightarrow> nat list \<Rightarrow> nat list" where
  "next_order i p p' order = (if c_past p' \<and> \<not> c_past p then order @ [i] else order)"

lemma in_order_snoc: "in_order args s0 (order @ [i]) = lastn 10 (in_order args s0 order @ c_cmds (args ! i))"
  by (simp add: in_order_def lastn_lastn_append)

lemma in_order_last:
  assumes "order \<noteq> []" "c_cmds (args ! last order) = []"
  shows "in_order args s0 order = in_order args s0 (butlast order)"
  using in_order_snoc [of args s0 "butlast order" "last order"] assms by (simp add: in_order_def)

lemma answers_inv_step:
  assumes inv: "cmds_inv L args s0 order c" "length (pcs c) = length args" and i: "i < length args"
    and st: "step_ok L (args ! i) (pcs c ! i) (kern c) w s"
  shows "answers_inv L args s0 (next_order i (pcs c ! i) w order) ((pcs c)[i := w])"
  unfolding answers_inv_def
proof (intro allI impI)
  let ?p = "pcs c ! i" and ?order = "next_order i (pcs c ! i) w order"
  fix k ans
  assume k: "k < length ?order" and ans: "c_answer ((pcs c)[i := w] ! (?order ! k)) = Some ans"
  note new = step_okD(10) [OF st]
  show "ans = spec_answer L (args ! (?order ! k)) (in_order args s0 (take k ?order))"
  proof (cases "k < length order")
    case True
    then have nth: "?order ! k = order ! k" "take k ?order = take k order" by (simp_all add: next_order_def nth_append)
    show ?thesis
    proof (cases "order ! k = i \<and> c_answer w \<noteq> c_answer ?p")
      case fresh: True
      then have w: "c_holds ?p" "c_pending (args ! i) ?p = []" "c_cmds (args ! i) = []" "c_answer w = Some (spec_answer L (args ! i) (dev_cmds (kern c)))"
        using new by blast+
      then have o: "order \<noteq> []" "last order = i" "dev_cmds (kern c) = in_order args s0 order" "distinct order"
        using inv(1) i lastn_dev_cmds [of "kern c"] by (auto simp: cmds_inv_def)
      have "k = length order - 1"
        using o True fresh by (metis diff_less last_conv_nth length_greater_0_conv nth_eq_iff_index_eq zero_less_one)
      then have "take k order = butlast order" by (simp add: butlast_conv_take)
      then show ?thesis using ans fresh w o nth inv(2) i in_order_last [of order args s0] by simp
    next
      case False
      then have "c_answer (pcs c ! (order ! k)) = Some ans" using ans nth(1) inv(2) i by (cases "order ! k = i") auto
      then show ?thesis using inv(1) True nth by (simp add: cmds_inv_def answers_inv_def)
    qed
  next
    case False
    then have n: "\<not> c_past ?p" "?order ! k = i" using k by (auto simp: next_order_def nth_append split: if_splits)
    then have "c_answer w = c_answer ?p" using new c_holds_past [of ?p] by blast
    then show ?thesis using ans n inv(2) i c_answer_past [of ?p] by simp
  qed
qed

lemma cmds_inv_step:
  assumes inv: "cmds_inv L args s0 order c" "lock_inv args c" "length (pcs c) = length args" and i: "i < length args"
    and st: "step_ok L (args ! i) (pcs c ! i) (kern c) w s"
  shows "cmds_inv L args s0 (next_order i (pcs c ! i) w order) \<lparr>kern = s, pcs = (pcs c)[i := w]\<rparr>"
proof -
  let ?p = "pcs c ! i" and ?s = "kern c" and ?T = "in_order args s0" and ?order = "next_order i (pcs c ! i) w order"
  note new = step_okD(6) [OF st] and lk = step_okD(7-9,5) [OF st]
  have hold: "c_holds ?p \<longrightarrow> order \<noteq> [] \<and> last order = i \<and> lastn 10 (dev_cmds ?s @ c_pending (args ! i) ?p) = ?T order"
    and free: "\<not> lock (aesd_device ?s) \<longrightarrow> dev_cmds ?s = ?T order"
    using inv(1) i by (simp_all add: cmds_inv_def)
  have mine: "lastn 10 (dev_cmds s @ c_pending (args ! i) w) = ?T ?order" if "c_holds w \<or> \<not> lock (aesd_device s)"
  proof (cases "c_holds ?p")
    case True
    then show ?thesis using new hold c_holds_past [OF True] lk(3) by (simp add: next_order_def)
  next
    case False
    then have "dev_cmds ?s = ?T order" using that lk(1,2) free by blast
    then show ?thesis
      using new in_order_snoc [of args s0 order i] c_pending_not_holds [OF False] lastn_dev_cmds [of ?s]
      by (simp add: next_order_def)
  qed
  have mine_last: "?order \<noteq> [] \<and> last ?order = i" if "c_holds w"
    using that hold lk(2) c_holds_past [OF that] by (auto simp: next_order_def)
  have other: "?order \<noteq> [] \<and> last ?order = j \<and> lastn 10 (dev_cmds s @ c_pending (args ! j) (pcs c ! j)) = ?T ?order"
    if j: "j < length args" "j \<noteq> i" "c_holds (pcs c ! j)" for j
  proof -
    have n: "\<not> c_holds ?p" "\<not> c_holds w" using j i inv(2) lk(2) unfolding lock_inv_def by blast+
    have "lastn 10 (dev_cmds s) = lastn 10 (dev_cmds ?s)"
      using new n lk(3) c_pending_not_holds [OF n(1)] c_pending_not_holds [OF n(2)] by simp
    then have "dev_cmds s = dev_cmds ?s" using lastn_dev_cmds [of s] lastn_dev_cmds [of ?s] by simp
    then show ?thesis using n lk(3) inv(1) j by (auto simp: next_order_def cmds_inv_def)
  qed
  have "dev_cmds s = ?T ?order" if "\<not> lock (aesd_device s)"
    using mine that lk(1) c_pending_not_holds [of w] lastn_dev_cmds [of s] by simp
  moreover have "distinct ?order" "set ?order = {j. j < length args \<and> c_past ((pcs c)[i := w] ! j)}"
    using inv(1,3) i lk(4) by (auto simp: next_order_def cmds_inv_def nth_list_update)
  moreover note answers_inv_step [OF inv(1,3) i st]
  ultimately show ?thesis
    using mine mine_last other inv(3) i unfolding cmds_inv_def by (simp add: nth_list_update)
qed

lemma conc_inv_start:
  assumes "dev_inv s" "dev_rest s = []"
  shows "conc_inv L args s [] (conc_start args s)"
proof -
  have "dev_partial s = null_entry"
    using dev_inv_mem [OF assms(1)]
  proof (cases rule: partial_cases)
    case (held c)
    then have de: "dev_entries (dev_cb s) (dev_partial s) = cb_list (dev_cb s) @ [dev_partial s]" by (simp add: dev_entries_def)
    have "live_entry (heap s) (dev_partial s)"
      using dev_inv_mem [OF assms(1)] unfolding mem_inv_def de by simp
    then have "dev_rest s \<noteq> []" unfolding dev_rest_def by (rule live_entryE) simp
    then show ?thesis using assms(2) by simp
  qed simp
  then show ?thesis
    using assms lastn_dev_cmds [of s]
    by (simp add: conc_inv_def own_inv_def lock_inv_def cmds_inv_def answers_inv_def conc_start_def idle_def dev_inv_def in_order_def
        cong: conj_cong)
qed

lemma conc_inv_reach:
  assumes "conc_reach K L args s0 c" "calm K" "\<forall>a\<in>set args. call_ok a" "dev_inv s0" "dev_rest s0 = []"
  shows "\<exists>order. conc_inv L args s0 order c"
  using assms(1)
proof induction
  case conc_init
  then show ?case using conc_inv_start [OF assms(4,5)] by blast
next
  case (conc_next c i c')
  then obtain order where inv: "own_inv args c" "lock_inv args c" "cmds_inv L args s0 order c" by (auto simp: conc_inv_def)
  have len: "length (pcs c) = length args" using inv(1) by (simp add: own_inv_def)
  obtain w s where w: "call_step K L (args ! i) (pcs c ! i) (kern c) = Some (Inr (w, s))" "c' = \<lparr>kern = s, pcs = (pcs c)[i := w]\<rparr>"
    using conc_next.hyps(3) by (auto simp: conc_do_def rbind_Inr_iff)
  have "call_ok (args ! i)" using assms(3) conc_next.hyps(2) by simp
  from call_step_ok [OF assms(2) this conc_inv_pre [OF inv(1,2) conc_next.hyps(2)], of L]
  have st: "step_ok L (args ! i) (pcs c ! i) (kern c) w s" using w(1) by auto
  show ?case
    using own_inv_step [OF inv(1) conc_next.hyps(2) st] lock_inv_step [OF inv(2) len conc_next.hyps(2) st]
      cmds_inv_step [OF inv(3,2) len conc_next.hyps(2) st] w(2) by (auto simp: conc_inv_def)
qed

section \<open>Progress\<close>

lemma conc_next_ok:
  assumes inv: "conc_inv L args s0 order c" and K: "calm K" "\<forall>a\<in>set args. call_ok a" and i: "i < length args"
  shows "lock (aesd_device (kern c)) \<and> \<not> c_holds (pcs c ! i) \<and> conc_do K L args i c = Some (Inl Would_Block) \<or>
    (\<exists>w s. conc_do K L args i c = Some (Inr \<lparr>kern = s, pcs = (pcs c)[i := w]\<rparr>) \<and>
       (\<not> returned (pcs c ! i) \<longrightarrow> c_rank (args ! i) w < c_rank (args ! i) (pcs c ! i)))"
proof -
  have "call_ok (args ! i)" using K(2) i by simp
  moreover have "call_pre (args ! i) (pcs c ! i) (kern c)" using inv i by (intro conc_inv_pre) (simp_all add: conc_inv_def)
  ultimately show ?thesis
    using call_step_ok [OF K(1), of "args ! i" "pcs c ! i" "kern c" L] step_okD(11) by (auto simp: conc_do_def)
qed

lemma conc_progress:
  assumes inv: "conc_inv L args s0 order c" and K: "calm K" "\<forall>a\<in>set args. call_ok a"
    and op: "i < length args" "\<not> returned (pcs c ! i)"
  obtains j w s where "j < length args" "\<not> returned (pcs c ! j)" "conc_do K L args j c = Some (Inr \<lparr>kern = s, pcs = (pcs c)[j := w]\<rparr>)"
    "c_rank (args ! j) w < c_rank (args ! j) (pcs c ! j)"
proof (cases "lock (aesd_device (kern c))")
  case True
  then obtain j where j: "j < length args" "c_holds (pcs c ! j)" using inv by (auto simp: conc_inv_def lock_inv_def)
  then have "\<not> returned (pcs c ! j)" using holds_not_returned by simp
  then show ?thesis using conc_next_ok [OF inv K j(1)] j that by blast
next
  case False
  then show ?thesis using conc_next_ok [OF inv K op(1)] op that by blast
qed

definition total_rank :: "call list \<Rightarrow> conc \<Rightarrow> nat" where
  "total_rank args c = (\<Sum>i<length args. c_rank (args ! i) (pcs c ! i))"

lemma total_rank_step:
  assumes "j < length args" "length (pcs c) = length args" "c_rank (args ! j) w < c_rank (args ! j) (pcs c ! j)"
  shows "total_rank args \<lparr>kern = s, pcs = (pcs c)[j := w]\<rparr> < total_rank args c"
  unfolding total_rank_def
proof (rule sum_strict_mono_ex1)
  show "\<forall>i\<in>{..<length args}. c_rank (args ! i) (pcs \<lparr>kern = s, pcs = (pcs c)[j := w]\<rparr> ! i) \<le> c_rank (args ! i) (pcs c ! i)"
    using assms by (auto simp: nth_list_update)
  show "\<exists>i\<in>{..<length args}. c_rank (args ! i) (pcs \<lparr>kern = s, pcs = (pcs c)[j := w]\<rparr> ! i) < c_rank (args ! i) (pcs c ! i)"
    using assms by (intro bexI [of _ j]) auto
qed simp

lemma conc_completes:
  assumes "conc_reach K L args s0 c" and K: "calm K" "\<forall>a\<in>set args. call_ok a" "dev_inv s0" "dev_rest s0 = []"
  shows "\<exists>sched c'. run_sched K L args sched c = Some (Inr c') \<and> conc_reach K L args s0 c' \<and> length sched \<le> total_rank args c \<and>
    (\<forall>i<length args. returned (pcs c' ! i))"
  using assms(1)
proof (induction "total_rank args c" arbitrary: c rule: less_induct)
  case less
  obtain order where inv: "conc_inv L args s0 order c" using conc_inv_reach [OF less.prems K] by blast
  show ?case
  proof (cases "\<forall>i<length args. returned (pcs c ! i)")
    case True
    then show ?thesis using less.prems by (intro exI [of _ "[]"]) auto
  next
    case False
    then obtain i where i: "i < length args" "\<not> returned (pcs c ! i)" by blast
    obtain j w s where j: "j < length args" "conc_do K L args j c = Some (Inr \<lparr>kern = s, pcs = (pcs c)[j := w]\<rparr>)"
        "c_rank (args ! j) w < c_rank (args ! j) (pcs c ! j)"
      using conc_progress [OF inv K(1,2) i] by metis
    let ?c = "\<lparr>kern = s, pcs = (pcs c)[j := w]\<rparr>"
    have lt: "total_rank args ?c < total_rank args c"
      using inv j by (intro total_rank_step) (auto simp: conc_inv_def own_inv_def)
    have "conc_reach K L args s0 ?c" using conc_next [OF less.prems j(1,2)] .
    from less.hyps [OF lt this] obtain sched c' where "run_sched K L args sched ?c = Some (Inr c')" "conc_reach K L args s0 c'"
        "length sched \<le> total_rank args ?c" "\<forall>i<length args. returned (pcs c' ! i)"
      by blast
    then show ?thesis using j(2) lt by (intro exI [of _ "j # sched"] exI [of _ c']) simp
  qed
qed

text \<open>When all calls have returned.\<close>

lemma outcome_answer:
  assumes "c_ok c h p" "outcome p = Some ans"
  shows "c_answer p = Some ans \<or> ans = spec_answer L c cmds"
  using assms by (cases "(c, h, p)" rule: c_ok.cases; cases p rule: outcome.cases) auto

lemma outcome_past:
  assumes "c_ok c h p" "outcome p = Some ans"
  shows "c_past p"
  using assms by (cases p rule: outcome.cases) auto

lemma all_returned:
  assumes inv: "conc_inv L args s0 order c" and ret: "\<forall>i<length args. returned (pcs c ! i)"
  shows "dev_inv (kern c) \<and> dev_rest (kern c) = [] \<and> distinct order \<and> set order = {..<length args} \<and>
    dev_cmds (kern c) = in_order args s0 order \<and>
    (\<forall>k<length order. outcome (pcs c ! (order ! k)) =
       Some (spec_answer L (args ! (order ! k)) (in_order args s0 (take k order))))"
proof -
  have own: "own_inv args c" and lk: "lock_inv args c" and cm: "cmds_inv L args s0 order c" using inv by (simp_all add: conc_inv_def)
  have free: "\<not> lock (aesd_device (kern c))"
    using lk ret holds_not_returned unfolding lock_inv_def by fastforce
  have past: "set order = {..<length args}"
    using cm own ret outcome_past unfolding cmds_inv_def own_inv_def by fastforce
  have "outcome (pcs c ! (order ! k)) = Some (spec_answer L (args ! (order ! k)) (in_order args s0 (take k order)))"
    if k: "k < length order" for k
  proof -
    have i: "order ! k < length args" using past k nth_mem [of k order] by auto
    then obtain ans where ans: "outcome (pcs c ! (order ! k)) = Some ans" using ret by auto
    have "c_ok (args ! (order ! k)) (heap (kern c)) (pcs c ! (order ! k))" using own i by (simp add: own_inv_def)
    from outcome_answer [OF this ans, of L "in_order args s0 (take k order)"] show ?thesis
      using ans cm k by (auto simp: cmds_inv_def answers_inv_def)
  qed
  moreover have "dev_inv (kern c)" "dev_rest (kern c) = []"
    using own free by (auto simp: own_inv_def dev_inv_def idle_def dev_rest_def entry_bytes_def null_entry_def)
  ultimately show ?thesis using cm past free by (simp add: cmds_inv_def)
qed

section \<open>Two writes and an unfinished command\<close>

text \<open>
  When the device holds an unfinished command, a write is at the free of it after four steps, and has
  changed nothing but a new buffer of its own.
\<close>

lemma gather_steps:
  assumes K: "calm K" and mem: "mem_inv (heap s) (dev_cb s) (dev_partial s)" and rest: "buffptr (dev_partial s) \<noteq> NULL"
    and dev: "private_data (wa_filp a) \<noteq> NoDev"
    and a: "unat (wa_count a) \<le> length (wa_buf a)" "length (dev_rest s) + unat (wa_count a) < kmalloc_limit"
  obtains w s1 s2 s3 x bs where "wstep K a W_Start s = Inr (W_Copy w, s1)" "wstep K a (W_Copy w) s1 = Inr (W_User w, s2)"
    "wstep K a (W_User w) s2 = Inr (W_Test w, s3)" "wstep K a (W_Test w) s3 = Inr (W_Free w, s3)"
    "heap s x = None" "heap s3 = (heap s)(x \<mapsto> Bytes bs)" "aesd_device s3 = aesd_device s"
proof -
  let ?p = "dev_rest s" and ?n = "unat (wa_count a)"
  let ?c = "esize (dev_partial s) + wa_count a"
  have n: "?n < kmalloc_limit" using a(2) by simp
  have c: "unat ?c = length ?p + ?n" using combined_size [OF mem n] by (simp add: dev_rest_def)
  have psz: "unat (esize (dev_partial s)) = length ?p" using partial_size [OF mem] by (simp add: dev_rest_def)
  obtain x junk where x: "kmalloc K (unat ?c) s = (Ptr x 0, next_tick (set_block x (Some (Bytes junk)) s))" "heap s x = None"
      "length junk = unat ?c"
    using calmD(1) [OF K]
  proof (cases rule: kmalloc_cases [of K "unat ?c" s])
    case fail
    have "finite (dom (heap s))" using mem by (simp add: mem_inv_def)
    then show ?thesis using kmalloc_reliable [OF fail] c a(2) calmD(2) [OF K] by simp
  next
    case (ok x bs)
    then show ?thesis using that by blast
  qed
  let ?w = "\<lparr>buffptr = Ptr x 0, esize = ?c\<rparr>"
  let ?s1 = "next_tick (set_block x (Some (Bytes junk)) s)"
  let ?s2 = "set_block x (Some (Bytes (?p @ drop (length ?p) junk))) ?s1"
  note f1 = alloc_frame [OF mem x(2) refl, of "Bytes junk"]
  have "copy_partial (Ptr x 0) ?s1 = Inr ?s2"
    using gather_partial [OF f1(1), of x junk] f1 alloc_fresh [OF mem x(2)] x(3) c by simp
  moreover obtain bs where cp: "copy_from_user K (Ptr x (length ?p)) (wa_buf a) ?n ?s2 =
      Inr (copy_left (k_copy_from K (Suc (tick s))) (length (wa_buf a)) ?n, set_block x (Some (Bytes bs)) (next_tick ?s2))"
    using gather_user [of ?s2 x ?p "drop (length ?p) junk" ?n s K "wa_buf a"] x(3) c by auto
  moreover have "copy_left (k_copy_from K (Suc (tick s))) (length (wa_buf a)) ?n = 0"
    using a(1) calmD(3) [OF K] by (simp add: copy_left_zero_iff)
  ultimately show thesis
    using x rest psz dev by (intro that [of ?w ?s1 ?s2 "set_block x (Some (Bytes bs)) (next_tick ?s2)" x bs]) simp_all
qed

text \<open>
  C13. Two writes that overlap free the unfinished command twice. Whatever the two calls write: when the device
  holds an unfinished command and no external call fails, there is an interleaving (both writes gather their
  data before either of them has reset the pointer) in which the second call frees the block that the first
  one has freed.
\<close>

theorem overlapping_writes_double_free:
  assumes "calm K" "dev_inv s" "dev_rest s \<noteq> []" "private_data (wa_filp a) \<noteq> NoDev" "private_data (wa_filp b) \<noteq> NoDev"
    and "unat (wa_count a) \<le> length (wa_buf a)" "length (dev_rest s) + unat (wa_count a) < kmalloc_limit"
    and "unat (wa_count b) \<le> length (wa_buf b)" "length (dev_rest s) + unat (wa_count b) < kmalloc_limit"
  shows "run_sched K L [C_Write a, C_Write b] [0, 0, 0, 0, 1, 1, 1, 1, 0, 1] (conc_start [C_Write a, C_Write b] s) = Some (Inl Bad_Free)"
proof -
  note mem = dev_inv_mem [OF assms(2)]
  obtain p where p: "buffptr (dev_partial s) = Ptr p 0" "heap s p \<noteq> None"
    using mem assms(3) by (cases rule: partial_cases) (auto simp: dev_rest_def)
  have ne: "buffptr (dev_partial s) \<noteq> NULL" using p(1) by simp
  obtain w1 s1 s2 s3 x bs where A: "wstep K a W_Start s = Inr (W_Copy w1, s1)" "wstep K a (W_Copy w1) s1 = Inr (W_User w1, s2)"
      "wstep K a (W_User w1) s2 = Inr (W_Test w1, s3)" "wstep K a (W_Test w1) s3 = Inr (W_Free w1, s3)"
      "heap s x = None" "heap s3 = (heap s)(x \<mapsto> Bytes bs)" "aesd_device s3 = aesd_device s"
    using gather_steps [OF assms(1) mem ne assms(4,6,7)] by metis
  note f = new_block_frame [OF mem A(5-7)]
  have ne3: "buffptr (dev_partial s3) \<noteq> NULL" "length (dev_rest s3) + unat (wa_count b) < kmalloc_limit"
    using ne A(7) f(3) assms(9) by simp_all
  obtain w2 s4 s5 s6 y cs where B: "wstep K b W_Start s3 = Inr (W_Copy w2, s4)" "wstep K b (W_Copy w2) s4 = Inr (W_User w2, s5)"
      "wstep K b (W_User w2) s5 = Inr (W_Test w2, s6)" "wstep K b (W_Test w2) s6 = Inr (W_Free w2, s6)"
      "heap s3 y = None" "heap s6 = (heap s3)(y \<mapsto> Bytes cs)" "aesd_device s6 = aesd_device s3"
    using gather_steps [OF assms(1) f(1) ne3(1) assms(5,8) ne3(2)] by metis
  have "heap s6 p \<noteq> None" "dev_partial s6 = dev_partial s" using p(2) A B by auto
  then have free: "kfree_const (buffptr (dev_partial s6)) s6 = Inr (set_block p None s6)" using p(1) by (auto simp: mem_simps)
  have again: "kfree_const (buffptr (dev_partial (set_block p None s6))) (set_block p None s6) = Inl Bad_Free"
    using \<open>dev_partial s6 = dev_partial s\<close> p(1) by (simp add: kfree_const_def)
  show ?thesis
    using A(1-4) B(1-4) free again by (simp add: conc_start_def conc_do_def del: wstep.simps add: wstep.simps(5))
qed

definition to_start :: llseek_fn where
  "to_start = (\<lambda>pos offset whence total. 0)"

definition two_bytes :: "call list" where
  "two_bytes = [C_Write \<lparr>wa_filp = opened, wa_buf = [99], wa_count = 1, wa_pos = 0\<rparr>,
     C_Write \<lparr>wa_filp = opened, wa_buf = [10], wa_count = 1, wa_pos = 0\<rparr>]"

theorem overlapping_writes_double_free_witness:
  "\<exists>s. dev_inv s \<and> run_sched first_fit to_start two_bytes [0, 0, 0, 0, 1, 1, 1, 1, 0, 1] (conc_start two_bytes s) = Some (Inl Bad_Free)"
proof -
  obtain s where s: "dev_inv s" "abs_dev s = spec_write (abs_dev loaded) [98]"
    by (rule first_fit_write [of "[98]"]) (simp add: kmalloc_limit_def)
  have "a_rest (abs_dev s) = [98]" by (simp add: s(2) loaded(2) spec_write_def split_cmds.simps newline_def)
  then have r: "dev_rest s = [98]" by (simp add: abs_dev_def)
  show ?thesis
    unfolding two_bytes_def
    by (intro exI [of _ s] conjI s(1) overlapping_writes_double_free [OF calm_first_fit s(1)])
      (simp_all add: r kmalloc_limit_def)
qed

section \<open>Properties\<close>


text \<open>
  C11. Overlapping calls. Any number of writes, reads and seeks to a device without an unfinished command, each write of
  complete commands only, in a kernel in which no call fails. In every state that any interleaving reaches:
  no step faults, a step can only wait for the lock; from there the calls can all be brought to their end, in
  at most as many steps as their lengths allow; and when all have returned, the device is in a good state without an
  unfinished command, and there is an order of the calls such that it holds the last ten of the old commands
  followed by those of the writes in that order, none interleaved with another, and every call has returned what
  it returns when it runs alone at its place in the order.
\<close>

theorem overlapping_calls_atomic:
  assumes "calm K" "\<forall>a\<in>set args. call_ok a" "dev_inv s0" "dev_rest s0 = []" "conc_reach K L args s0 c"
  shows "(\<forall>i<length args. \<forall>r. conc_do K L args i c \<noteq> None \<and> (conc_do K L args i c = Some (Inl r) \<longrightarrow> r = Would_Block)) \<and>
    (\<exists>sched c'. run_sched K L args sched c = Some (Inr c') \<and> length sched \<le> total_rank args c \<and>
       (\<forall>i<length args. returned (pcs c' ! i))) \<and>
    ((\<forall>i<length args. returned (pcs c ! i)) \<longrightarrow> dev_inv (kern c) \<and> dev_rest (kern c) = [] \<and>
       (\<exists>order. distinct order \<and> set order = {..<length args} \<and> dev_cmds (kern c) = in_order args s0 order \<and>
          (\<forall>k<length order. outcome (pcs c ! (order ! k)) =
             Some (spec_answer L (args ! (order ! k)) (in_order args s0 (take k order))))))"
proof -
  obtain order where inv: "conc_inv L args s0 order c" using conc_inv_reach [OF assms(5,1-4)] by blast
  have "conc_do K L args i c \<noteq> None \<and> (conc_do K L args i c = Some (Inl r) \<longrightarrow> r = Would_Block)" if "i < length args" for i r
    using conc_next_ok [OF inv assms(1,2) that] by auto
  moreover have "\<exists>sched c'. run_sched K L args sched c = Some (Inr c') \<and> length sched \<le> total_rank args c \<and>
      (\<forall>i<length args. returned (pcs c' ! i))"
    using conc_completes [OF assms(5,1-4)] by blast
  moreover have "dev_inv (kern c) \<and> dev_rest (kern c) = [] \<and>
       (\<exists>order. distinct order \<and> set order = {..<length args} \<and> dev_cmds (kern c) = in_order args s0 order \<and>
          (\<forall>k<length order. outcome (pcs c ! (order ! k)) =
             Some (spec_answer L (args ! (order ! k)) (in_order args s0 (take k order)))))"
    if ret: "\<forall>i<length args. returned (pcs c ! i)"
    using all_returned [OF inv ret] by blast
  ultimately show ?thesis by blast
qed

definition two_lines_and_a_read :: "call list" where
  "two_lines_and_a_read =
     [C_Write \<lparr>wa_filp = opened, wa_buf = [97, 10], wa_count = 2, wa_pos = 0\<rparr>,
      C_Write \<lparr>wa_filp = opened, wa_buf = [98, 10], wa_count = 2, wa_pos = 0\<rparr>,
      C_Query (Q_Read opened 8 8 0)]"

theorem overlapping_calls_atomic_witness:
  "\<exists>sched c order. run_sched first_fit to_start two_lines_and_a_read sched (conc_start two_lines_and_a_read loaded) = Some (Inr c) \<and>
     length sched \<le> 25 \<and> dev_inv (kern c) \<and> distinct order \<and> set order = {..<3} \<and>
     dev_cmds (kern c) = in_order two_lines_and_a_read loaded order \<and>
     (\<forall>k<length order. outcome (pcs c ! (order ! k)) =
        Some (spec_answer to_start (two_lines_and_a_read ! (order ! k)) (in_order two_lines_and_a_read loaded (take k order))))"
proof -
  let ?args = two_lines_and_a_read
  have ok: "\<forall>a\<in>set ?args. call_ok a"
    by (simp add: two_lines_and_a_read_def warg_ok_def wdata_def kmalloc_limit_def split_cmds.simps newline_def cmd_len_def)
  have len: "length ?args = 3" by (simp add: two_lines_and_a_read_def)
  have ix: "{..<length ?args} = {0, 1, 2}" by (auto simp: two_lines_and_a_read_def)
  have rk: "total_rank ?args (conc_start ?args loaded) = 25"
    unfolding total_rank_def ix by (simp add: two_lines_and_a_read_def conc_start_def wdata_def)
  note atomic = overlapping_calls_atomic [OF calm_first_fit ok loaded(1) loaded_rest(1)]
  obtain sched c where c: "run_sched first_fit to_start ?args sched (conc_start ?args loaded) = Some (Inr c)" "length sched \<le> 25"
      "\<forall>i<3. returned (pcs c ! i)" "conc_reach first_fit to_start ?args loaded c"
    using conc_completes [OF conc_init calm_first_fit ok loaded(1) loaded_rest(1), of to_start] by (auto simp: rk len)
  show ?thesis using atomic [OF c(4), unfolded len] c(1-3) by blast
qed

end
