(* ===== verification/Ring_Type.thy ===== *)
theory Ring_Type
  imports Driver_Properties
begin

text \<open>
  The buffers of the program as a type. \<^verbatim>\<open>struct aesd_circular_buffer\<close> has many values that no
  function of \<^verbatim>\<open>aesd-circular-buffer.c\<close> can work with, with offsets outside the array or the flag \<^verbatim>\<open>full\<close>
  set between two different offsets. The type \<open>ring\<close> has those that satisfy the invariant. The
  functions of the source are total on it and stay in it, it is a log of the last ten entries,
  and the buffer of the device is always one of its values.
\<close>

typedef ring = "{b. cb_inv b}" morphisms ring_buffer Ring
  using cb_inv_init by blast

setup_lifting type_definition_ring

lift_definition ring_init :: ring is aesd_circular_buffer_init
  by (rule cb_inv_init)

lift_definition ring_add :: "ring \<Rightarrow> aesd_buffer_entry \<Rightarrow> ring" is cb_add
  by (rule cblog.inv_add)

lift_definition ring_entries :: "ring \<Rightarrow> aesd_buffer_entry list" is cb_list .

text \<open>The number of entries is the size of a ring; two rings are equal when their buffers are.\<close>

instantiation ring :: size
begin

definition size_ring :: "ring \<Rightarrow> nat" where
  "size_ring r = cb_count (ring_buffer r)"

instance ..

end

instantiation ring :: equal
begin

definition equal_ring :: "ring \<Rightarrow> ring \<Rightarrow> bool" where
  "equal_ring r t \<longleftrightarrow> ring_buffer r = ring_buffer t"

instance
  by standard (simp add: equal_ring_def ring_buffer_inject)

end

text \<open>The entry that holds an offset, and the position in it.\<close>

definition ring_find :: "ring \<Rightarrow> size_t \<Rightarrow> (u8 \<times> size_t) option" where
  "ring_find r off = map_option (\<lambda>(i, q). (of_nat (cb_index (ring_buffer r) i), of_nat q))
     (locate (map (unat \<circ> esize) (ring_entries r)) (unat off))"

lemma ring_inv [simp]: "cb_inv (ring_buffer r)" "wf_cb (ring_buffer r)"
  using ring_buffer [of r] by (simp_all add: cb_inv_def)

lemma length_ring_entries [simp]: "length (ring_entries r) = size r"
  by (simp add: ring_entries.rep_eq size_ring_def)

lemma ring_size_le: "size r \<le> (10 :: nat)" for r :: ring
  by (simp add: size_ring_def cb_count_le)

lemma ring_full: "full (ring_buffer r) \<longleftrightarrow> size r = 10"
  using cb_count_not_full [of "ring_buffer r"] by (auto simp: size_ring_def cb_count_def)

interpretation rings: bounded_log 10 ring_init ring_add ring_entries "\<lambda>r. True"
proof unfold_locales
  fix r e
  show "ring_entries (ring_add r e) = (if length (ring_entries r) = 10 then tl (ring_entries r) else ring_entries r) @ [e]"
    by transfer (rule cblog.contents_add)
qed (simp_all add: ring_size_le ring_init.rep_eq ring_entries.rep_eq cb_count_le)

lemma size_ring_add: "size (ring_add r e) = min 10 (Suc (size r))"
  using arg_cong [OF rings.contents_add_lastn [of r e], of length] by simp

lemma ring_add_entry:
  "aesd_circular_buffer_add_entry (ring_buffer r) e =
     Inr (if size r = 10 then buffptr (hd (ring_entries r)) else NULL, ring_buffer (ring_add r e))"
  by (simp add: add_entry_eq ring_full ring_entries.rep_eq ring_add.rep_eq cb_add_eq)

lemma ring_find_entry:
  "aesd_circular_buffer_find_entry_offset_for_fpos (ring_buffer r) off = Some (Inr (ring_find r off))"
  by (simp add: find_entry_locate ring_find_def ring_entries.rep_eq cb_sizes_def comp_def)



end
