(* ===== verification/Object_List.thy ===== *)
theory Object_List
  imports Aesd_Prelude
begin

text \<open>
  The interface of an intrusive linked list, as the clients of \<^verbatim>\<open>server/queue.h\<close> use it: elements
  live in memory that the client manages, are inserted at the head and are removed by reference.
  \<open>rep s xs\<close> says that the memory \<open>s\<close> holds the list \<open>xs\<close> of elements, \<open>live\<close> which elements are
  allocated. What a provider promises of one operation gives the behaviour of every sequence of
  them. The list kinds of the header are interpreted in their own theories.
\<close>

datatype list_op = Ins nat | Del nat

fun spec_op :: "nat list \<Rightarrow> list_op \<Rightarrow> nat list" where
  "spec_op xs (Ins x) = x # xs"
| "spec_op xs (Del x) = remove1 x xs"

text \<open>The client's obligations: insert allocated elements that are not in the list, remove elements of it.\<close>

fun ops_ok :: "nat set \<Rightarrow> nat list \<Rightarrow> list_op list \<Rightarrow> bool" where
  "ops_ok live xs [] \<longleftrightarrow> True"
| "ops_ok live xs (Ins x # ops) \<longleftrightarrow> x \<in> live \<and> x \<notin> set xs \<and> ops_ok live (x # xs) ops"
| "ops_ok live xs (Del x # ops) \<longleftrightarrow> x \<in> set xs \<and> ops_ok live (remove1 x xs) ops"

fun run_ops :: "(nat \<Rightarrow> 's \<Rightarrow> 's run) \<Rightarrow> (nat \<Rightarrow> 's \<Rightarrow> 's run) \<Rightarrow> list_op list \<Rightarrow> 's \<Rightarrow> 's run" where
  "run_ops ins del [] s = Some (Inr s)"
| "run_ops ins del (Ins x # ops) s = rbind (ins x s) (run_ops ins del ops)"
| "run_ops ins del (Del x # ops) s = rbind (del x s) (run_ops ins del ops)"

locale object_list =
  fixes rep :: "'s \<Rightarrow> nat list \<Rightarrow> bool"
    and live :: "'s \<Rightarrow> nat set"
    and ins :: "nat \<Rightarrow> 's \<Rightarrow> 's run"
    and del :: "nat \<Rightarrow> 's \<Rightarrow> 's run"
  assumes ins_ok: "rep s xs \<Longrightarrow> x \<in> live s \<Longrightarrow> x \<notin> set xs \<Longrightarrow>
      \<exists>s'. ins x s = Some (Inr s') \<and> rep s' (x # xs) \<and> live s' = live s"
    and del_ok: "rep s xs \<Longrightarrow> x \<in> set xs \<Longrightarrow>
      \<exists>s'. del x s = Some (Inr s') \<and> rep s' (remove1 x xs) \<and> live s' = live s"
begin

lemma run_ops_ok:
  assumes "rep s xs" "ops_ok (live s) xs ops"
  shows "\<exists>s'. run_ops ins del ops s = Some (Inr s') \<and> rep s' (foldl spec_op xs ops) \<and> live s' = live s"
  using assms
proof (induction ops arbitrary: s xs)
  case (Cons op ops)
  show ?case
  proof (cases op)
    case (Ins x)
    then obtain s' where "ins x s = Some (Inr s')" "rep s' (x # xs)" "live s' = live s"
      using ins_ok [OF Cons.prems(1)] Cons.prems(2) by auto
    then show ?thesis using Cons.IH [of s' "x # xs"] Cons.prems(2) Ins by simp
  next
    case (Del x)
    then obtain s' where "del x s = Some (Inr s')" "rep s' (remove1 x xs)" "live s' = live s"
      using del_ok [OF Cons.prems(1)] Cons.prems(2) by auto
    then show ?thesis using Cons.IH [of s' "remove1 x xs"] Cons.prems(2) Del by simp
  qed
qed simp

end

text \<open>
  A queue is such a list which elements also join at the end, and leave at the front.
\<close>

datatype queue_op = Push nat | Append nat | Pop | Drop nat

fun spec_qop :: "nat list \<Rightarrow> queue_op \<Rightarrow> nat list" where
  "spec_qop xs (Push x) = x # xs"
| "spec_qop xs (Append x) = xs @ [x]"
| "spec_qop xs Pop = tl xs"
| "spec_qop xs (Drop x) = remove1 x xs"

fun qop_ok :: "nat set \<Rightarrow> nat list \<Rightarrow> queue_op \<Rightarrow> bool" where
  "qop_ok live xs (Push x) \<longleftrightarrow> x \<in> live \<and> x \<notin> set xs"
| "qop_ok live xs (Append x) \<longleftrightarrow> x \<in> live \<and> x \<notin> set xs"
| "qop_ok live xs Pop \<longleftrightarrow> xs \<noteq> []"
| "qop_ok live xs (Drop x) \<longleftrightarrow> x \<in> set xs"

fun qops_ok :: "nat set \<Rightarrow> nat list \<Rightarrow> queue_op list \<Rightarrow> bool" where
  "qops_ok live xs [] \<longleftrightarrow> True"
| "qops_ok live xs (op # ops) \<longleftrightarrow> qop_ok live xs op \<and> qops_ok live (spec_qop xs op) ops"

fun run_qops :: "(queue_op \<Rightarrow> 's \<Rightarrow> 's run) \<Rightarrow> queue_op list \<Rightarrow> 's \<Rightarrow> 's run" where
  "run_qops step [] s = Some (Inr s)"
| "run_qops step (op # ops) s = rbind (step op s) (run_qops step ops)"

locale object_queue = object_list rep live "\<lambda>x. step (Push x)" "\<lambda>x. step (Drop x)"
  for rep :: "'s \<Rightarrow> nat list \<Rightarrow> bool"
    and live :: "'s \<Rightarrow> nat set"
    and step :: "queue_op \<Rightarrow> 's \<Rightarrow> 's run" +
  assumes append_ok: "rep s xs \<Longrightarrow> x \<in> live s \<Longrightarrow> x \<notin> set xs \<Longrightarrow>
      \<exists>s'. step (Append x) s = Some (Inr s') \<and> rep s' (xs @ [x]) \<and> live s' = live s"
    and pop_ok: "rep s (x # xs) \<Longrightarrow> \<exists>s'. step Pop s = Some (Inr s') \<and> rep s' xs \<and> live s' = live s"
begin

lemma step_ok:
  assumes "rep s xs" "qop_ok (live s) xs op"
  shows "\<exists>s'. step op s = Some (Inr s') \<and> rep s' (spec_qop xs op) \<and> live s' = live s"
  using assms ins_ok del_ok append_ok pop_ok by (cases op) (auto simp: neq_Nil_conv)

lemma run_qops_ok:
  assumes "rep s xs" "qops_ok (live s) xs ops"
  shows "\<exists>s'. run_qops step ops s = Some (Inr s') \<and> rep s' (foldl spec_qop xs ops) \<and> live s' = live s"
  using assms
proof (induction ops arbitrary: s xs)
  case (Cons op ops)
  obtain s' where s': "step op s = Some (Inr s')" "rep s' (spec_qop xs op)" "live s' = live s"
    using step_ok [OF Cons.prems(1)] Cons.prems(2) by auto
  then show ?case using Cons.IH [of s' "spec_qop xs op"] Cons.prems(2) by simp
qed simp

end

end
