(* ===== verification/Queue_Slist.thy ===== *)
theory Queue_Slist
  imports Object_List
begin

text \<open>
  The singly-linked lists of \<^verbatim>\<open>server/queue.h\<close> (the \<^verbatim>\<open>SLIST\<close> macros) over explicit memory. A
  reference is null or the address of an element; the link fields of all live elements are one
  map \<open>links\<close>, in which an address that is not live has no entry. Reading or writing the link of
  a null reference or of an element that is not live is a fault. A list head is the value of
  \<^verbatim>\<open>slh_first\<close>. Macros that loop are runs, which may not end.

  The link-checking and tracing macros of the header are empty in this build.

  The relation \<open>chain\<close> reads a list of addresses off the links; every macro is related to an
  operation on that list, and the interface \<open>object_list\<close> is what its clients rely on.
\<close>

section \<open>Memory\<close>

type_synonym ref = "nat option"
type_synonym links = "nat \<Rightarrow> ref option"

definition SLIST_NEXT :: "links \<Rightarrow> ref \<Rightarrow> ref checked" where
  "SLIST_NEXT nx elm =
     (case elm of
        None \<Rightarrow> Inl Null_Deref
      | Some a \<Rightarrow> (case nx a of None \<Rightarrow> Inl Bad_Access | Some r \<Rightarrow> Inr r))"

definition set_link :: "ref \<Rightarrow> ref \<Rightarrow> links \<Rightarrow> links checked" where
  "set_link elm v nx =
     (case elm of
        None \<Rightarrow> Inl Null_Deref
      | Some a \<Rightarrow> (if nx a = None then Inl Bad_Access else Inr (nx(a \<mapsto> v))))"

section \<open>The macros\<close>

definition SLIST_HEAD_INITIALIZER :: ref where
  "SLIST_HEAD_INITIALIZER = None"

definition SLIST_INIT :: ref where
  "SLIST_INIT = None"

definition SLIST_EMPTY :: "ref \<Rightarrow> bool" where
  "SLIST_EMPTY head \<longleftrightarrow> head = None"

definition SLIST_FIRST :: "ref \<Rightarrow> ref" where
  "SLIST_FIRST head = head"

definition SLIST_INSERT_AFTER :: "ref \<Rightarrow> ref \<Rightarrow> links \<Rightarrow> links checked" where
  "SLIST_INSERT_AFTER slistelm elm nx =
     cbind (SLIST_NEXT nx slistelm) (\<lambda>n.
     cbind (set_link elm n nx) (\<lambda>nx1. set_link slistelm elm nx1))"

definition SLIST_INSERT_HEAD :: "ref \<Rightarrow> ref \<Rightarrow> links \<Rightarrow> (ref \<times> links) checked" where
  "SLIST_INSERT_HEAD head elm nx = cbind (set_link elm (SLIST_FIRST head) nx) (\<lambda>nx1. Inr (elm, nx1))"

definition SLIST_REMOVE_AFTER :: "ref \<Rightarrow> links \<Rightarrow> links checked" where
  "SLIST_REMOVE_AFTER elm nx =
     cbind (SLIST_NEXT nx elm) (\<lambda>n. cbind (SLIST_NEXT nx n) (\<lambda>nn. set_link elm nn nx))"

definition SLIST_REMOVE_HEAD :: "ref \<Rightarrow> links \<Rightarrow> ref checked" where
  "SLIST_REMOVE_HEAD head nx = SLIST_NEXT nx (SLIST_FIRST head)"

text \<open>The search of the element whose link is \<open>target\<close>: the loops of \<^verbatim>\<open>SLIST_REMOVE\<close> and \<^verbatim>\<open>SLIST_CONCAT\<close>.\<close>

definition slist_walk :: "links \<Rightarrow> ref \<Rightarrow> ref \<Rightarrow> ref run" where
  "slist_walk nx target = run_loop (\<lambda>curelm.
     cbind (SLIST_NEXT nx curelm) (\<lambda>n. Inr (if n \<noteq> target then Inl n else Inr curelm)))"

definition SLIST_REMOVE :: "ref \<Rightarrow> ref \<Rightarrow> links \<Rightarrow> (ref \<times> links) run" where
  "SLIST_REMOVE head elm nx =
     (if SLIST_FIRST head = elm
      then rbind (Some (SLIST_REMOVE_HEAD head nx)) (\<lambda>head'. Some (Inr (head', nx)))
      else rbind (slist_walk nx elm (SLIST_FIRST head)) (\<lambda>curelm.
           rbind (Some (SLIST_REMOVE_AFTER curelm nx)) (\<lambda>nx'. Some (Inr (head, nx')))))"

definition SLIST_CONCAT :: "ref \<Rightarrow> ref \<Rightarrow> links \<Rightarrow> (ref \<times> ref \<times> links) run" where
  "SLIST_CONCAT head1 head2 nx =
     (if SLIST_FIRST head1 = None
      then (if SLIST_FIRST head2 \<noteq> None then Some (Inr (head2, SLIST_INIT, nx))
            else Some (Inr (SLIST_FIRST head2, head2, nx)))
      else if SLIST_FIRST head2 \<noteq> None
      then rbind (slist_walk nx None (SLIST_FIRST head1)) (\<lambda>curelm.
           rbind (Some (set_link curelm (SLIST_FIRST head2) nx)) (\<lambda>nx'.
           Some (Inr (head1, SLIST_INIT, nx'))))
      else Some (Inr (head1, head2, nx)))"

definition SLIST_SWAP :: "ref \<Rightarrow> ref \<Rightarrow> ref \<times> ref" where
  "SLIST_SWAP head1 head2 =
     (let swap_first = SLIST_FIRST head1 in (SLIST_FIRST head2, swap_first))"

text \<open>
  The iterations. The body changes a state that holds the links, read with \<open>lk\<close>, so that the
  step to the next element sees what the body did: \<^verbatim>\<open>SLIST_FOREACH\<close> reads the link after the
  body, \<^verbatim>\<open>SLIST_FOREACH_SAFE\<close> before it.
\<close>

definition SLIST_FOREACH_FROM ::
  "('s \<Rightarrow> links) \<Rightarrow> (nat \<Rightarrow> 's \<Rightarrow> 's run) \<Rightarrow> ref \<Rightarrow> ref \<Rightarrow> 's \<Rightarrow> 's run" where
  "SLIST_FOREACH_FROM lk body var head s0 =
     run_iter (\<lambda>(var, s).
        case var of
          None \<Rightarrow> Some (Inr (Inr s))
        | Some a \<Rightarrow> rbind (body a s) (\<lambda>s'.
            rbind (Some (SLIST_NEXT (lk s') var)) (\<lambda>n. Some (Inr (Inl (n, s'))))))
       (if var \<noteq> None then var else SLIST_FIRST head, s0)"

definition SLIST_FOREACH ::
  "('s \<Rightarrow> links) \<Rightarrow> (nat \<Rightarrow> 's \<Rightarrow> 's run) \<Rightarrow> ref \<Rightarrow> 's \<Rightarrow> 's run" where
  "SLIST_FOREACH lk body head s0 =
     run_iter (\<lambda>(var, s).
        case var of
          None \<Rightarrow> Some (Inr (Inr s))
        | Some a \<Rightarrow> rbind (body a s) (\<lambda>s'.
            rbind (Some (SLIST_NEXT (lk s') var)) (\<lambda>n. Some (Inr (Inl (n, s'))))))
       (SLIST_FIRST head, s0)"

definition SLIST_FOREACH_SAFE ::
  "('s \<Rightarrow> links) \<Rightarrow> (nat \<Rightarrow> 's \<Rightarrow> 's run) \<Rightarrow> ref \<Rightarrow> 's \<Rightarrow> 's run" where
  "SLIST_FOREACH_SAFE lk body head s0 =
     run_iter (\<lambda>(var, s).
        case var of
          None \<Rightarrow> Some (Inr (Inr s))
        | Some a \<Rightarrow> rbind (Some (SLIST_NEXT (lk s) var)) (\<lambda>tvar.
            rbind (body a s) (\<lambda>s'. Some (Inr (Inl (tvar, s'))))))
       (SLIST_FIRST head, s0)"

definition SLIST_FOREACH_FROM_SAFE ::
  "('s \<Rightarrow> links) \<Rightarrow> (nat \<Rightarrow> 's \<Rightarrow> 's run) \<Rightarrow> ref \<Rightarrow> ref \<Rightarrow> 's \<Rightarrow> 's run" where
  "SLIST_FOREACH_FROM_SAFE lk body var head s0 =
     run_iter (\<lambda>(var, s).
        case var of
          None \<Rightarrow> Some (Inr (Inr s))
        | Some a \<Rightarrow> rbind (Some (SLIST_NEXT (lk s) var)) (\<lambda>tvar.
            rbind (body a s) (\<lambda>s'. Some (Inr (Inl (tvar, s'))))))
       (if var \<noteq> None then var else SLIST_FIRST head, s0)"

text \<open>
  \<^verbatim>\<open>SLIST_FOREACH_PREVPTR\<close> also gives the body the address of the link to the element: null here for
  the link in the head, which \<open>hd_of\<close> reads, and otherwise the element that holds the link.
\<close>

definition prevptr_step ::
  "('s \<Rightarrow> ref) \<Rightarrow> ('s \<Rightarrow> links) \<Rightarrow> (ref \<Rightarrow> nat \<Rightarrow> 's \<Rightarrow> 's run) \<Rightarrow> ref \<times> 's \<Rightarrow> ((ref \<times> 's) + 's) run" where
  "prevptr_step hd_of lk body = (\<lambda>(varp, s).
     rbind (Some (case varp of None \<Rightarrow> Inr (SLIST_FIRST (hd_of s)) | Some a \<Rightarrow> SLIST_NEXT (lk s) (Some a)))
       (\<lambda>var. case var of
          None \<Rightarrow> Some (Inr (Inr s))
        | Some a \<Rightarrow> rbind (body varp a s) (\<lambda>s'. Some (Inr (Inl (Some a, s'))))))"

definition SLIST_FOREACH_PREVPTR ::
  "('s \<Rightarrow> ref) \<Rightarrow> ('s \<Rightarrow> links) \<Rightarrow> (ref \<Rightarrow> nat \<Rightarrow> 's \<Rightarrow> 's run) \<Rightarrow> 's \<Rightarrow> 's run" where
  "SLIST_FOREACH_PREVPTR hd_of lk body s0 = run_iter (prevptr_step hd_of lk body) (None, s0)"

section \<open>The list behind the links\<close>

fun chain :: "links \<Rightarrow> ref \<Rightarrow> nat list \<Rightarrow> bool" where
  "chain nx r [] \<longleftrightarrow> r = None"
| "chain nx r (x # xs) \<longleftrightarrow> r = Some x \<and> (\<exists>n. nx x = Some n \<and> chain nx n xs)"

lemma chain_live: "chain nx r xs \<Longrightarrow> x \<in> set xs \<Longrightarrow> nx x \<noteq> None"
  by (induction xs arbitrary: r) auto

lemma chain_frame: "a \<notin> set xs \<Longrightarrow> chain (nx(a := v)) r xs = chain nx r xs"
  by (induction xs arbitrary: r) auto

lemma chain_unique: "chain nx r xs \<Longrightarrow> chain nx r ys \<Longrightarrow> xs = ys"
proof (induction xs arbitrary: r ys)
  case Nil
  then show ?case by (cases ys) auto
next
  case (Cons x xs)
  then show ?case by (cases ys) auto
qed

lemma chain_append:
  "chain nx r (xs @ y # ys) \<Longrightarrow> \<exists>n. nx y = Some n \<and> chain nx n ys \<and> chain nx (Some y) (y # ys)"
  by (induction xs arbitrary: r) auto

text \<open>A list that ends has no element twice.\<close>

lemma chain_distinct: "chain nx r xs \<Longrightarrow> distinct xs"
proof (induction xs arbitrary: r)
  case (Cons x xs)
  have "x \<notin> set xs"
  proof
    assume "x \<in> set xs"
    then obtain us vs where xs: "xs = us @ x # vs" by (auto dest: split_list)
    have "chain nx (Some x) (x # xs)" using Cons.prems by auto
    moreover have "chain nx (Some x) (x # vs)"
      using chain_append [of nx r "x # us" x vs] Cons.prems by (auto simp: xs)
    ultimately have "x # xs = x # vs" by (rule chain_unique)
    then show False by (simp add: xs)
  qed
  with Cons show ?case by auto
qed simp

lemma SLIST_NEXT_live: "nx a = Some n \<Longrightarrow> SLIST_NEXT nx (Some a) = Inr n"
  by (simp add: SLIST_NEXT_def)

lemma set_link_live: "nx a = Some n \<Longrightarrow> set_link (Some a) v nx = Inr (nx(a \<mapsto> v))"
  by (simp add: set_link_def)

lemmas link_simps = SLIST_NEXT_live set_link_live SLIST_FIRST_def

section \<open>What the macros do to the list\<close>

lemma SLIST_INSERT_HEAD_chain:
  assumes "chain nx head xs" "nx x \<noteq> None" "x \<notin> set xs"
  shows "SLIST_INSERT_HEAD head (Some x) nx = Inr (Some x, nx(x \<mapsto> head))"
    "chain (nx(x \<mapsto> head)) (Some x) (x # xs)"
  using assms by (auto simp: SLIST_INSERT_HEAD_def link_simps chain_frame)

lemma chain_replace:
  assumes "chain nx head (us @ y # vs)" "chain nx' n ws" "\<forall>a\<in>set (us @ [y]). a \<notin> set ws"
    "\<forall>a. a \<notin> set ws \<longrightarrow> a \<noteq> y \<longrightarrow> nx' a = nx a" "nx' y = Some n"
  shows "chain nx' head (us @ y # ws)"
  using assms(1,3)
proof (induction us arbitrary: head)
  case Nil
  then show ?case using assms(2,5) by auto
next
  case (Cons u us)
  have "u \<noteq> y" using chain_distinct [OF Cons.prems(1)] by auto
  then have "nx' u = nx u" using assms(4) Cons.prems(2) by auto
  then show ?case using Cons by auto
qed

lemma SLIST_INSERT_AFTER_chain:
  assumes c: "chain nx head (us @ y # vs)" and x: "nx x \<noteq> None" "x \<notin> set (us @ y # vs)"
  shows "\<exists>nx'. SLIST_INSERT_AFTER (Some y) (Some x) nx = Inr nx' \<and> chain nx' head (us @ y # x # vs)"
proof -
  obtain n where n: "nx y = Some n" "chain nx n vs" using chain_append [OF c] by blast
  let ?nx = "nx(x \<mapsto> n, y \<mapsto> Some x)"
  have d: "y \<notin> set vs" using chain_distinct [OF c] by auto
  have "chain ?nx (Some x) (x # vs)" using n x d by (auto simp: chain_frame)
  then have "chain ?nx head (us @ y # x # vs)"
    using x chain_distinct [OF c] by (intro chain_replace [OF c]) auto
  moreover have "SLIST_INSERT_AFTER (Some y) (Some x) nx = Inr ?nx"
    using n x by (auto simp: SLIST_INSERT_AFTER_def link_simps)
  ultimately show ?thesis by blast
qed

lemma SLIST_REMOVE_AFTER_chain:
  assumes c: "chain nx head (us @ y # x # vs)"
  shows "\<exists>n. SLIST_REMOVE_AFTER (Some y) nx = Inr (nx(y \<mapsto> n)) \<and> chain (nx(y \<mapsto> n)) head (us @ y # vs)"
proof -
  obtain n where n: "nx y = Some (Some x)" "nx x = Some n" "chain nx n vs"
    using chain_append [OF c] by auto
  have "chain (nx(y \<mapsto> n)) n vs" using n(3) chain_distinct [OF c] by (simp add: chain_frame)
  then have "chain (nx(y \<mapsto> n)) head (us @ y # vs)"
    using chain_distinct [OF c] by (intro chain_replace [OF c]) auto
  then show ?thesis using n by (auto simp: SLIST_REMOVE_AFTER_def link_simps)
qed

text \<open>The walk finds the predecessor of an element, and the last element for a null target.\<close>

lemma slist_walk_found:
  assumes "chain nx (Some z) (us @ y # vs)" "target = (case vs of [] \<Rightarrow> None | v # _ \<Rightarrow> Some v)"
  shows "slist_walk nx target (Some z) = Some (Inr (Some y))"
  using assms(1)
proof (induction us arbitrary: z)
  case Nil
  then have "SLIST_NEXT nx (Some z) = Inr target" "z = y"
    using assms(2) by (auto simp: link_simps split: list.splits)
  then show ?case unfolding slist_walk_def by (intro run_loop_step) simp
next
  case (Cons u us)
  obtain w where w: "nx u = Some (Some w)" "chain nx (Some w) (us @ y # vs)" "z = u"
    using Cons.prems by (cases us) auto
  have ne: "Some w \<noteq> target"
  proof
    assume "Some w = target"
    then have "w \<in> set vs" using assms(2) by (auto split: list.splits)
    then show False using chain_distinct [OF w(2)] w(2) by (cases us) auto
  qed
  have "slist_walk nx target (Some z) = slist_walk nx target (Some w)"
    unfolding slist_walk_def using w ne by (intro run_loop_step) (simp add: link_simps)
  then show ?case using Cons.IH [OF w(2)] by simp
qed

text \<open>The walk for an element that is not in the list runs off its end.\<close>

lemma slist_walk_missing:
  assumes "chain nx r xs" "x \<notin> set xs"
  shows "slist_walk nx (Some x) r = Some (Inl Null_Deref)"
  using assms
proof (induction xs arbitrary: r)
  case Nil
  then show ?case unfolding slist_walk_def by (intro run_loop_step) (simp add: SLIST_NEXT_def)
next
  case (Cons y ys)
  then obtain n where n: "r = Some y" "nx y = Some n" "chain nx n ys" by auto
  moreover have "n \<noteq> Some x" using n(3) Cons.prems(2) by (cases ys) auto
  ultimately have "slist_walk nx (Some x) r = slist_walk nx (Some x) n"
    unfolding slist_walk_def by (intro run_loop_step) (simp add: link_simps)
  then show ?case using Cons n by auto
qed

lemma SLIST_REMOVE_chain:
  assumes c: "chain nx head xs" and x: "x \<in> set xs"
  shows "\<exists>head' nx'. SLIST_REMOVE head (Some x) nx = Some (Inr (head', nx')) \<and>
    chain nx' head' (remove1 x xs) \<and> dom nx' = dom nx \<and> (\<forall>a. a \<notin> set xs \<or> a = x \<longrightarrow> nx' a = nx a)"
proof -
  obtain us vs where xs: "xs = us @ x # vs" and us: "x \<notin> set us" using split_list_first [OF x] by blast
  show ?thesis
  proof (cases us rule: rev_cases)
    case Nil
    then obtain n where "nx x = Some n" "chain nx n vs" "head = Some x" using c xs by auto
    then show ?thesis using Nil xs by (simp add: SLIST_REMOVE_def SLIST_REMOVE_HEAD_def link_simps)
  next
    case (snoc ws y)
    have c': "chain nx head (ws @ y # x # vs)" using c xs snoc by simp
    obtain z where z: "head = Some z" "z \<noteq> x"
      using c' chain_distinct [OF c'] by (cases ws) auto
    obtain n where n: "SLIST_REMOVE_AFTER (Some y) nx = Inr (nx(y \<mapsto> n))" "chain (nx(y \<mapsto> n)) head (ws @ y # vs)"
      using SLIST_REMOVE_AFTER_chain [OF c'] by blast
    have "slist_walk nx (Some x) head = Some (Inr (Some y))"
      using slist_walk_found [of nx z ws y "x # vs"] c' z by simp
    then have "SLIST_REMOVE head (Some x) nx = Some (Inr (head, nx(y \<mapsto> n)))"
      using z n by (simp add: SLIST_REMOVE_def SLIST_FIRST_def)
    moreover have "remove1 x xs = ws @ y # vs" using xs us snoc by (simp add: remove1_append)
    moreover have "nx y \<noteq> None" "y \<noteq> x" using chain_live [OF c'] us snoc by auto
    ultimately show ?thesis using n(2) xs snoc by auto
  qed
qed

lemma SLIST_REMOVE_missing:
  assumes "chain nx head xs" "x \<notin> set xs"
  shows "SLIST_REMOVE head (Some x) nx = Some (Inl Null_Deref)"
proof -
  have "head \<noteq> Some x" using assms by (cases xs) auto
  then show ?thesis using slist_walk_missing [OF assms] by (simp add: SLIST_REMOVE_def SLIST_FIRST_def)
qed

lemma SLIST_CONCAT_chain:
  assumes c: "chain nx head1 xs" "chain nx head2 ys" and d: "set xs \<inter> set ys = {}"
  shows "\<exists>head nx'. SLIST_CONCAT head1 head2 nx = Some (Inr (head, None, nx')) \<and> chain nx' head (xs @ ys)"
proof (cases "xs = [] \<or> ys = []")
  case True
  then show ?thesis
    using c by (cases "head1 = None"; cases "head2 = None"; cases xs; cases ys)
      (auto simp: SLIST_CONCAT_def SLIST_FIRST_def SLIST_INIT_def)
next
  case False
  then obtain us y where xs: "xs = us @ [y]" by (metis rev_exhaust)
  obtain w where w: "head2 = Some w" using c(2) False by (cases ys) auto
  obtain z where z: "head1 = Some z" using c(1) xs by (cases us) auto
  have walk: "slist_walk nx None head1 = Some (Inr (Some y))"
    using slist_walk_found [of nx z us y "[]"] c(1) xs z by simp
  have live: "nx y \<noteq> None" using chain_live [OF c(1)] xs by simp
  have c': "chain nx head1 (us @ y # [])" using c(1) xs by simp
  have "chain (nx(y \<mapsto> head2)) head2 ys" using c(2) d xs by (simp add: chain_frame)
  from chain_replace [OF c' this] have "chain (nx(y \<mapsto> head2)) head1 (us @ y # ys)"
    using d xs by auto
  moreover have "SLIST_CONCAT head1 head2 nx = Some (Inr (head1, None, nx(y \<mapsto> head2)))"
    using w z walk live by (auto simp: SLIST_CONCAT_def link_simps SLIST_INIT_def)
  ultimately show ?thesis by (simp add: xs)
qed

text \<open>
  An iteration whose body keeps the elements and their order visits all of them, first to last.
\<close>

lemma SLIST_FOREACH_visits:
  assumes c: "chain (lk s) head xs"
    and body: "\<And>a s. a \<in> set xs \<Longrightarrow> I s \<Longrightarrow> \<exists>s'. body a s = Some (Inr s') \<and> s' = f a s \<and> I s' \<and>
       (\<forall>b\<in>set xs. lk s' b = lk s b)"
    and "I s"
  shows "SLIST_FOREACH lk body head s = Some (Inr (fold f xs s))"
proof -
  let ?b = "\<lambda>(var, s). case var of None \<Rightarrow> Some (Inr (Inr s))
      | Some a \<Rightarrow> rbind (body a s) (\<lambda>s'. rbind (Some (SLIST_NEXT (lk s') var)) (\<lambda>n. Some (Inr (Inl (n, s')))))"
  have eq: "chain nx r ys = chain nx' r ys" if "\<forall>b\<in>set ys. nx b = nx' b" for nx nx' r ys
    using that by (induction ys arbitrary: r) auto
  have "run_iter ?b (r, t) = Some (Inr (fold f ys t))" if "chain (lk t) r ys" "I t" "set ys \<subseteq> set xs" for r t ys
    using that
  proof (induction ys arbitrary: r t)
    case Nil
    then show ?case by (intro run_iter_step) simp
  next
    case (Cons y ys)
    then obtain n where n: "r = Some y" "lk t y = Some n" "chain (lk t) n ys" by auto
    obtain t' where t': "body y t = Some (Inr t')" "t' = f y t" "I t'" "\<forall>b\<in>set xs. lk t' b = lk t b"
      using body [of y t] Cons.prems by auto
    have "lk t' y = Some n" using t'(4) n(2) Cons.prems(3) by auto
    then have "run_iter ?b (r, t) = run_iter ?b (n, t')"
      using n t' by (intro run_iter_step) (simp add: link_simps)
    moreover have "chain (lk t') n ys" using n(3) t'(4) Cons.prems(3) eq [of ys "lk t'" "lk t"] by auto
    ultimately show ?case using Cons.IH [of t' n] t' Cons.prems(3) by auto
  qed
  then show ?thesis using c assms(3) unfolding SLIST_FOREACH_def SLIST_FIRST_def by simp
qed

text \<open>Every element is seen together with the address of the link to it.\<close>

lemma SLIST_FOREACH_PREVPTR_pairs:
  assumes "chain nx head xs"
  shows "SLIST_FOREACH_PREVPTR fst (\<lambda>s. fst (snd s)) (\<lambda>p a s. Some (Inr (fst s, fst (snd s), snd (snd s) @ [(p, a)]))) (head, nx, []) =
    Some (Inr (head, nx, zip (None # map Some xs) xs))"
proof -
  let ?b = "prevptr_step fst (\<lambda>s. fst (snd s)) (\<lambda>p a s. Some (Inr (fst s, fst (snd s), snd (snd s) @ [(p, a)])))"
  have "run_iter ?b (p, head, nx, seen) = Some (Inr (head, nx, seen @ zip (p # map Some ys) ys))"
    if "chain nx r ys" "(case p of None \<Rightarrow> Inr head | Some a \<Rightarrow> SLIST_NEXT nx p) = Inr r" for p r ys seen
    using that
  proof (induction ys arbitrary: p r seen)
    case Nil
    then have "?b (p, head, nx, seen) = Some (Inr (Inr (head, nx, seen)))"
      by (cases p) (simp_all add: prevptr_step_def SLIST_FIRST_def)
    then have "run_iter ?b (p, head, nx, seen) = Some (Inr (head, nx, seen))" by (rule run_iter_step(4))
    then show ?case by (simp only: zip.simps append_Nil2)
  next
    case (Cons y ys)
    then obtain n where n: "r = Some y" "nx y = Some n" "chain nx n ys" by auto
    then have "?b (p, head, nx, seen) = Some (Inr (Inl (Some y, head, nx, seen @ [(p, y)])))"
      using Cons.prems(2) by (cases p) (simp_all add: prevptr_step_def SLIST_FIRST_def)
    then have "run_iter ?b (p, head, nx, seen) = run_iter ?b (Some y, head, nx, seen @ [(p, y)])"
      by (rule run_iter_step(3))
    then show ?case using Cons.IH [of n "Some y"] n by (simp add: link_simps)
  qed
  from this [OF assms, of None "[]"] show ?thesis unfolding SLIST_FOREACH_PREVPTR_def by simp
qed

section \<open>The interface\<close>

definition slist_rep :: "ref \<times> links \<Rightarrow> nat list \<Rightarrow> bool" where
  "slist_rep = (\<lambda>(head, nx). chain nx head)"

definition slist_live :: "ref \<times> links \<Rightarrow> nat set" where
  "slist_live = (\<lambda>(head, nx). dom nx)"

definition slist_ins :: "nat \<Rightarrow> ref \<times> links \<Rightarrow> (ref \<times> links) run" where
  "slist_ins x = (\<lambda>(head, nx). Some (SLIST_INSERT_HEAD head (Some x) nx))"

definition slist_del :: "nat \<Rightarrow> ref \<times> links \<Rightarrow> (ref \<times> links) run" where
  "slist_del x = (\<lambda>(head, nx). SLIST_REMOVE head (Some x) nx)"

interpretation slist: object_list slist_rep slist_live slist_ins slist_del
proof
  fix s xs x
  assume a: "slist_rep s xs" "x \<in> slist_live s" "x \<notin> set xs"
  obtain head nx where s: "s = (head, nx)" by fastforce
  show "\<exists>s'. slist_ins x s = Some (Inr s') \<and> slist_rep s' (x # xs) \<and> slist_live s' = slist_live s"
    using SLIST_INSERT_HEAD_chain [of nx head xs x] a
    by (intro exI [of _ "(Some x, nx(x \<mapsto> head))"]) (auto simp: s slist_rep_def slist_live_def slist_ins_def)
next
  fix s xs x
  assume a: "slist_rep s xs" "x \<in> set xs"
  obtain head nx where s: "s = (head, nx)" by fastforce
  show "\<exists>s'. slist_del x s = Some (Inr s') \<and> slist_rep s' (remove1 x xs) \<and> slist_live s' = slist_live s"
    using SLIST_REMOVE_chain [of nx head xs x] a
    by (auto simp: s slist_rep_def slist_live_def slist_del_def)
qed

section \<open>Properties\<close>

text \<open>
  C27. Lists of \<^verbatim>\<open>queue.h\<close>. From an initialised list, every sequence of insertions at the head and
  removals in which allocated elements are inserted that are not in the list, and elements are
  removed that are, runs without a fault and ends; the links then hold exactly the list that the
  same operations give on a sequence.
\<close>

theorem slist_ops_correct:
  assumes "ops_ok (dom nx) [] ops"
  shows "\<exists>head nx'. run_ops slist_ins slist_del ops (SLIST_INIT, nx) = Some (Inr (head, nx')) \<and>
    chain nx' head (foldl spec_op [] ops) \<and> dom nx' = dom nx"
  using slist.run_ops_ok [of "(SLIST_INIT, nx)" "[]" ops] assms
  unfolding slist_rep_def slist_live_def SLIST_INIT_def by (auto split: prod.splits)

theorem slist_ops_correct_witness:
  "\<exists>head nx'. run_ops slist_ins slist_del [Ins 1, Ins 2, Ins 3, Del 2] (SLIST_INIT, \<lambda>a. Some None) = Some (Inr (head, nx')) \<and>
    chain nx' head [3, 1]"
  using slist_ops_correct [of "\<lambda>a. Some None" "[Ins 1, Ins 2, Ins 3, Del 2]"] by (auto simp: dom_def)

text \<open>
  Removing an element that is not in the list walks off its end: the macro dereferences the
  null link of the last element, whatever the list is.
\<close>

theorem slist_remove_missing:
  assumes "chain nx head xs" "x \<notin> set xs"
  shows "SLIST_REMOVE head (Some x) nx = Some (Inl Null_Deref)"
  using assms by (rule SLIST_REMOVE_missing)

theorem slist_remove_missing_witness:
  "SLIST_REMOVE (Some 4) (Some 7) [4 \<mapsto> Some 5, 5 \<mapsto> None] = Some (Inl Null_Deref)"
  by (rule slist_remove_missing [of _ _ "[4, 5]"]) simp_all

text \<open>
  Concatenation moves all elements of the second list behind those of the first and leaves the
  second list empty.
\<close>

theorem slist_concat:
  assumes "chain nx head1 xs" "chain nx head2 ys" "set xs \<inter> set ys = {}"
  shows "\<exists>head nx'. SLIST_CONCAT head1 head2 nx = Some (Inr (head, SLIST_INIT, nx')) \<and>
    chain nx' head (xs @ ys)"
  using SLIST_CONCAT_chain [OF assms] by (simp add: SLIST_INIT_def)

theorem slist_concat_witness:
  "\<exists>head nx'. SLIST_CONCAT (Some 4) (Some 5) [4 \<mapsto> None, 5 \<mapsto> None] = Some (Inr (head, SLIST_INIT, nx')) \<and>
    chain nx' head [4, 5]"
  using slist_concat [of "[4 \<mapsto> None, 5 \<mapsto> None]" "Some 4" "[4]" "Some 5" "[5]"] by simp

end
