(* ===== verification/Queue_Cells.thy ===== *)
theory Queue_Cells
  imports Queue_Slist
begin

text \<open>
  Memory of the other list kinds of \<^verbatim>\<open>server/queue.h\<close>. They keep addresses of link fields: an address
  of a link is the first field of a list head or the next field of an element. A head is a number;
  its fields and those of the elements are maps. An element is live when it has a next field.

  The updates \<open>upd_next\<close>, \<open>upd_prev\<close> and \<open>upd_cell\<close> are what the checked stores do to live elements.
  The lemmas say what a list looks like from its links (\<open>chain\<close>), from its back links (\<open>backs\<close>) and
  what storing through an address of a link does to it; all insertions and removals are such a
  store.
\<close>

datatype cell = First nat | Next nat

record qmem =
  qfirst :: "nat \<Rightarrow> ref"
  qlast :: "nat \<Rightarrow> cell"
  qnext :: links
  qprev :: "nat \<Rightarrow> cell"

definition get_next :: "qmem \<Rightarrow> ref \<Rightarrow> ref checked" where
  "get_next m elm = SLIST_NEXT (qnext m) elm"

definition put_next :: "ref \<Rightarrow> ref \<Rightarrow> qmem \<Rightarrow> qmem checked" where
  "put_next elm v m = cbind (set_link elm v (qnext m)) (\<lambda>nx. Inr (m\<lparr>qnext := nx\<rparr>))"

definition get_prev :: "qmem \<Rightarrow> ref \<Rightarrow> cell checked" where
  "get_prev m elm = cbind (SLIST_NEXT (qnext m) elm) (\<lambda>_. Inr (qprev m (the elm)))"

definition put_prev :: "ref \<Rightarrow> cell \<Rightarrow> qmem \<Rightarrow> qmem checked" where
  "put_prev elm c m = cbind (SLIST_NEXT (qnext m) elm) (\<lambda>_. Inr (m\<lparr>qprev := (qprev m)(the elm := c)\<rparr>))"

definition put_first :: "nat \<Rightarrow> ref \<Rightarrow> qmem \<Rightarrow> qmem" where
  "put_first h r m = m\<lparr>qfirst := (qfirst m)(h := r)\<rparr>"

definition put_last :: "nat \<Rightarrow> cell \<Rightarrow> qmem \<Rightarrow> qmem" where
  "put_last h c m = m\<lparr>qlast := (qlast m)(h := c)\<rparr>"

definition load_cell :: "qmem \<Rightarrow> cell \<Rightarrow> ref checked" where
  "load_cell m c = (case c of First h \<Rightarrow> Inr (qfirst m h) | Next a \<Rightarrow> get_next m (Some a))"

definition store_cell :: "cell \<Rightarrow> ref \<Rightarrow> qmem \<Rightarrow> qmem checked" where
  "store_cell c r m = (case c of First h \<Rightarrow> Inr (put_first h r m) | Next a \<Rightarrow> put_next (Some a) r m)"

text \<open>The address of the next field of \<open>elm\<close>, taken only of elements that are accessed as well.\<close>

definition next_cell :: "ref \<Rightarrow> cell" where
  "next_cell elm = Next (the elm)"

text \<open>
  \<^verbatim>\<open>__containerof\<close> of the address of a next field is the element; of another address it is not one,
  which the model makes a fault.
\<close>

definition containerof_next :: "cell \<Rightarrow> ref checked" where
  "containerof_next c = (case c of First h \<Rightarrow> Inl Bad_Access | Next a \<Rightarrow> Inr (Some a))"

text \<open>
  The iterations over a list: \<open>nxt\<close> reads the next reference, after the body in the plain form, before
  it in the safe form.
\<close>

definition foreach :: "('s \<Rightarrow> ref \<Rightarrow> ref checked) \<Rightarrow> (nat \<Rightarrow> 's \<Rightarrow> 's run) \<Rightarrow> ref \<Rightarrow> 's \<Rightarrow> 's run" where
  "foreach nxt body var0 s0 =
     run_iter (\<lambda>(var, s).
        case var of
          None \<Rightarrow> Some (Inr (Inr s))
        | Some a \<Rightarrow> rbind (body a s) (\<lambda>s'. rbind (Some (nxt s' var)) (\<lambda>n. Some (Inr (Inl (n, s'))))))
       (var0, s0)"

definition foreach_safe :: "('s \<Rightarrow> ref \<Rightarrow> ref checked) \<Rightarrow> (nat \<Rightarrow> 's \<Rightarrow> 's run) \<Rightarrow> ref \<Rightarrow> 's \<Rightarrow> 's run" where
  "foreach_safe nxt body var0 s0 =
     run_iter (\<lambda>(var, s).
        case var of
          None \<Rightarrow> Some (Inr (Inr s))
        | Some a \<Rightarrow> rbind (Some (nxt s var)) (\<lambda>tvar. rbind (body a s) (\<lambda>s'. Some (Inr (Inl (tvar, s'))))))
       (var0, s0)"

section \<open>Updates of live elements\<close>

definition live :: "qmem \<Rightarrow> nat set" where
  "live m = dom (qnext m)"

definition upd_next :: "nat \<Rightarrow> ref \<Rightarrow> qmem \<Rightarrow> qmem" where
  "upd_next a r m = m\<lparr>qnext := (qnext m)(a \<mapsto> r)\<rparr>"

definition upd_prev :: "nat \<Rightarrow> cell \<Rightarrow> qmem \<Rightarrow> qmem" where
  "upd_prev a c m = m\<lparr>qprev := (qprev m)(a := c)\<rparr>"

definition upd_cell :: "cell \<Rightarrow> ref \<Rightarrow> qmem \<Rightarrow> qmem" where
  "upd_cell c r m = (case c of First h \<Rightarrow> put_first h r m | Next a \<Rightarrow> upd_next a r m)"

definition cell_live :: "qmem \<Rightarrow> cell \<Rightarrow> bool" where
  "cell_live m c \<longleftrightarrow> (case c of First h \<Rightarrow> True | Next a \<Rightarrow> a \<in> live m)"

lemmas upd_defs = upd_next_def upd_prev_def upd_cell_def put_first_def put_last_def

lemma cell_live_simps [simp]: "cell_live m (First h)" "cell_live m (Next a) \<longleftrightarrow> a \<in> live m"
  by (simp_all add: cell_live_def)

lemma access_live [simp]:
  "a \<in> live m \<Longrightarrow> get_next m (Some a) = Inr (the (qnext m a))"
  "a \<in> live m \<Longrightarrow> put_next (Some a) v m = Inr (upd_next a v m)"
  "a \<in> live m \<Longrightarrow> get_prev m (Some a) = Inr (qprev m a)"
  "a \<in> live m \<Longrightarrow> put_prev (Some a) c m = Inr (upd_prev a c m)"
  by (auto simp: live_def get_next_def put_next_def get_prev_def put_prev_def link_simps upd_defs)

lemma store_live [simp]: "cell_live m c \<Longrightarrow> store_cell c r m = Inr (upd_cell c r m)"
  by (cases c) (simp_all add: store_cell_def upd_cell_def)

lemma live_upd [simp]:
  "live (upd_next a v m) = insert a (live m)" "live (upd_prev a c m) = live m"
  "live (put_first h r m) = live m" "live (put_last h d m) = live m"
  by (auto simp: live_def upd_defs)

lemma live_upd_cell [simp]: "cell_live m c \<Longrightarrow> live (upd_cell c r m) = live m"
  by (cases c) (auto simp: upd_cell_def)

lemma cell_live_upd [simp]:
  "cell_live m c \<Longrightarrow> cell_live (upd_next a v m) c" "cell_live (upd_prev a d m) c = cell_live m c"
  "cell_live (put_first h r m) c = cell_live m c" "cell_live (put_last h d m) c = cell_live m c"
  "cell_live m d \<Longrightarrow> cell_live (upd_cell d r m) c = cell_live m c"
  by (cases c; simp add: cell_live_def)+

lemma field_upd [simp]:
  "qnext (upd_next a v m) = (qnext m)(a \<mapsto> v)" "qprev (upd_next a v m) = qprev m"
  "qfirst (upd_next a v m) = qfirst m" "qlast (upd_next a v m) = qlast m"
  "qnext (upd_prev a c m) = qnext m" "qprev (upd_prev a c m) = (qprev m)(a := c)"
  "qfirst (upd_prev a c m) = qfirst m" "qlast (upd_prev a c m) = qlast m"
  "qnext (put_first h r m) = qnext m" "qprev (put_first h r m) = qprev m"
  "qfirst (put_first h r m) = (qfirst m)(h := r)" "qlast (put_first h r m) = qlast m"
  "qnext (put_last h d m) = qnext m" "qprev (put_last h d m) = qprev m"
  "qfirst (put_last h d m) = qfirst m" "qlast (put_last h d m) = (qlast m)(h := d)"
  by (simp_all add: upd_defs)

lemma field_upd_cell [simp]:
  "qprev (upd_cell c r m) = qprev m" "qlast (upd_cell c r m) = qlast m"
  by (cases c; simp add: upd_cell_def)+

lemma put_same: "qfirst m h = r \<Longrightarrow> put_first h r m = m" "qlast m h = d \<Longrightarrow> put_last h d m = m"
  by (auto simp: upd_defs)

text \<open>Updates of back links and of the last cell move outwards, where they do not concern the links.\<close>

lemma upd_commute [simp]:
  "upd_next a v (upd_prev b c m) = upd_prev b c (upd_next a v m)"
  "put_first h r (upd_prev b c m) = upd_prev b c (put_first h r m)"
  "upd_next a v (put_last k d m) = put_last k d (upd_next a v m)"
  "put_first h r (put_last k d m) = put_last k d (put_first h r m)"
  "upd_prev b c (put_last k d m) = put_last k d (upd_prev b c m)"
  by (simp_all add: upd_defs)

lemma upd_cell_commute [simp]:
  "upd_cell e r (upd_prev b c m) = upd_prev b c (upd_cell e r m)"
  "upd_cell e r (put_last k d m) = put_last k d (upd_cell e r m)"
  by (cases e; simp add: upd_cell_def)+

section \<open>Shape of a list\<close>

fun backs :: "(nat \<Rightarrow> cell) \<Rightarrow> cell \<Rightarrow> nat list \<Rightarrow> bool" where
  "backs p c [] \<longleftrightarrow> True"
| "backs p c (x # xs) \<longleftrightarrow> p x = c \<and> backs p (Next x) xs"

definition end_cell :: "cell \<Rightarrow> nat list \<Rightarrow> cell" where
  "end_cell c xs = (if xs = [] then c else Next (last xs))"

definition ref_of :: "nat list \<Rightarrow> ref" where
  "ref_of xs = (case xs of [] \<Rightarrow> None | x # _ \<Rightarrow> Some x)"

definition qchain :: "qmem \<Rightarrow> nat \<Rightarrow> nat list \<Rightarrow> bool" where
  "qchain m h xs \<longleftrightarrow> chain (qnext m) (qfirst m h) xs"

lemma end_cell_simps [simp]:
  "end_cell c [] = c" "end_cell c (x # xs) = end_cell (Next x) xs" "end_cell c (xs @ [x]) = Next x"
  "end_cell (end_cell c xs) ys = end_cell c (xs @ ys)" "end_cell c (xs @ y # ys) = end_cell (Next y) ys"
  by (auto simp: end_cell_def)

lemma ref_of_simps [simp]: "ref_of [] = None" "ref_of (x # xs) = Some x"
  by (simp_all add: ref_of_def)

lemma ref_of_None [simp]: "ref_of xs = None \<longleftrightarrow> xs = []"
  by (cases xs) auto

lemma chain_ref_of: "chain nx r xs \<Longrightarrow> r = ref_of xs"
  by (cases xs) auto

lemma backs_append [simp]: "backs p c (xs @ ys) \<longleftrightarrow> backs p c xs \<and> backs p (end_cell c xs) ys"
  by (induction xs arbitrary: c) auto

lemma backs_frame [simp]: "a \<notin> set xs \<Longrightarrow> backs (p(a := v)) c xs = backs p c xs"
  by (induction xs arbitrary: c) auto

text \<open>The back links keep the elements of different heads apart.\<close>

lemma backs_disjoint:
  assumes "backs p (First h) xs" "backs p (First k) ys" "h \<noteq> k"
  shows "set xs \<inter> set ys = {}"
proof -
  have "xs = us @ x # vs \<Longrightarrow> ys = us' @ x # vs' \<Longrightarrow> False" for x us vs us' vs'
  proof (induction us arbitrary: x vs us' vs' rule: rev_induct)
    case Nil
    then show ?case using assms by (cases us' rule: rev_cases) auto
  next
    case (snoc u us)
    then show ?case using assms by (cases us' rule: rev_cases) auto
  qed
  then show ?thesis by (metis disjoint_iff split_list)
qed

lemma chain_suffix: "chain nx r (us @ vs) \<Longrightarrow> chain nx (ref_of vs) vs"
  by (induction us arbitrary: r) (auto dest: chain_ref_of)

lemma qchain_live: "qchain m h xs \<Longrightarrow> x \<in> set xs \<Longrightarrow> x \<in> live m"
  unfolding qchain_def live_def using chain_live by blast

lemma qchain_distinct: "qchain m h xs \<Longrightarrow> distinct xs"
  unfolding qchain_def by (rule chain_distinct)

lemma end_cell_cases:
  obtains "us = []" "end_cell (First h) us = First h" | ws y where "us = ws @ [y]" "end_cell (First h) us = Next y"
  by (cases us rule: rev_cases) auto

text \<open>The cell behind the elements \<open>us\<close> of a list holds the reference to the rest.\<close>

lemma end_cell_live: "qchain m h (us @ vs) \<Longrightarrow> cell_live m (end_cell (First h) us)"
  by (rule end_cell_cases [of us h]) (auto dest: qchain_live)

lemma load_end_cell:
  assumes "qchain m h (us @ vs)"
  shows "load_cell m (end_cell (First h) us) = Inr (ref_of vs)"
proof (cases rule: end_cell_cases [of us h])
  case 1
  then show ?thesis using assms by (auto simp: qchain_def load_cell_def dest: chain_ref_of)
next
  case (2 ws y)
  then obtain n where "qnext m y = Some n" "chain (qnext m) n vs"
    using chain_append [of "qnext m" "qfirst m h" ws y vs] assms by (auto simp: qchain_def)
  then show ?thesis using 2 by (auto simp: load_cell_def get_next_def link_simps dest: chain_ref_of)
qed

text \<open>Storing there replaces the rest.\<close>

lemma qchain_upd_cell:
  assumes "qchain m h (us @ vs)" "chain (qnext m) r ws" "set us \<inter> set ws = {}"
  shows "qchain (upd_cell (end_cell (First h) us) r m) h (us @ ws)"
proof (cases rule: end_cell_cases [of us h])
  case 1
  then show ?thesis using assms by (simp add: upd_defs qchain_def)
next
  case (2 ys y)
  have c: "chain (qnext m) (qfirst m h) (ys @ y # vs)" using assms(1) 2 by (simp add: qchain_def)
  let ?nx = "(qnext m)(y \<mapsto> r)"
  have "chain ?nx r ws" using assms(2,3) 2 by (simp add: chain_frame)
  from chain_replace [OF c this] have "chain ?nx (qfirst m h) (ys @ y # ws)" using assms(3) 2 by auto
  then show ?thesis using 2 by (simp add: upd_cell_def qchain_def)
qed

lemma qchain_upd [simp]:
  "qchain (upd_prev a c m) h xs = qchain m h xs" "qchain (put_last k d m) h xs = qchain m h xs"
  "a \<notin> set xs \<Longrightarrow> qchain (upd_next a v m) h xs = qchain m h xs"
  "k \<noteq> h \<Longrightarrow> qchain (put_first k r m) h xs = qchain m h xs"
  by (simp_all add: qchain_def chain_frame)

text \<open>Inserting \<open>x\<close> behind \<open>us\<close>, and removing the element behind \<open>us\<close>.\<close>

lemma qchain_insert:
  assumes "qchain m h (us @ vs)" "x \<notin> set (us @ vs)"
  shows "qchain (upd_cell (end_cell (First h) us) (Some x) (upd_next x (ref_of vs) m)) h (us @ x # vs)"
proof -
  have "chain (qnext m) (ref_of vs) vs" using assms(1) chain_suffix by (auto simp: qchain_def)
  then have "chain (qnext (upd_next x (ref_of vs) m)) (Some x) (x # vs)" using assms(2) by (simp add: chain_frame)
  moreover have "set us \<inter> set (x # vs) = {}"
    using assms qchain_distinct [OF assms(1)] by auto
  ultimately show ?thesis using assms by (intro qchain_upd_cell [of _ _ us vs]) auto
qed

lemma qchain_remove:
  assumes "qchain m h (us @ x # vs)"
  shows "qchain (upd_cell (end_cell (First h) us) (ref_of vs) m) h (us @ vs)"
  using assms qchain_distinct [OF assms] chain_suffix [of "qnext m" "qfirst m h" "us @ [x]" vs]
  by (intro qchain_upd_cell [of _ _ us "x # vs"]) (auto simp: qchain_def)

text \<open>The reference in the next field of an element.\<close>

lemma qchain_next: "qchain m h (us @ x # vs) \<Longrightarrow> qnext m x = Some (ref_of vs)"
  unfolding qchain_def by (drule chain_append) (auto dest: chain_ref_of)

lemma qchain_first: "qchain m h xs \<Longrightarrow> qfirst m h = ref_of xs"
  unfolding qchain_def by (rule chain_ref_of)

section \<open>What an operation leaves alone\<close>

definition frame :: "nat set \<Rightarrow> nat set \<Rightarrow> qmem \<Rightarrow> qmem \<Rightarrow> bool" where
  "frame H S m m' \<longleftrightarrow> live m' = live m \<and>
     (\<forall>h. h \<notin> H \<longrightarrow> qfirst m' h = qfirst m h \<and> qlast m' h = qlast m h) \<and>
     (\<forall>a. a \<notin> S \<longrightarrow> qnext m' a = qnext m a \<and> qprev m' a = qprev m a)"

lemma frame_refl [simp]: "frame H S m m"
  by (simp add: frame_def)

lemma frame_upd:
  "frame H S m m' \<Longrightarrow> a \<in> S \<Longrightarrow> a \<in> live m \<Longrightarrow> frame H S m (upd_next a v m')"
  "frame H S m m' \<Longrightarrow> a \<in> S \<Longrightarrow> frame H S m (upd_prev a c m')"
  "frame H S m m' \<Longrightarrow> h \<in> H \<Longrightarrow> frame H S m (put_first h r m')"
  "frame H S m m' \<Longrightarrow> h \<in> H \<Longrightarrow> frame H S m (put_last h c m')"
  by (auto simp: frame_def)

lemma frame_upd_cell:
  assumes "frame H S m m'" "h \<in> H" "set us \<subseteq> S" "set us \<subseteq> live m"
  shows "frame H S m (upd_cell (end_cell (First h) us) r m')"
  using assms by (cases rule: end_cell_cases [of us h]) (auto simp: upd_cell_def intro!: frame_upd)

lemmas frame_intros = frame_refl frame_upd frame_upd_cell

text \<open>Lists on other heads, over other elements, stay as they are.\<close>

lemma chain_cong: "\<forall>x\<in>set xs. nx' x = nx x \<Longrightarrow> chain nx' r xs = chain nx r xs"
  by (induction xs arbitrary: r) auto

lemma backs_cong: "\<forall>x\<in>set xs. p' x = p x \<Longrightarrow> backs p' c xs = backs p c xs"
  by (induction xs arbitrary: c) auto

lemma frame_lists:
  assumes "frame H S m m'" "h \<notin> H" "set xs \<inter> S = {}"
  shows "qchain m' h xs = qchain m h xs" "backs (qprev m') c xs = backs (qprev m) c xs" "qlast m' h = qlast m h"
proof -
  have "\<forall>x\<in>set xs. qnext m' x = qnext m x" "\<forall>x\<in>set xs. qprev m' x = qprev m x" "qfirst m' h = qfirst m h"
    using assms by (auto simp: frame_def)
  then show "qchain m' h xs = qchain m h xs" "backs (qprev m') c xs = backs (qprev m) c xs"
    using chain_cong [of xs "qnext m'" "qnext m"] backs_cong [of xs "qprev m'"] by (auto simp: qchain_def)
  show "qlast m' h = qlast m h" using assms by (simp add: frame_def)
qed

section \<open>Iteration\<close>

text \<open>
  \<open>I ys s\<close>: the elements \<open>ys\<close> are still to be visited in state \<open>s\<close>. The plain form reads the link of the element
  it has visited, so the body must keep it; the safe form has read it before.
\<close>

lemma foreach_visits:
  assumes step: "\<And>y ys s. I (y # ys) s \<Longrightarrow>
      \<exists>s'. body y s = Some (Inr s') \<and> nxt s' (Some y) = Inr (ref_of ys) \<and> I ys s'"
    and "I xs s"
  shows "\<exists>s'. foreach nxt body (ref_of xs) s = Some (Inr s') \<and> I [] s'"
  using assms(2)
proof (induction xs arbitrary: s)
  case Nil
  then show ?case unfolding foreach_def by (intro exI [of _ s] conjI run_iter_step) simp_all
next
  case (Cons y ys)
  then obtain t where t: "body y s = Some (Inr t)" "nxt t (Some y) = Inr (ref_of ys)" "I ys t"
    using step by blast
  have "foreach nxt body (ref_of (y # ys)) s = foreach nxt body (ref_of ys) t"
    unfolding foreach_def using t by (intro run_iter_step) simp
  then show ?case using Cons.IH [OF t(3)] by simp
qed

text \<open>In particular a body that keeps what the links say, \<open>R\<close>, is run on all elements in order.\<close>

lemma foreach_fold:
  assumes body: "\<And>x s. x \<in> set xs \<Longrightarrow> R s \<Longrightarrow> body x s = Some (Inr (f x s)) \<and> R (f x s)"
    and nxt: "\<And>us y ys s. xs = us @ y # ys \<Longrightarrow> R s \<Longrightarrow> nxt s (Some y) = Inr (ref_of ys)"
    and "R s"
  shows "foreach nxt body (ref_of xs) s = Some (Inr (fold f xs s))"
proof -
  let ?I = "\<lambda>ys t. \<exists>us. xs = us @ ys \<and> R t \<and> t = fold f us s"
  have "\<exists>t. foreach nxt body (ref_of xs) s = Some (Inr t) \<and> ?I [] t"
  proof (rule foreach_visits)
    fix y ys t
    assume "?I (y # ys) t"
    then obtain us where us: "xs = us @ y # ys" "R t" "t = fold f us s" by blast
    then have "?I ys (f y t)" using body [of y t] by (intro exI [of _ "us @ [y]"]) simp
    then show "\<exists>t'. body y t = Some (Inr t') \<and> nxt t' (Some y) = Inr (ref_of ys) \<and> ?I ys t'"
      using us body [of y t] nxt [OF us(1)] by (intro exI [of _ "f y t"]) simp
  qed (use assms(3) in simp)
  then show ?thesis by auto
qed

lemma foreach_safe_visits:
  assumes step: "\<And>y ys s. I (y # ys) s \<Longrightarrow>
      nxt s (Some y) = Inr (ref_of ys) \<and> (\<exists>s'. body y s = Some (Inr s') \<and> I ys s')"
    and "I xs s"
  shows "\<exists>s'. foreach_safe nxt body (ref_of xs) s = Some (Inr s') \<and> I [] s'"
  using assms(2)
proof (induction xs arbitrary: s)
  case Nil
  then show ?case unfolding foreach_safe_def by (intro exI [of _ s] conjI run_iter_step) simp_all
next
  case (Cons y ys)
  then obtain t where t: "nxt s (Some y) = Inr (ref_of ys)" "body y s = Some (Inr t)" "I ys t"
    using step by blast
  have "foreach_safe nxt body (ref_of (y # ys)) s = foreach_safe nxt body (ref_of ys) t"
    unfolding foreach_safe_def using t by (intro run_iter_step) simp
  then show ?case using Cons.IH [OF t(3)] by simp
qed

text \<open>A body that records the elements it sees.\<close>

definition collect :: "nat \<Rightarrow> qmem \<times> nat list \<Rightarrow> (qmem \<times> nat list) run" where
  "collect x = (\<lambda>(m, seen). Some (Inr (m, seen @ [x])))"

lemma fold_collect: "fold (\<lambda>x (m, seen). (m, seen @ [x])) xs (m, acc) = (m, acc @ xs)"
  by (induction xs arbitrary: acc) auto

lemma foreach_collect:
  assumes "\<And>us y ys. xs = us @ y # ys \<Longrightarrow> nxt m (Some y) = Inr (ref_of ys)"
  shows "foreach (\<lambda>s. nxt (fst s)) collect (ref_of xs) (m, []) = Some (Inr (m, xs))"
  using foreach_fold [of xs "\<lambda>s. fst s = m" collect "\<lambda>x (m, seen). (m, seen @ [x])" "\<lambda>s. nxt (fst s)" "(m, [])"] assms
  by (auto simp: collect_def fold_collect)

lemma next_cell_Some [simp]: "next_cell (Some a) = Next a"
  by (simp add: next_cell_def)

end
