(* ===== verification/Queue_Stailq.thy ===== *)
theory Queue_Stailq
  imports Queue_Cells
begin

text \<open>
  The singly-linked tail queues of \<^verbatim>\<open>server/queue.h\<close> (the \<^verbatim>\<open>STAILQ\<close> macros): a chain of links and, in
  the head, the address of the link that ends it. Back links are not used.
\<close>

section \<open>The macros\<close>

definition STAILQ_FIRST :: "qmem \<Rightarrow> nat \<Rightarrow> ref" where
  "STAILQ_FIRST m head = qfirst m head"

definition STAILQ_EMPTY :: "qmem \<Rightarrow> nat \<Rightarrow> bool" where
  "STAILQ_EMPTY m head \<longleftrightarrow> qfirst m head = None"

definition STAILQ_NEXT :: "qmem \<Rightarrow> ref \<Rightarrow> ref checked" where
  "STAILQ_NEXT m elm = get_next m elm"

definition STAILQ_INIT :: "nat \<Rightarrow> qmem \<Rightarrow> qmem" where
  "STAILQ_INIT head m = put_last head (First head) (put_first head None m)"

definition STAILQ_HEAD_INITIALIZER :: "nat \<Rightarrow> ref \<times> cell" where
  "STAILQ_HEAD_INITIALIZER head = (None, First head)"

definition STAILQ_CONCAT :: "nat \<Rightarrow> nat \<Rightarrow> qmem \<Rightarrow> qmem checked" where
  "STAILQ_CONCAT head1 head2 m =
     (if \<not> STAILQ_EMPTY m head2
      then cbind (store_cell (qlast m head1) (qfirst m head2) m) (\<lambda>m1.
           Inr (STAILQ_INIT head2 (put_last head1 (qlast m1 head2) m1)))
      else Inr m)"

definition STAILQ_FOREACH :: "('s \<Rightarrow> qmem) \<Rightarrow> (nat \<Rightarrow> 's \<Rightarrow> 's run) \<Rightarrow> nat \<Rightarrow> 's \<Rightarrow> 's run" where
  "STAILQ_FOREACH q body head s = foreach (\<lambda>s. STAILQ_NEXT (q s)) body (STAILQ_FIRST (q s) head) s"

definition STAILQ_FOREACH_FROM :: "('s \<Rightarrow> qmem) \<Rightarrow> (nat \<Rightarrow> 's \<Rightarrow> 's run) \<Rightarrow> ref \<Rightarrow> nat \<Rightarrow> 's \<Rightarrow> 's run" where
  "STAILQ_FOREACH_FROM q body var head s =
     foreach (\<lambda>s. STAILQ_NEXT (q s)) body (if var \<noteq> None then var else STAILQ_FIRST (q s) head) s"

definition STAILQ_FOREACH_SAFE :: "('s \<Rightarrow> qmem) \<Rightarrow> (nat \<Rightarrow> 's \<Rightarrow> 's run) \<Rightarrow> nat \<Rightarrow> 's \<Rightarrow> 's run" where
  "STAILQ_FOREACH_SAFE q body head s =
     foreach_safe (\<lambda>s. STAILQ_NEXT (q s)) body (STAILQ_FIRST (q s) head) s"

definition STAILQ_FOREACH_FROM_SAFE ::
  "('s \<Rightarrow> qmem) \<Rightarrow> (nat \<Rightarrow> 's \<Rightarrow> 's run) \<Rightarrow> ref \<Rightarrow> nat \<Rightarrow> 's \<Rightarrow> 's run" where
  "STAILQ_FOREACH_FROM_SAFE q body var head s =
     foreach_safe (\<lambda>s. STAILQ_NEXT (q s)) body (if var \<noteq> None then var else STAILQ_FIRST (q s) head) s"

definition STAILQ_INSERT_AFTER :: "nat \<Rightarrow> ref \<Rightarrow> ref \<Rightarrow> qmem \<Rightarrow> qmem checked" where
  "STAILQ_INSERT_AFTER head tqelm elm m =
     cbind (STAILQ_NEXT m tqelm) (\<lambda>n.
     cbind (put_next elm n m) (\<lambda>m1.
     put_next tqelm elm (if n = None then put_last head (next_cell elm) m1 else m1)))"

definition STAILQ_INSERT_HEAD :: "nat \<Rightarrow> ref \<Rightarrow> qmem \<Rightarrow> qmem checked" where
  "STAILQ_INSERT_HEAD head elm m =
     cbind (put_next elm (STAILQ_FIRST m head) m) (\<lambda>m1.
     Inr (put_first head elm
       (if STAILQ_FIRST m head = None then put_last head (next_cell elm) m1 else m1)))"

definition STAILQ_INSERT_TAIL :: "nat \<Rightarrow> ref \<Rightarrow> qmem \<Rightarrow> qmem checked" where
  "STAILQ_INSERT_TAIL head elm m =
     cbind (put_next elm None m) (\<lambda>m1.
     cbind (store_cell (qlast m1 head) elm m1) (\<lambda>m2.
     Inr (put_last head (next_cell elm) m2)))"

definition STAILQ_LAST :: "qmem \<Rightarrow> nat \<Rightarrow> ref checked" where
  "STAILQ_LAST m head = (if STAILQ_EMPTY m head then Inr None else containerof_next (qlast m head))"

definition STAILQ_REMOVE_AFTER :: "nat \<Rightarrow> ref \<Rightarrow> qmem \<Rightarrow> qmem checked" where
  "STAILQ_REMOVE_AFTER head elm m =
     cbind (STAILQ_NEXT m elm) (\<lambda>n.
     cbind (STAILQ_NEXT m n) (\<lambda>nn.
     cbind (put_next elm nn m) (\<lambda>m1.
     Inr (if nn = None then put_last head (next_cell elm) m1 else m1))))"

definition STAILQ_REMOVE_HEAD :: "nat \<Rightarrow> qmem \<Rightarrow> qmem checked" where
  "STAILQ_REMOVE_HEAD head m =
     cbind (STAILQ_NEXT m (STAILQ_FIRST m head)) (\<lambda>n.
     let m1 = put_first head n m in
     Inr (if n = None then put_last head (First head) m1 else m1))"

definition STAILQ_REMOVE :: "nat \<Rightarrow> ref \<Rightarrow> qmem \<Rightarrow> qmem run" where
  "STAILQ_REMOVE head elm m =
     (if STAILQ_FIRST m head = elm then Some (STAILQ_REMOVE_HEAD head m)
      else rbind (slist_walk (qnext m) elm (STAILQ_FIRST m head)) (\<lambda>curelm.
           Some (STAILQ_REMOVE_AFTER head curelm m)))"

definition STAILQ_SWAP :: "nat \<Rightarrow> nat \<Rightarrow> qmem \<Rightarrow> qmem" where
  "STAILQ_SWAP head1 head2 m =
     (let swap_first = STAILQ_FIRST m head1;
          swap_last = qlast m head1;
          m1 = put_first head1 (STAILQ_FIRST m head2) m;
          m2 = put_last head1 (qlast m1 head2) m1;
          m3 = put_first head2 swap_first m2;
          m4 = put_last head2 swap_last m3;
          m5 = (if STAILQ_EMPTY m4 head1 then put_last head1 (First head1) m4 else m4) in
      if STAILQ_EMPTY m5 head2 then put_last head2 (First head2) m5 else m5)"

section \<open>What the macros do to the queue\<close>

definition STAILQ_rep :: "nat \<Rightarrow> qmem \<Rightarrow> nat list \<Rightarrow> bool" where
  "STAILQ_rep h m xs \<longleftrightarrow> qchain m h xs \<and> qlast m h = end_cell (First h) xs"

lemmas STAILQ_simps = STAILQ_FIRST_def STAILQ_NEXT_def STAILQ_EMPTY_def

lemma STAILQ_rep_frame:
  "frame H S m m' \<Longrightarrow> h \<notin> H \<Longrightarrow> set xs \<inter> S = {} \<Longrightarrow> STAILQ_rep h m' xs = STAILQ_rep h m xs"
  by (simp add: STAILQ_rep_def frame_lists)

lemma STAILQ_rep_live: "STAILQ_rep h m xs \<Longrightarrow> set xs \<subseteq> live m"
  by (auto simp: STAILQ_rep_def dest: qchain_live)

lemma STAILQ_INIT_rep: "STAILQ_rep h (STAILQ_INIT h m) []"
  by (simp add: STAILQ_rep_def STAILQ_INIT_def qchain_def)

lemma STAILQ_INITIALIZER_rep: "(qfirst m h, qlast m h) = STAILQ_HEAD_INITIALIZER h \<Longrightarrow> STAILQ_rep h m []"
  by (simp add: STAILQ_rep_def STAILQ_HEAD_INITIALIZER_def qchain_def)

lemma STAILQ_INSERT_HEAD_rep:
  assumes r: "STAILQ_rep h m xs" and x: "x \<in> live m" "x \<notin> set xs"
  shows "\<exists>m'. STAILQ_INSERT_HEAD h (Some x) m = Inr m' \<and> STAILQ_rep h m' (x # xs) \<and> frame {h} (set (x # xs)) m m'"
proof -
  have c: "qchain m h xs" "qlast m h = end_cell (First h) xs" using r by (auto simp: STAILQ_rep_def)
  show ?thesis using c x qchain_insert [of m h "[]" xs x] qchain_first [OF c(1)]
    by (cases xs) (auto simp: STAILQ_INSERT_HEAD_def STAILQ_rep_def STAILQ_simps upd_cell_def intro!: frame_intros)
qed

lemma STAILQ_INSERT_AFTER_rep:
  assumes r: "STAILQ_rep h m (us @ y # vs)" and x: "x \<in> live m" "x \<notin> set (us @ y # vs)"
  shows "\<exists>m'. STAILQ_INSERT_AFTER h (Some y) (Some x) m = Inr m' \<and> STAILQ_rep h m' (us @ y # x # vs) \<and>
    frame {h} (set (us @ y # x # vs)) m m'"
proof -
  have c: "qchain m h ((us @ [y]) @ vs)" "qlast m h = end_cell (First h) (us @ y # vs)" "qnext m y = Some (ref_of vs)"
      "y \<in> live m"
    using r qchain_next [of m h us y vs] STAILQ_rep_live [OF r] by (auto simp: STAILQ_rep_def)
  show ?thesis using c x qchain_insert [OF c(1), of x]
    by (cases vs) (auto simp: STAILQ_INSERT_AFTER_def STAILQ_rep_def STAILQ_simps upd_cell_def end_cell_def intro!: frame_intros)
qed

lemma STAILQ_INSERT_TAIL_rep:
  assumes r: "STAILQ_rep h m xs" and x: "x \<in> live m" "x \<notin> set xs"
  shows "\<exists>m'. STAILQ_INSERT_TAIL h (Some x) m = Inr m' \<and> STAILQ_rep h m' (xs @ [x]) \<and> frame {h} (set (xs @ [x])) m m'"
proof -
  have c: "qchain m h (xs @ [])" "qlast m h = end_cell (First h) xs" using r by (auto simp: STAILQ_rep_def)
  have "frame {h} (set (xs @ [x])) m (upd_cell (end_cell (First h) xs) (Some x) (upd_next x None m))"
    using x STAILQ_rep_live [OF r] by (intro frame_intros) auto
  then show ?thesis using c x qchain_insert [OF c(1), of x] end_cell_live [OF c(1)]
    by (auto simp: STAILQ_INSERT_TAIL_def STAILQ_rep_def STAILQ_simps intro!: frame_upd)
qed

lemma STAILQ_REMOVE_HEAD_rep:
  assumes r: "STAILQ_rep h m (x # xs)"
  shows "\<exists>m'. STAILQ_REMOVE_HEAD h m = Inr m' \<and> STAILQ_rep h m' xs \<and> frame {h} (set xs) m m'"
proof -
  have c: "qchain m h ([] @ x # xs)" "qlast m h = end_cell (First h) (x # xs)" "x \<in> live m"
    using r STAILQ_rep_live [OF r] by (auto simp: STAILQ_rep_def)
  show ?thesis using c qchain_remove [OF c(1)] qchain_next [OF c(1)] qchain_first [OF c(1)]
    by (cases xs) (auto simp: STAILQ_REMOVE_HEAD_def STAILQ_rep_def STAILQ_simps upd_cell_def Let_def intro!: frame_intros)
qed

lemma STAILQ_REMOVE_AFTER_rep:
  assumes r: "STAILQ_rep h m (us @ y # x # vs)"
  shows "\<exists>m'. STAILQ_REMOVE_AFTER h (Some y) m = Inr m' \<and> STAILQ_rep h m' (us @ y # vs) \<and> frame {h} (set (us @ y # vs)) m m'"
proof -
  have c: "qchain m h ((us @ [y]) @ x # vs)" "qlast m h = end_cell (First h) (us @ y # x # vs)"
      "qnext m y = Some (Some x)" "x \<in> live m" "y \<in> live m"
    using r STAILQ_rep_live [OF r] qchain_next [of m h us y "x # vs"] by (auto simp: STAILQ_rep_def)
  show ?thesis using c qchain_remove [OF c(1)] qchain_next [OF c(1)]
    by (cases vs) (auto simp: STAILQ_REMOVE_AFTER_def STAILQ_rep_def STAILQ_simps upd_cell_def end_cell_def intro!: frame_intros)
qed

lemma STAILQ_REMOVE_rep:
  assumes r: "STAILQ_rep h m (us @ x # vs)"
  shows "\<exists>m'. STAILQ_REMOVE h (Some x) m = Some (Inr m') \<and> STAILQ_rep h m' (us @ vs) \<and> frame {h} (set (us @ vs)) m m'"
proof (cases us rule: rev_cases)
  case Nil
  have "qfirst m h = Some x" using r Nil qchain_first [of m h "x # vs"] by (simp add: STAILQ_rep_def)
  then show ?thesis using STAILQ_REMOVE_HEAD_rep [of h m x vs] r Nil by (simp add: STAILQ_REMOVE_def STAILQ_simps)
next
  case (snoc ws y)
  have c: "qchain m h (ws @ y # x # vs)" using r snoc by (simp add: STAILQ_rep_def)
  obtain z where z: "qfirst m h = Some z" "z \<noteq> x"
    using qchain_first [OF c] qchain_distinct [OF c] by (cases ws) auto
  then have "slist_walk (qnext m) (Some x) (Some z) = Some (Inr (Some y))"
    using slist_walk_found [of "qnext m" z ws y "x # vs" "Some x"] c by (simp add: qchain_def)
  then show ?thesis using STAILQ_REMOVE_AFTER_rep [of h m ws y x vs] r snoc z
    by (simp add: STAILQ_REMOVE_def STAILQ_simps)
qed

lemma STAILQ_LAST_rep:
  "STAILQ_rep h m xs \<Longrightarrow> STAILQ_LAST m h = Inr (if xs = [] then None else Some (last xs))"
  using qchain_first [of m h xs]
  by (auto simp: STAILQ_rep_def STAILQ_LAST_def STAILQ_EMPTY_def containerof_next_def end_cell_def)

lemma STAILQ_CONCAT_rep:
  assumes r: "STAILQ_rep h m xs" "STAILQ_rep k m ys" "h \<noteq> k" and d: "set xs \<inter> set ys = {}"
  shows "\<exists>m'. STAILQ_CONCAT h k m = Inr m' \<and> STAILQ_rep h m' (xs @ ys) \<and> STAILQ_rep k m' [] \<and>
    frame {h, k} (set (xs @ ys)) m m'"
proof (cases ys)
  case Nil
  then show ?thesis using r qchain_first [of m k ys] by (simp add: STAILQ_CONCAT_def STAILQ_simps STAILQ_rep_def)
next
  case (Cons w ws)
  have c: "qchain m h (xs @ [])" "chain (qnext m) (ref_of ys) ys" "qfirst m k = ref_of ys"
    using r qchain_first by (auto simp: STAILQ_rep_def qchain_def dest: chain_ref_of)
  have "frame {h, k} (set (xs @ ys)) m (upd_cell (end_cell (First h) xs) (Some w) m)"
    using STAILQ_rep_live [OF r(1)] by (intro frame_intros) auto
  then show ?thesis using Cons r c d qchain_upd_cell [OF c(1,2)] end_cell_live [OF c(1)]
    by (auto simp: STAILQ_CONCAT_def STAILQ_rep_def STAILQ_simps STAILQ_INIT_def qchain_def intro!: frame_upd)
qed

lemma STAILQ_SWAP_rep:
  assumes "STAILQ_rep h m xs" "STAILQ_rep k m ys" "h \<noteq> k"
  shows "STAILQ_rep h (STAILQ_SWAP h k m) ys \<and> STAILQ_rep k (STAILQ_SWAP h k m) xs"
  using assms qchain_first [of m h xs] qchain_first [of m k ys]
  by (cases xs; cases ys) (auto simp: STAILQ_SWAP_def STAILQ_simps STAILQ_rep_def qchain_def Let_def)

lemma STAILQ_FOREACH_collect:
  assumes "STAILQ_rep h m xs"
  shows "STAILQ_FOREACH fst collect h (m, []) = Some (Inr (m, xs))"
proof -
  have "STAILQ_NEXT m (Some y) = Inr (ref_of ys)" if "xs = us @ y # ys" for us y ys
    using that assms qchain_next [of m h us y ys] qchain_live [of m h xs y] by (simp add: STAILQ_rep_def STAILQ_NEXT_def)
  then show ?thesis using foreach_collect [of xs STAILQ_NEXT m] qchain_first [of m h xs] assms
    by (simp add: STAILQ_FOREACH_def STAILQ_FIRST_def STAILQ_rep_def)
qed

section \<open>The interface\<close>

fun stailq_step :: "nat \<Rightarrow> queue_op \<Rightarrow> qmem \<Rightarrow> qmem run" where
  "stailq_step h (Push x) m = Some (STAILQ_INSERT_HEAD h (Some x) m)"
| "stailq_step h (Append x) m = Some (STAILQ_INSERT_TAIL h (Some x) m)"
| "stailq_step h Pop m = Some (STAILQ_REMOVE_HEAD h m)"
| "stailq_step h (Drop x) m = STAILQ_REMOVE h (Some x) m"

interpretation stailq: object_queue "STAILQ_rep h" live "stailq_step h" for h
proof
  fix m xs x
  assume a: "STAILQ_rep h m xs" "x \<in> live m" "x \<notin> set xs"
  show "\<exists>m'. stailq_step h (Push x) m = Some (Inr m') \<and> STAILQ_rep h m' (x # xs) \<and> live m' = live m"
    using STAILQ_INSERT_HEAD_rep [OF a] by (auto simp: frame_def)
  show "\<exists>m'. stailq_step h (Append x) m = Some (Inr m') \<and> STAILQ_rep h m' (xs @ [x]) \<and> live m' = live m"
    using STAILQ_INSERT_TAIL_rep [OF a] by (auto simp: frame_def)
next
  fix m xs x
  assume r: "STAILQ_rep h m xs" and x: "x \<in> set xs"
  obtain us vs where xs: "xs = us @ x # vs" "x \<notin> set us" using split_list_first [OF x] by blast
  then have "remove1 x xs = us @ vs" by (simp add: remove1_append)
  then show "\<exists>m'. stailq_step h (Drop x) m = Some (Inr m') \<and> STAILQ_rep h m' (remove1 x xs) \<and> live m' = live m"
    using STAILQ_REMOVE_rep [of h m us x vs] r xs by (auto simp: frame_def)
next
  fix m x xs
  assume "STAILQ_rep h m (x # xs)"
  then show "\<exists>m'. stailq_step h Pop m = Some (Inr m') \<and> STAILQ_rep h m' xs \<and> live m' = live m"
    using STAILQ_REMOVE_HEAD_rep by (fastforce simp: frame_def)
qed

end
