(* ===== verification/Queue_List.thy ===== *)
theory Queue_List
  imports Queue_Cells
begin

text \<open>
  The doubly-linked lists of \<^verbatim>\<open>server/queue.h\<close> (the \<^verbatim>\<open>LIST\<close> macros). \<open>LIST_rep m h xs\<close> says that head \<open>h\<close>
  of the memory \<open>m\<close> holds the elements \<open>xs\<close>, the back link of each being the address of the link that refers
  to it. Every macro is shown to be an operation on that list which leaves other lists alone.
\<close>

section \<open>The macros\<close>

definition LIST_FIRST :: "qmem \<Rightarrow> nat \<Rightarrow> ref" where
  "LIST_FIRST m head = qfirst m head"

definition LIST_EMPTY :: "qmem \<Rightarrow> nat \<Rightarrow> bool" where
  "LIST_EMPTY m head \<longleftrightarrow> qfirst m head = None"

definition LIST_NEXT :: "qmem \<Rightarrow> ref \<Rightarrow> ref checked" where
  "LIST_NEXT m elm = get_next m elm"

definition LIST_INIT :: "nat \<Rightarrow> qmem \<Rightarrow> qmem" where
  "LIST_INIT head m = put_first head None m"

definition LIST_HEAD_INITIALIZER :: ref where
  "LIST_HEAD_INITIALIZER = None"

text \<open>
  The consistency checks that the header makes in a kernel built with \<^verbatim>\<open>INVARIANTS\<close>; they are empty
  here. False stands for the panic.
\<close>

definition QMD_LIST_CHECK_HEAD :: "qmem \<Rightarrow> nat \<Rightarrow> bool checked" where
  "QMD_LIST_CHECK_HEAD m head =
     (if LIST_FIRST m head \<noteq> None then cbind (get_prev m (LIST_FIRST m head)) (\<lambda>p. Inr (p = First head)) else Inr True)"

definition QMD_LIST_CHECK_NEXT :: "qmem \<Rightarrow> ref \<Rightarrow> bool checked" where
  "QMD_LIST_CHECK_NEXT m elm =
     cbind (LIST_NEXT m elm) (\<lambda>n.
     if n \<noteq> None then cbind (get_prev m n) (\<lambda>p. Inr (p = next_cell elm)) else Inr True)"

definition QMD_LIST_CHECK_PREV :: "qmem \<Rightarrow> ref \<Rightarrow> bool checked" where
  "QMD_LIST_CHECK_PREV m elm = cbind (get_prev m elm) (\<lambda>p. cbind (load_cell m p) (\<lambda>r. Inr (r = elm)))"

definition LIST_CONCAT :: "nat \<Rightarrow> nat \<Rightarrow> qmem \<Rightarrow> qmem run" where
  "LIST_CONCAT head1 head2 m =
     (let curelm = LIST_FIRST m head1 in
      if curelm = None
      then (let m1 = put_first head1 (LIST_FIRST m head2) m in
            if LIST_FIRST m1 head1 \<noteq> None
            then rbind (Some (put_prev (LIST_FIRST m1 head2) (First head1) m1)) (\<lambda>m2.
                 Some (Inr (LIST_INIT head2 m2)))
            else Some (Inr m1))
      else if LIST_FIRST m head2 \<noteq> None
      then rbind (slist_walk (qnext m) None curelm) (\<lambda>curelm.
           rbind (Some (put_next curelm (LIST_FIRST m head2) m)) (\<lambda>m1.
           rbind (Some (put_prev (LIST_FIRST m1 head2) (next_cell curelm) m1)) (\<lambda>m2.
           Some (Inr (LIST_INIT head2 m2)))))
      else Some (Inr m))"

text \<open>The iterations read the memory off the state \<open>s\<close> of the body with \<open>q\<close>.\<close>

definition LIST_FOREACH :: "('s \<Rightarrow> qmem) \<Rightarrow> (nat \<Rightarrow> 's \<Rightarrow> 's run) \<Rightarrow> nat \<Rightarrow> 's \<Rightarrow> 's run" where
  "LIST_FOREACH q body head s = foreach (\<lambda>s. LIST_NEXT (q s)) body (LIST_FIRST (q s) head) s"

definition LIST_FOREACH_FROM :: "('s \<Rightarrow> qmem) \<Rightarrow> (nat \<Rightarrow> 's \<Rightarrow> 's run) \<Rightarrow> ref \<Rightarrow> nat \<Rightarrow> 's \<Rightarrow> 's run" where
  "LIST_FOREACH_FROM q body var head s =
     foreach (\<lambda>s. LIST_NEXT (q s)) body (if var \<noteq> None then var else LIST_FIRST (q s) head) s"

definition LIST_FOREACH_SAFE :: "('s \<Rightarrow> qmem) \<Rightarrow> (nat \<Rightarrow> 's \<Rightarrow> 's run) \<Rightarrow> nat \<Rightarrow> 's \<Rightarrow> 's run" where
  "LIST_FOREACH_SAFE q body head s = foreach_safe (\<lambda>s. LIST_NEXT (q s)) body (LIST_FIRST (q s) head) s"

definition LIST_FOREACH_FROM_SAFE ::
  "('s \<Rightarrow> qmem) \<Rightarrow> (nat \<Rightarrow> 's \<Rightarrow> 's run) \<Rightarrow> ref \<Rightarrow> nat \<Rightarrow> 's \<Rightarrow> 's run" where
  "LIST_FOREACH_FROM_SAFE q body var head s =
     foreach_safe (\<lambda>s. LIST_NEXT (q s)) body (if var \<noteq> None then var else LIST_FIRST (q s) head) s"

definition LIST_INSERT_AFTER :: "ref \<Rightarrow> ref \<Rightarrow> qmem \<Rightarrow> qmem checked" where
  "LIST_INSERT_AFTER listelm elm m =
     cbind (LIST_NEXT m listelm) (\<lambda>n.
     cbind (put_next elm n m) (\<lambda>m1.
     cbind (if n \<noteq> None
            then cbind (LIST_NEXT m1 listelm) (\<lambda>n'. put_prev n' (next_cell elm) m1)
            else Inr m1) (\<lambda>m2.
     cbind (put_next listelm elm m2) (\<lambda>m3.
     put_prev elm (next_cell listelm) m3))))"

definition LIST_INSERT_BEFORE :: "ref \<Rightarrow> ref \<Rightarrow> qmem \<Rightarrow> qmem checked" where
  "LIST_INSERT_BEFORE listelm elm m =
     cbind (get_prev m listelm) (\<lambda>p.
     cbind (put_prev elm p m) (\<lambda>m1.
     cbind (put_next elm listelm m1) (\<lambda>m2.
     cbind (get_prev m2 listelm) (\<lambda>p'.
     cbind (store_cell p' elm m2) (\<lambda>m3.
     put_prev listelm (next_cell elm) m3)))))"

definition LIST_INSERT_HEAD :: "nat \<Rightarrow> ref \<Rightarrow> qmem \<Rightarrow> qmem checked" where
  "LIST_INSERT_HEAD head elm m =
     cbind (put_next elm (LIST_FIRST m head) m) (\<lambda>m1.
     cbind (if LIST_FIRST m head \<noteq> None
            then put_prev (LIST_FIRST m1 head) (next_cell elm) m1
            else Inr m1) (\<lambda>m2.
     put_prev elm (First head) (put_first head elm m2)))"

definition LIST_PREV :: "qmem \<Rightarrow> ref \<Rightarrow> nat \<Rightarrow> ref checked" where
  "LIST_PREV m elm head =
     cbind (get_prev m elm) (\<lambda>p. if p = First head then Inr None else containerof_next p)"

definition LIST_REMOVE :: "ref \<Rightarrow> qmem \<Rightarrow> qmem checked" where
  "LIST_REMOVE elm m =
     cbind (LIST_NEXT m elm) (\<lambda>n.
     cbind (if n \<noteq> None then cbind (get_prev m elm) (\<lambda>p. put_prev n p m) else Inr m) (\<lambda>m1.
     cbind (get_prev m1 elm) (\<lambda>p.
     cbind (LIST_NEXT m1 elm) (\<lambda>n'.
     store_cell p n' m1))))"

definition LIST_SWAP :: "nat \<Rightarrow> nat \<Rightarrow> qmem \<Rightarrow> qmem checked" where
  "LIST_SWAP head1 head2 m =
     (let swap_tmp = LIST_FIRST m head1;
          m1 = put_first head1 (LIST_FIRST m head2) m;
          m2 = put_first head2 swap_tmp m1 in
      cbind (if LIST_FIRST m2 head1 \<noteq> None then put_prev (LIST_FIRST m2 head1) (First head1) m2 else Inr m2) (\<lambda>m3.
      if LIST_FIRST m3 head2 \<noteq> None then put_prev (LIST_FIRST m3 head2) (First head2) m3 else Inr m3))"

section \<open>What the macros do to the list\<close>

definition LIST_rep :: "nat \<Rightarrow> qmem \<Rightarrow> nat list \<Rightarrow> bool" where
  "LIST_rep h m xs \<longleftrightarrow> qchain m h xs \<and> backs (qprev m) (First h) xs"

lemmas LIST_simps = LIST_FIRST_def LIST_NEXT_def LIST_EMPTY_def

lemma LIST_rep_facts:
  assumes "LIST_rep h m (us @ x # vs)"
  shows "qnext m x = Some (ref_of vs)" "qprev m x = end_cell (First h) us" "x \<in> live m"
    "cell_live m (end_cell (First h) us)" "distinct (us @ x # vs)"
  using assms qchain_next [of m h us x vs] qchain_live [of m h "us @ x # vs"] qchain_distinct [of m h "us @ x # vs"]
    end_cell_live [of m h us "x # vs"]
  by (auto simp: LIST_rep_def)

lemma LIST_rep_live: "LIST_rep h m xs \<Longrightarrow> set xs \<subseteq> live m"
  by (auto simp: LIST_rep_def dest: qchain_live)

lemma LIST_rep_frame:
  "frame H S m m' \<Longrightarrow> h \<notin> H \<Longrightarrow> set xs \<inter> S = {} \<Longrightarrow> LIST_rep h m' xs = LIST_rep h m xs"
  by (simp add: LIST_rep_def frame_lists)

lemma LIST_INSERT_HEAD_rep:
  assumes r: "LIST_rep h m xs" and x: "x \<in> live m" "x \<notin> set xs"
  shows "\<exists>m'. LIST_INSERT_HEAD h (Some x) m = Inr m' \<and> LIST_rep h m' (x # xs) \<and> frame {h} (set (x # xs)) m m'"
proof -
  have c: "qchain m h xs" "backs (qprev m) (First h) xs" "distinct xs"
    using r qchain_distinct by (auto simp: LIST_rep_def)
  note ins = qchain_insert [of m h "[]" xs x]
  show ?thesis
  proof (cases xs)
    case Nil
    then show ?thesis using c x ins qchain_first [OF c(1)]
      by (auto simp: LIST_INSERT_HEAD_def LIST_rep_def LIST_simps upd_cell_def intro!: frame_intros)
  next
    case (Cons y ys)
    then have "y \<in> live m" using qchain_live [OF c(1)] by simp
    then show ?thesis using Cons c x ins qchain_first [OF c(1)]
      by (auto simp: LIST_INSERT_HEAD_def LIST_rep_def LIST_simps upd_cell_def intro!: frame_intros)
  qed
qed

lemma LIST_INSERT_AFTER_rep:
  assumes r: "LIST_rep h m (us @ y # vs)" and x: "x \<in> live m" "x \<notin> set (us @ y # vs)"
  shows "\<exists>m'. LIST_INSERT_AFTER (Some y) (Some x) m = Inr m' \<and> LIST_rep h m' (us @ y # x # vs) \<and>
    frame {h} (set (us @ y # x # vs)) m m'"
proof -
  note f = LIST_rep_facts [OF r]
  have c: "qchain m h ((us @ [y]) @ vs)" "backs (qprev m) (First h) (us @ y # vs)"
    using r by (auto simp: LIST_rep_def)
  note ins = qchain_insert [of m h "us @ [y]" vs x, OF c(1)]
  show ?thesis
  proof (cases vs)
    case Nil
    then show ?thesis using c x ins f
      by (auto simp: LIST_INSERT_AFTER_def LIST_rep_def LIST_simps upd_cell_def intro!: frame_intros)
  next
    case (Cons v ws)
    then have "v \<in> live m" using qchain_live [OF c(1)] by simp
    then show ?thesis using Cons c x ins f
      by (auto simp: LIST_INSERT_AFTER_def LIST_rep_def LIST_simps upd_cell_def intro!: frame_intros)
  qed
qed

lemma LIST_INSERT_BEFORE_rep:
  assumes r: "LIST_rep h m (us @ y # vs)" and x: "x \<in> live m" "x \<notin> set (us @ y # vs)"
  shows "\<exists>m'. LIST_INSERT_BEFORE (Some y) (Some x) m = Inr m' \<and> LIST_rep h m' (us @ x # y # vs) \<and>
    frame {h} (set (us @ x # y # vs)) m m'"
proof -
  note f = LIST_rep_facts [OF r]
  have c: "qchain m h (us @ y # vs)" "backs (qprev m) (First h) (us @ y # vs)" "set us \<subseteq> live m"
    using r LIST_rep_live [OF r] by (auto simp: LIST_rep_def)
  have "frame {h} (set (us @ x # y # vs)) m (upd_cell (end_cell (First h) us) (Some x) (upd_next x (Some y) m))"
    using c(3) x by (intro frame_intros) auto
  then show ?thesis using c x qchain_insert [OF c(1) x(2)] f
    by (auto simp: LIST_INSERT_BEFORE_def LIST_rep_def LIST_simps intro!: frame_upd)
qed

lemma LIST_REMOVE_rep:
  assumes r: "LIST_rep h m (us @ x # vs)"
  shows "\<exists>m'. LIST_REMOVE (Some x) m = Inr m' \<and> LIST_rep h m' (us @ vs) \<and> frame {h} (set (us @ vs)) m m'"
proof -
  note f = LIST_rep_facts [OF r]
  have c: "qchain m h (us @ x # vs)" "backs (qprev m) (First h) (us @ x # vs)" "set us \<subseteq> live m"
    using r LIST_rep_live [OF r] by (auto simp: LIST_rep_def)
  have fr: "frame {h} (set (us @ vs)) m (upd_cell (end_cell (First h) us) (ref_of vs) m)"
    using c(3) by (intro frame_intros) auto
  show ?thesis
  proof (cases vs)
    case Nil
    then show ?thesis using c qchain_remove [OF c(1)] f fr
      by (auto simp: LIST_REMOVE_def LIST_rep_def LIST_simps)
  next
    case (Cons v ws)
    then have "v \<in> live m" using qchain_live [OF c(1)] by simp
    then show ?thesis using Cons c qchain_remove [OF c(1)] f fr
      by (auto simp: LIST_REMOVE_def LIST_rep_def LIST_simps intro!: frame_upd)
  qed
qed

lemma LIST_PREV_rep:
  assumes "LIST_rep h m (us @ x # vs)"
  shows "LIST_PREV m (Some x) h = Inr (if us = [] then None else Some (last us))"
  using LIST_rep_facts [OF assms] by (auto simp: LIST_PREV_def containerof_next_def end_cell_def)

text \<open>Concatenation; the lists of two heads have no element in common.\<close>

lemma LIST_rep_disjoint: "LIST_rep h m xs \<Longrightarrow> LIST_rep k m ys \<Longrightarrow> h \<noteq> k \<Longrightarrow> set xs \<inter> set ys = {}"
  unfolding LIST_rep_def using backs_disjoint by blast

lemma LIST_INIT_rep: "LIST_rep h (LIST_INIT h m) []"
  by (simp add: LIST_rep_def LIST_INIT_def qchain_def)

lemma LIST_CONCAT_rep:
  assumes r: "LIST_rep h m xs" "LIST_rep k m ys" "h \<noteq> k"
  shows "\<exists>m'. LIST_CONCAT h k m = Some (Inr m') \<and> LIST_rep h m' (xs @ ys) \<and> LIST_rep k m' [] \<and>
    frame {h, k} (set (xs @ ys)) m m'"
proof -
  have d: "set xs \<inter> set ys = {}" by (rule LIST_rep_disjoint [OF r])
  have c: "qchain m h (xs @ [])" "chain (qnext m) (ref_of ys) ys" "qfirst m k = ref_of ys" "qchain m k ys"
      "backs (qprev m) (First h) xs" "backs (qprev m) (First k) ys" "qfirst m h = ref_of xs"
    using r qchain_first by (auto simp: LIST_rep_def qchain_def dest: chain_ref_of)
  show ?thesis
  proof (cases ys)
    case Nil
    then show ?thesis using r c by (cases xs) (auto simp: LIST_CONCAT_def LIST_simps LIST_rep_def put_same)
  next
    case (Cons w ws)
    have w: "w \<in> live m" "distinct (w # ws)" using Cons qchain_live [OF c(4)] qchain_distinct [OF c(4)] by auto
    let ?c = "end_cell (First h) xs"
    let ?m1 = "upd_cell ?c (Some w) m"
    let ?m' = "LIST_INIT k (upd_prev w ?c ?m1)"
    have "LIST_CONCAT h k m = Some (Inr ?m')"
    proof (cases xs rule: rev_cases)
      case Nil
      then show ?thesis using Cons c w r(3) by (simp add: LIST_CONCAT_def LIST_simps LIST_INIT_def upd_cell_def)
    next
      case (snoc us u)
      obtain z where z: "qfirst m h = Some z" using c(7) snoc by (cases us) auto
      then have "slist_walk (qnext m) None (Some z) = Some (Inr (Some u))"
        using slist_walk_found [of "qnext m" z us u "[]" None] c(1) snoc by (simp add: qchain_def)
      moreover have "u \<in> live m" using qchain_live [OF c(1)] snoc by simp
      ultimately show ?thesis using Cons c w z snoc
        by (simp add: LIST_CONCAT_def LIST_simps LIST_INIT_def upd_cell_def insert_absorb)
    qed
    moreover have "qchain ?m1 h (xs @ ys)" using qchain_upd_cell [OF c(1,2)] d Cons by simp
    moreover have "frame {h, k} (set (xs @ ys)) m ?m1"
      using qchain_live [OF c(1)] by (intro frame_intros) auto
    ultimately show ?thesis using Cons c w d r(3)
      by (auto simp: LIST_rep_def LIST_INIT_def qchain_def intro!: frame_upd)
  qed
qed

lemma LIST_SWAP_rep:
  assumes r: "LIST_rep h m xs" "LIST_rep k m ys" "h \<noteq> k"
  shows "\<exists>m'. LIST_SWAP h k m = Inr m' \<and> LIST_rep h m' ys \<and> LIST_rep k m' xs"
proof -
  have d: "set xs \<inter> set ys = {}" by (rule LIST_rep_disjoint [OF r])
  have q: "qfirst m h = ref_of xs" "qfirst m k = ref_of ys" "set xs \<subseteq> live m" "set ys \<subseteq> live m" "distinct xs" "distinct ys"
    using r LIST_rep_live qchain_distinct qchain_first by (auto simp: LIST_rep_def)
  show ?thesis using r d q
    by (cases xs; cases ys) (auto simp: LIST_SWAP_def LIST_simps LIST_rep_def qchain_def Let_def)
qed

text \<open>The checks of the header hold in every list.\<close>

lemma LIST_rep_next_live:
  assumes "LIST_rep h m (us @ x # v # vs)"
  shows "v \<in> live m" "qprev m v = Next x"
  using LIST_rep_facts [of h m "us @ [x]" v vs] assms by simp_all

lemma LIST_checks_head:
  assumes "LIST_rep h m xs"
  shows "QMD_LIST_CHECK_HEAD m h = Inr True"
  using assms qchain_first [of m h xs] LIST_rep_facts [of h m "[]" "hd xs" "tl xs"]
  by (cases xs) (auto simp: QMD_LIST_CHECK_HEAD_def LIST_simps LIST_rep_def)

lemma LIST_checks_elem:
  assumes r: "LIST_rep h m xs" and x: "x \<in> set xs"
  shows "QMD_LIST_CHECK_NEXT m (Some x) = Inr True \<and> QMD_LIST_CHECK_PREV m (Some x) = Inr True"
proof -
  obtain us vs where xs: "xs = us @ x # vs" using split_list [OF x] by blast
  note f = LIST_rep_facts [OF r [unfolded xs]]
  have "QMD_LIST_CHECK_NEXT m (Some x) = Inr True"
    using f LIST_rep_next_live [of h m us x] r xs by (cases vs) (auto simp: QMD_LIST_CHECK_NEXT_def LIST_simps)
  moreover have "QMD_LIST_CHECK_PREV m (Some x) = Inr True"
    using f load_end_cell [of m h us "x # vs"] r xs by (simp add: QMD_LIST_CHECK_PREV_def LIST_rep_def)
  ultimately show ?thesis ..
qed

section \<open>Iteration\<close>

lemma LIST_NEXT_rep: "LIST_rep h m (us @ x # vs) \<Longrightarrow> LIST_NEXT m (Some x) = Inr (ref_of vs)"
  using LIST_rep_facts [of h m us x vs] by (simp add: LIST_NEXT_def)

lemma LIST_FOREACH_collect:
  assumes "LIST_rep h m xs"
  shows "LIST_FOREACH fst collect h (m, []) = Some (Inr (m, xs))"
proof -
  have "LIST_NEXT m (Some y) = Inr (ref_of ys)" if "xs = us @ y # ys" for us y ys
    using LIST_NEXT_rep [of h m us y ys] assms that by simp
  then show ?thesis using foreach_collect [of xs LIST_NEXT m] qchain_first [of m h xs] assms
    by (simp add: LIST_FOREACH_def LIST_FIRST_def LIST_rep_def)
qed

text \<open>
  The safe iteration allows its body to remove the element it visits: with \<^verbatim>\<open>LIST_REMOVE\<close> as the
  body it empties the list.
\<close>

lemma LIST_FOREACH_SAFE_empties:
  assumes "LIST_rep h m xs"
  shows "\<exists>m'. LIST_FOREACH_SAFE id (\<lambda>x m. Some (LIST_REMOVE (Some x) m)) h m = Some (Inr m') \<and>
    LIST_rep h m' [] \<and> live m' = live m"
proof -
  let ?I = "\<lambda>ys m'. LIST_rep h m' ys \<and> live m' = live m"
  have "\<exists>m'. foreach_safe (\<lambda>s. LIST_NEXT (id s)) (\<lambda>x m. Some (LIST_REMOVE (Some x) m)) (ref_of xs) m = Some (Inr m') \<and> ?I [] m'"
  proof (rule foreach_safe_visits)
    fix y ys s
    assume I: "?I (y # ys) s"
    then show "LIST_NEXT (id s) (Some y) = Inr (ref_of ys) \<and> (\<exists>s'. Some (LIST_REMOVE (Some y) s) = Some (Inr s') \<and> ?I ys s')"
      using LIST_NEXT_rep [of h s "[]" y ys] LIST_REMOVE_rep [of h s "[]" y ys] by (auto simp: frame_def)
  qed (use assms in simp)
  moreover have "qfirst m h = ref_of xs" using assms qchain_first by (simp add: LIST_rep_def)
  ultimately show ?thesis by (simp add: LIST_FOREACH_SAFE_def LIST_FIRST_def)
qed

section \<open>The interface\<close>

definition list_ins :: "nat \<Rightarrow> nat \<Rightarrow> qmem \<Rightarrow> qmem run" where
  "list_ins h x m = Some (LIST_INSERT_HEAD h (Some x) m)"

definition list_del :: "nat \<Rightarrow> qmem \<Rightarrow> qmem run" where
  "list_del x m = Some (LIST_REMOVE (Some x) m)"

interpretation dll: object_list "LIST_rep h" live "list_ins h" list_del for h
proof
  fix m xs x
  assume "LIST_rep h m xs" "x \<in> live m" "x \<notin> set xs"
  then show "\<exists>m'. list_ins h x m = Some (Inr m') \<and> LIST_rep h m' (x # xs) \<and> live m' = live m"
    using LIST_INSERT_HEAD_rep [of h m xs x] by (auto simp: list_ins_def frame_def)
next
  fix m xs x
  assume r: "LIST_rep h m xs" and x: "x \<in> set xs"
  obtain us vs where xs: "xs = us @ x # vs" "x \<notin> set us" using split_list_first [OF x] by blast
  then have "remove1 x xs = us @ vs" by (simp add: remove1_append)
  then show "\<exists>m'. list_del x m = Some (Inr m') \<and> LIST_rep h m' (remove1 x xs) \<and> live m' = live m"
    using LIST_REMOVE_rep [of h m us x vs] r xs by (auto simp: list_del_def frame_def)
qed

end
