(* ===== verification/Queue_Tailq.thy ===== *)
theory Queue_Tailq
  imports Queue_List
begin

text \<open>
  The tail queues of \<^verbatim>\<open>server/queue.h\<close> (the \<^verbatim>\<open>TAILQ\<close> macros): a doubly-linked list whose head also holds
  the address of the link that ends it. A head and the links of an element have the same layout, the
  reference first and the address of a link second, which \<^verbatim>\<open>TAILQ_LAST\<close> and \<^verbatim>\<open>TAILQ_PREV\<close> use: they read
  the links of an element as a head.
\<close>

section \<open>The macros\<close>

definition TAILQ_FIRST :: "qmem \<Rightarrow> nat \<Rightarrow> ref" where
  "TAILQ_FIRST m head = qfirst m head"

definition TAILQ_EMPTY :: "qmem \<Rightarrow> nat \<Rightarrow> bool" where
  "TAILQ_EMPTY m head \<longleftrightarrow> qfirst m head = None"

definition TAILQ_NEXT :: "qmem \<Rightarrow> ref \<Rightarrow> ref checked" where
  "TAILQ_NEXT m elm = get_next m elm"

definition TAILQ_INIT :: "nat \<Rightarrow> qmem \<Rightarrow> qmem" where
  "TAILQ_INIT head m = put_last head (First head) (put_first head None m)"

definition TAILQ_HEAD_INITIALIZER :: "nat \<Rightarrow> ref \<times> cell" where
  "TAILQ_HEAD_INITIALIZER head = (None, First head)"

text \<open>The consistency checks of the header, as for the lists.\<close>

definition QMD_TAILQ_CHECK_HEAD :: "qmem \<Rightarrow> nat \<Rightarrow> bool checked" where
  "QMD_TAILQ_CHECK_HEAD m head =
     (if \<not> TAILQ_EMPTY m head then cbind (get_prev m (TAILQ_FIRST m head)) (\<lambda>p. Inr (p = First head)) else Inr True)"

definition QMD_TAILQ_CHECK_TAIL :: "qmem \<Rightarrow> nat \<Rightarrow> bool checked" where
  "QMD_TAILQ_CHECK_TAIL m head = cbind (load_cell m (qlast m head)) (\<lambda>r. Inr (r = None))"

definition QMD_TAILQ_CHECK_NEXT :: "qmem \<Rightarrow> ref \<Rightarrow> bool checked" where
  "QMD_TAILQ_CHECK_NEXT m elm =
     cbind (TAILQ_NEXT m elm) (\<lambda>n.
     if n \<noteq> None then cbind (get_prev m n) (\<lambda>p. Inr (p = next_cell elm)) else Inr True)"

definition QMD_TAILQ_CHECK_PREV :: "qmem \<Rightarrow> ref \<Rightarrow> bool checked" where
  "QMD_TAILQ_CHECK_PREV m elm = cbind (get_prev m elm) (\<lambda>p. cbind (load_cell m p) (\<lambda>r. Inr (r = elm)))"

definition TAILQ_CONCAT :: "nat \<Rightarrow> nat \<Rightarrow> qmem \<Rightarrow> qmem checked" where
  "TAILQ_CONCAT head1 head2 m =
     (if \<not> TAILQ_EMPTY m head2
      then cbind (store_cell (qlast m head1) (qfirst m head2) m) (\<lambda>m1.
           cbind (put_prev (qfirst m1 head2) (qlast m1 head1) m1) (\<lambda>m2.
           Inr (TAILQ_INIT head2 (put_last head1 (qlast m2 head2) m2))))
      else Inr m)"

text \<open>The second field of the head, or of the links of an element, at the address \<open>c\<close>.\<close>

definition last_at :: "qmem \<Rightarrow> cell \<Rightarrow> cell checked" where
  "last_at m c = (case c of First h \<Rightarrow> Inr (qlast m h) | Next a \<Rightarrow> get_prev m (Some a))"

definition TAILQ_LAST :: "qmem \<Rightarrow> nat \<Rightarrow> ref checked" where
  "TAILQ_LAST m head = cbind (last_at m (qlast m head)) (load_cell m)"

definition TAILQ_PREV :: "qmem \<Rightarrow> ref \<Rightarrow> ref checked" where
  "TAILQ_PREV m elm = cbind (get_prev m elm) (\<lambda>p. cbind (last_at m p) (load_cell m))"

definition TAILQ_FOREACH :: "('s \<Rightarrow> qmem) \<Rightarrow> (nat \<Rightarrow> 's \<Rightarrow> 's run) \<Rightarrow> nat \<Rightarrow> 's \<Rightarrow> 's run" where
  "TAILQ_FOREACH q body head s = foreach (\<lambda>s. TAILQ_NEXT (q s)) body (TAILQ_FIRST (q s) head) s"

definition TAILQ_FOREACH_FROM :: "('s \<Rightarrow> qmem) \<Rightarrow> (nat \<Rightarrow> 's \<Rightarrow> 's run) \<Rightarrow> ref \<Rightarrow> nat \<Rightarrow> 's \<Rightarrow> 's run" where
  "TAILQ_FOREACH_FROM q body var head s =
     foreach (\<lambda>s. TAILQ_NEXT (q s)) body (if var \<noteq> None then var else TAILQ_FIRST (q s) head) s"

definition TAILQ_FOREACH_SAFE :: "('s \<Rightarrow> qmem) \<Rightarrow> (nat \<Rightarrow> 's \<Rightarrow> 's run) \<Rightarrow> nat \<Rightarrow> 's \<Rightarrow> 's run" where
  "TAILQ_FOREACH_SAFE q body head s = foreach_safe (\<lambda>s. TAILQ_NEXT (q s)) body (TAILQ_FIRST (q s) head) s"

definition TAILQ_FOREACH_FROM_SAFE ::
  "('s \<Rightarrow> qmem) \<Rightarrow> (nat \<Rightarrow> 's \<Rightarrow> 's run) \<Rightarrow> ref \<Rightarrow> nat \<Rightarrow> 's \<Rightarrow> 's run" where
  "TAILQ_FOREACH_FROM_SAFE q body var head s =
     foreach_safe (\<lambda>s. TAILQ_NEXT (q s)) body (if var \<noteq> None then var else TAILQ_FIRST (q s) head) s"

definition TAILQ_FOREACH_REVERSE :: "('s \<Rightarrow> qmem) \<Rightarrow> (nat \<Rightarrow> 's \<Rightarrow> 's run) \<Rightarrow> nat \<Rightarrow> 's \<Rightarrow> 's run" where
  "TAILQ_FOREACH_REVERSE q body head s =
     rbind (Some (TAILQ_LAST (q s) head)) (\<lambda>var. foreach (\<lambda>s. TAILQ_PREV (q s)) body var s)"

definition TAILQ_FOREACH_REVERSE_FROM ::
  "('s \<Rightarrow> qmem) \<Rightarrow> (nat \<Rightarrow> 's \<Rightarrow> 's run) \<Rightarrow> ref \<Rightarrow> nat \<Rightarrow> 's \<Rightarrow> 's run" where
  "TAILQ_FOREACH_REVERSE_FROM q body var head s =
     rbind (Some (if var \<noteq> None then Inr var else TAILQ_LAST (q s) head)) (\<lambda>var.
     foreach (\<lambda>s. TAILQ_PREV (q s)) body var s)"

definition TAILQ_FOREACH_REVERSE_SAFE :: "('s \<Rightarrow> qmem) \<Rightarrow> (nat \<Rightarrow> 's \<Rightarrow> 's run) \<Rightarrow> nat \<Rightarrow> 's \<Rightarrow> 's run" where
  "TAILQ_FOREACH_REVERSE_SAFE q body head s =
     rbind (Some (TAILQ_LAST (q s) head)) (\<lambda>var. foreach_safe (\<lambda>s. TAILQ_PREV (q s)) body var s)"

definition TAILQ_FOREACH_REVERSE_FROM_SAFE ::
  "('s \<Rightarrow> qmem) \<Rightarrow> (nat \<Rightarrow> 's \<Rightarrow> 's run) \<Rightarrow> ref \<Rightarrow> nat \<Rightarrow> 's \<Rightarrow> 's run" where
  "TAILQ_FOREACH_REVERSE_FROM_SAFE q body var head s =
     rbind (Some (if var \<noteq> None then Inr var else TAILQ_LAST (q s) head)) (\<lambda>var.
     foreach_safe (\<lambda>s. TAILQ_PREV (q s)) body var s)"

definition TAILQ_INSERT_AFTER :: "nat \<Rightarrow> ref \<Rightarrow> ref \<Rightarrow> qmem \<Rightarrow> qmem checked" where
  "TAILQ_INSERT_AFTER head listelm elm m =
     cbind (TAILQ_NEXT m listelm) (\<lambda>n.
     cbind (put_next elm n m) (\<lambda>m1.
     cbind (if n \<noteq> None
            then cbind (TAILQ_NEXT m1 elm) (\<lambda>n'. put_prev n' (next_cell elm) m1)
            else Inr (put_last head (next_cell elm) m1)) (\<lambda>m2.
     cbind (put_next listelm elm m2) (\<lambda>m3.
     put_prev elm (next_cell listelm) m3))))"

definition TAILQ_INSERT_BEFORE :: "ref \<Rightarrow> ref \<Rightarrow> qmem \<Rightarrow> qmem checked" where
  "TAILQ_INSERT_BEFORE listelm elm m =
     cbind (get_prev m listelm) (\<lambda>p.
     cbind (put_prev elm p m) (\<lambda>m1.
     cbind (put_next elm listelm m1) (\<lambda>m2.
     cbind (get_prev m2 listelm) (\<lambda>p'.
     cbind (store_cell p' elm m2) (\<lambda>m3.
     put_prev listelm (next_cell elm) m3)))))"

definition TAILQ_INSERT_HEAD :: "nat \<Rightarrow> ref \<Rightarrow> qmem \<Rightarrow> qmem checked" where
  "TAILQ_INSERT_HEAD head elm m =
     cbind (put_next elm (TAILQ_FIRST m head) m) (\<lambda>m1.
     cbind (if TAILQ_FIRST m head \<noteq> None
            then put_prev (TAILQ_FIRST m1 head) (next_cell elm) m1
            else Inr (put_last head (next_cell elm) m1)) (\<lambda>m2.
     put_prev elm (First head) (put_first head elm m2)))"

definition TAILQ_INSERT_TAIL :: "nat \<Rightarrow> ref \<Rightarrow> qmem \<Rightarrow> qmem checked" where
  "TAILQ_INSERT_TAIL head elm m =
     cbind (put_next elm None m) (\<lambda>m1.
     cbind (put_prev elm (qlast m1 head) m1) (\<lambda>m2.
     cbind (store_cell (qlast m2 head) elm m2) (\<lambda>m3.
     Inr (put_last head (next_cell elm) m3))))"

definition TAILQ_REMOVE :: "nat \<Rightarrow> ref \<Rightarrow> qmem \<Rightarrow> qmem checked" where
  "TAILQ_REMOVE head elm m =
     cbind (TAILQ_NEXT m elm) (\<lambda>n.
     cbind (get_prev m elm) (\<lambda>p.
     cbind (if n \<noteq> None then put_prev n p m else Inr (put_last head p m)) (\<lambda>m1.
     cbind (get_prev m1 elm) (\<lambda>p'.
     cbind (TAILQ_NEXT m1 elm) (\<lambda>n'.
     store_cell p' n' m1)))))"

definition TAILQ_SWAP :: "nat \<Rightarrow> nat \<Rightarrow> qmem \<Rightarrow> qmem checked" where
  "TAILQ_SWAP head1 head2 m =
     (let swap_first = qfirst m head1;
          swap_last = qlast m head1;
          m1 = put_first head1 (qfirst m head2) m;
          m2 = put_last head1 (qlast m1 head2) m1;
          m3 = put_first head2 swap_first m2;
          m4 = put_last head2 swap_last m3 in
      cbind (if qfirst m4 head1 \<noteq> None then put_prev (qfirst m4 head1) (First head1) m4
             else Inr (put_last head1 (First head1) m4)) (\<lambda>m5.
      if qfirst m5 head2 \<noteq> None then put_prev (qfirst m5 head2) (First head2) m5
      else Inr (put_last head2 (First head2) m5)))"

section \<open>What the macros do to the queue\<close>

definition TAILQ_rep :: "nat \<Rightarrow> qmem \<Rightarrow> nat list \<Rightarrow> bool" where
  "TAILQ_rep h m xs \<longleftrightarrow> LIST_rep h m xs \<and> qlast m h = end_cell (First h) xs"

lemmas TAILQ_simps = TAILQ_FIRST_def TAILQ_NEXT_def TAILQ_EMPTY_def

lemma TAILQ_rep_facts:
  assumes "TAILQ_rep h m (us @ x # vs)"
  shows "qnext m x = Some (ref_of vs)" "qprev m x = end_cell (First h) us" "x \<in> live m"
    "cell_live m (end_cell (First h) us)" "distinct (us @ x # vs)"
  using assms LIST_rep_facts [of h m us x vs] by (simp_all add: TAILQ_rep_def)

lemma TAILQ_rep_parts:
  assumes "TAILQ_rep h m xs"
  shows "qchain m h xs" "backs (qprev m) (First h) xs" "qlast m h = end_cell (First h) xs" "set xs \<subseteq> live m"
    "qfirst m h = ref_of xs" "distinct xs" "cell_live m (end_cell (First h) xs)"
  using assms LIST_rep_live qchain_first qchain_distinct end_cell_live [of m h xs "[]"]
  by (auto simp: TAILQ_rep_def LIST_rep_def)

lemma TAILQ_repI:
  "qchain m h xs \<Longrightarrow> backs (qprev m) (First h) xs \<Longrightarrow> qlast m h = end_cell (First h) xs \<Longrightarrow> TAILQ_rep h m xs"
  by (simp add: TAILQ_rep_def LIST_rep_def)

lemma TAILQ_rep_frame:
  "frame H S m m' \<Longrightarrow> h \<notin> H \<Longrightarrow> set xs \<inter> S = {} \<Longrightarrow> TAILQ_rep h m' xs = TAILQ_rep h m xs"
  by (simp add: TAILQ_rep_def LIST_rep_frame frame_lists)

lemma TAILQ_rep_disjoint: "TAILQ_rep h m xs \<Longrightarrow> TAILQ_rep k m ys \<Longrightarrow> h \<noteq> k \<Longrightarrow> set xs \<inter> set ys = {}"
  unfolding TAILQ_rep_def using LIST_rep_disjoint by blast

lemma TAILQ_INIT_rep: "TAILQ_rep h (TAILQ_INIT h m) []"
  by (simp add: TAILQ_rep_def LIST_rep_def TAILQ_INIT_def qchain_def)

lemma TAILQ_INITIALIZER_rep: "(qfirst m h, qlast m h) = TAILQ_HEAD_INITIALIZER h \<Longrightarrow> TAILQ_rep h m []"
  by (simp add: TAILQ_rep_def LIST_rep_def TAILQ_HEAD_INITIALIZER_def qchain_def)

lemma TAILQ_INSERT_HEAD_rep:
  assumes r: "TAILQ_rep h m xs" and x: "x \<in> live m" "x \<notin> set xs"
  shows "\<exists>m'. TAILQ_INSERT_HEAD h (Some x) m = Inr m' \<and> TAILQ_rep h m' (x # xs) \<and> frame {h} (set (x # xs)) m m'"
  using TAILQ_rep_parts [OF r] x qchain_insert [of m h "[]" xs x]
  by (cases xs) (auto simp: TAILQ_INSERT_HEAD_def TAILQ_simps upd_cell_def intro!: TAILQ_repI frame_intros)

lemma TAILQ_INSERT_TAIL_rep:
  assumes r: "TAILQ_rep h m xs" and x: "x \<in> live m" "x \<notin> set xs"
  shows "\<exists>m'. TAILQ_INSERT_TAIL h (Some x) m = Inr m' \<and> TAILQ_rep h m' (xs @ [x]) \<and> frame {h} (set (xs @ [x])) m m'"
proof -
  note p = TAILQ_rep_parts [OF r]
  have "frame {h} (set (xs @ [x])) m (upd_cell (end_cell (First h) xs) (Some x) (upd_next x None m))"
    using x p by (intro frame_intros) auto
  then show ?thesis using p x qchain_insert [of m h xs "[]" x]
    by (auto simp: TAILQ_INSERT_TAIL_def intro!: TAILQ_repI frame_upd)
qed

lemma TAILQ_INSERT_AFTER_rep:
  assumes r: "TAILQ_rep h m (us @ y # vs)" and x: "x \<in> live m" "x \<notin> set (us @ y # vs)"
  shows "\<exists>m'. TAILQ_INSERT_AFTER h (Some y) (Some x) m = Inr m' \<and> TAILQ_rep h m' (us @ y # x # vs) \<and>
    frame {h} (set (us @ y # x # vs)) m m'"
  using TAILQ_rep_parts [OF r] TAILQ_rep_facts [OF r] x qchain_insert [of m h "us @ [y]" vs x]
  by (cases vs) (auto simp: TAILQ_INSERT_AFTER_def TAILQ_simps upd_cell_def intro!: TAILQ_repI frame_intros)

lemma TAILQ_INSERT_BEFORE_rep:
  assumes r: "TAILQ_rep h m (us @ y # vs)" and x: "x \<in> live m" "x \<notin> set (us @ y # vs)"
  shows "\<exists>m'. TAILQ_INSERT_BEFORE (Some y) (Some x) m = Inr m' \<and> TAILQ_rep h m' (us @ x # y # vs) \<and>
    frame {h} (set (us @ x # y # vs)) m m'"
proof -
  note p = TAILQ_rep_parts [OF r] and f = TAILQ_rep_facts [OF r]
  have "frame {h} (set (us @ x # y # vs)) m (upd_cell (end_cell (First h) us) (Some x) (upd_next x (Some y) m))"
    using p x by (intro frame_intros) auto
  then show ?thesis using p f x qchain_insert [OF p(1) x(2)]
    by (auto simp: TAILQ_INSERT_BEFORE_def intro!: TAILQ_repI frame_upd)
qed

lemma TAILQ_REMOVE_rep:
  assumes r: "TAILQ_rep h m (us @ x # vs)"
  shows "\<exists>m'. TAILQ_REMOVE h (Some x) m = Inr m' \<and> TAILQ_rep h m' (us @ vs) \<and> frame {h} (set (us @ vs)) m m'"
proof -
  note p = TAILQ_rep_parts [OF r] and f = TAILQ_rep_facts [OF r]
  have "frame {h} (set (us @ vs)) m (upd_cell (end_cell (First h) us) (ref_of vs) m)"
    using p by (intro frame_intros) auto
  then show ?thesis using p f qchain_remove [OF p(1)]
    by (cases vs) (auto simp: TAILQ_REMOVE_def TAILQ_simps intro!: TAILQ_repI frame_upd)
qed

lemma TAILQ_CONCAT_rep:
  assumes r: "TAILQ_rep h m xs" "TAILQ_rep k m ys" "h \<noteq> k"
  shows "\<exists>m'. TAILQ_CONCAT h k m = Inr m' \<and> TAILQ_rep h m' (xs @ ys) \<and> TAILQ_rep k m' [] \<and>
    frame {h, k} (set (xs @ ys)) m m'"
proof (cases ys)
  case Nil
  then show ?thesis using r TAILQ_rep_parts(5) [OF r(2)] by (simp add: TAILQ_CONCAT_def TAILQ_simps)
next
  case (Cons w ws)
  note px = TAILQ_rep_parts [OF r(1)] and py = TAILQ_rep_parts [OF r(2)]
  have d: "set xs \<inter> set ys = {}" by (rule TAILQ_rep_disjoint [OF r])
  have "chain (qnext m) (Some w) ys" using py(1,5) Cons by (simp add: qchain_def)
  then have c: "qchain (upd_cell (end_cell (First h) xs) (Some w) m) h (xs @ ys)"
    using qchain_upd_cell [of m h xs "[]"] px(1) d by simp
  have "frame {h, k} (set (xs @ ys)) m (upd_cell (end_cell (First h) xs) (Some w) m)"
    using px by (intro frame_intros) auto
  moreover have "qfirst (upd_cell (end_cell (First h) xs) (Some w) m) k = Some w"
    using py(5) Cons r(3) by (cases rule: end_cell_cases [of xs h]) (auto simp: upd_cell_def)
  ultimately show ?thesis using c d px py r(3) Cons
    by (auto simp: TAILQ_CONCAT_def TAILQ_simps TAILQ_INIT_def qchain_def intro!: TAILQ_repI frame_upd)
qed

lemma TAILQ_SWAP_rep:
  assumes r: "TAILQ_rep h m xs" "TAILQ_rep k m ys" "h \<noteq> k"
  shows "\<exists>m'. TAILQ_SWAP h k m = Inr m' \<and> TAILQ_rep h m' ys \<and> TAILQ_rep k m' xs"
  using TAILQ_rep_parts [OF r(1)] TAILQ_rep_parts [OF r(2)] TAILQ_rep_disjoint [OF r] r(3)
  by (cases xs; cases ys) (auto simp: TAILQ_SWAP_def Let_def qchain_def intro!: TAILQ_repI)

text \<open>The checks of the header hold in every queue; those of lists and tail queues agree.\<close>

lemma TAILQ_checks_are_LIST_checks:
  "QMD_TAILQ_CHECK_HEAD m h = QMD_LIST_CHECK_HEAD m h"
  "QMD_TAILQ_CHECK_NEXT m elm = QMD_LIST_CHECK_NEXT m elm"
  "QMD_TAILQ_CHECK_PREV m elm = QMD_LIST_CHECK_PREV m elm"
  by (simp_all add: QMD_TAILQ_CHECK_HEAD_def QMD_LIST_CHECK_HEAD_def QMD_TAILQ_CHECK_NEXT_def QMD_LIST_CHECK_NEXT_def
      QMD_TAILQ_CHECK_PREV_def QMD_LIST_CHECK_PREV_def TAILQ_simps LIST_simps)

lemma TAILQ_checks:
  assumes r: "TAILQ_rep h m xs"
  shows "QMD_TAILQ_CHECK_HEAD m h = Inr True \<and> QMD_TAILQ_CHECK_TAIL m h = Inr True \<and>
    (\<forall>x\<in>set xs. QMD_TAILQ_CHECK_NEXT m (Some x) = Inr True \<and> QMD_TAILQ_CHECK_PREV m (Some x) = Inr True)"
proof -
  have "LIST_rep h m xs" using r by (simp add: TAILQ_rep_def)
  then show ?thesis
    using LIST_checks_head LIST_checks_elem TAILQ_rep_parts [OF r] load_end_cell [of m h xs "[]"]
    by (simp add: TAILQ_checks_are_LIST_checks QMD_TAILQ_CHECK_TAIL_def)
qed

section \<open>Going backwards\<close>

text \<open>
  The second field behind the elements \<open>us\<close> is the address of the link that refers to the last of
  them, and of the link that ends the queue when there is none.
\<close>

lemma TAILQ_before:
  assumes r: "TAILQ_rep h m (us @ vs)"
  shows "cbind (last_at m (end_cell (First h) us)) (load_cell m) = Inr (ref_of (rev us))"
proof (cases rule: end_cell_cases [of us h])
  case 1
  then show ?thesis using TAILQ_rep_parts [OF r] load_end_cell [of m h vs "[]"] by (simp add: last_at_def)
next
  case (2 ws y)
  then show ?thesis using r TAILQ_rep_facts [of h m ws y vs] TAILQ_rep_parts(1) [OF r] load_end_cell [of m h ws "y # vs"]
    by (simp add: last_at_def)
qed

lemma TAILQ_LAST_rep: "TAILQ_rep h m xs \<Longrightarrow> TAILQ_LAST m h = Inr (ref_of (rev xs))"
  using TAILQ_before [of h m xs "[]"] TAILQ_rep_parts(3) [of h m xs] by (simp add: TAILQ_LAST_def)

lemma TAILQ_PREV_rep: "TAILQ_rep h m (us @ x # vs) \<Longrightarrow> TAILQ_PREV m (Some x) = Inr (ref_of (rev us))"
  using TAILQ_before [of h m us "x # vs"] TAILQ_rep_facts [of h m us x vs] by (simp add: TAILQ_PREV_def)

lemma TAILQ_NEXT_rep: "TAILQ_rep h m (us @ x # vs) \<Longrightarrow> TAILQ_NEXT m (Some x) = Inr (ref_of vs)"
  using TAILQ_rep_facts [of h m us x vs] by (simp add: TAILQ_NEXT_def)

text \<open>The iterations see the elements in order and in reverse order.\<close>

lemma TAILQ_FOREACH_collect:
  assumes "TAILQ_rep h m xs"
  shows "TAILQ_FOREACH fst collect h (m, []) = Some (Inr (m, xs))"
proof -
  have "TAILQ_NEXT m (Some y) = Inr (ref_of ys)" if "xs = us @ y # ys" for us y ys
    using TAILQ_NEXT_rep [of h m us y ys] assms that by simp
  then show ?thesis using foreach_collect [of xs TAILQ_NEXT m] TAILQ_rep_parts(5) [OF assms]
    by (simp add: TAILQ_FOREACH_def TAILQ_FIRST_def)
qed

lemma TAILQ_FOREACH_REVERSE_collect:
  assumes "TAILQ_rep h m xs"
  shows "TAILQ_FOREACH_REVERSE fst collect h (m, []) = Some (Inr (m, rev xs))"
proof -
  have "TAILQ_PREV m (Some y) = Inr (ref_of ys)" if "rev xs = us @ y # ys" for us y ys
    using TAILQ_PREV_rep [of h m "rev ys" y "rev us"] arg_cong [OF that, of rev] assms by simp
  then show ?thesis using foreach_collect [of "rev xs" TAILQ_PREV m] TAILQ_LAST_rep [OF assms]
    by (simp add: TAILQ_FOREACH_REVERSE_def)
qed

text \<open>The safe iteration with \<^verbatim>\<open>TAILQ_REMOVE\<close> as its body empties the queue.\<close>

lemma TAILQ_FOREACH_SAFE_empties:
  assumes "TAILQ_rep h m xs"
  shows "\<exists>m'. TAILQ_FOREACH_SAFE id (\<lambda>x m. Some (TAILQ_REMOVE h (Some x) m)) h m = Some (Inr m') \<and>
    TAILQ_rep h m' [] \<and> frame {h} (set xs) m m'"
proof -
  let ?I = "\<lambda>ys m'. TAILQ_rep h m' ys \<and> set ys \<subseteq> set xs \<and> frame {h} (set xs) m m'"
  have "\<exists>m'. foreach_safe (\<lambda>s. TAILQ_NEXT (id s)) (\<lambda>x m. Some (TAILQ_REMOVE h (Some x) m)) (ref_of xs) m = Some (Inr m') \<and> ?I [] m'"
  proof (rule foreach_safe_visits)
    fix y ys s
    assume I: "?I (y # ys) s"
    then obtain s' where s': "TAILQ_REMOVE h (Some y) s = Inr s'" "TAILQ_rep h s' ys" "frame {h} (set ys) s s'"
      using TAILQ_REMOVE_rep [of h s "[]" y ys] by auto
    then have "frame {h} (set xs) m s'" using I by (auto simp: frame_def)
    then show "TAILQ_NEXT (id s) (Some y) = Inr (ref_of ys) \<and> (\<exists>s'. Some (TAILQ_REMOVE h (Some y) s) = Some (Inr s') \<and> ?I ys s')"
      using I s' TAILQ_NEXT_rep [of h s "[]" y ys] by auto
  qed (use assms in simp)
  then show ?thesis using TAILQ_rep_parts(5) [OF assms] by (simp add: TAILQ_FOREACH_SAFE_def TAILQ_FIRST_def)
qed

section \<open>The interface\<close>

text \<open>The macros have no removal at the front: clients remove the first element.\<close>

fun tailq_step :: "nat \<Rightarrow> queue_op \<Rightarrow> qmem \<Rightarrow> qmem run" where
  "tailq_step h (Push x) m = Some (TAILQ_INSERT_HEAD h (Some x) m)"
| "tailq_step h (Append x) m = Some (TAILQ_INSERT_TAIL h (Some x) m)"
| "tailq_step h Pop m = Some (TAILQ_REMOVE h (TAILQ_FIRST m h) m)"
| "tailq_step h (Drop x) m = Some (TAILQ_REMOVE h (Some x) m)"

interpretation tailq: object_queue "TAILQ_rep h" live "tailq_step h" for h
proof
  fix m xs x
  assume a: "TAILQ_rep h m xs" "x \<in> live m" "x \<notin> set xs"
  show "\<exists>m'. tailq_step h (Push x) m = Some (Inr m') \<and> TAILQ_rep h m' (x # xs) \<and> live m' = live m"
    using TAILQ_INSERT_HEAD_rep [OF a] by (auto simp: frame_def)
  show "\<exists>m'. tailq_step h (Append x) m = Some (Inr m') \<and> TAILQ_rep h m' (xs @ [x]) \<and> live m' = live m"
    using TAILQ_INSERT_TAIL_rep [OF a] by (auto simp: frame_def)
next
  fix m xs x
  assume r: "TAILQ_rep h m xs" and x: "x \<in> set xs"
  obtain us vs where xs: "xs = us @ x # vs" "x \<notin> set us" using split_list_first [OF x] by blast
  then have "remove1 x xs = us @ vs" by (simp add: remove1_append)
  then show "\<exists>m'. tailq_step h (Drop x) m = Some (Inr m') \<and> TAILQ_rep h m' (remove1 x xs) \<and> live m' = live m"
    using TAILQ_REMOVE_rep [of h m us x vs] r xs by (auto simp: frame_def)
next
  fix m x xs
  assume r: "TAILQ_rep h m (x # xs)"
  then show "\<exists>m'. tailq_step h Pop m = Some (Inr m') \<and> TAILQ_rep h m' xs \<and> live m' = live m"
    using TAILQ_REMOVE_rep [of h m "[]" x xs] TAILQ_rep_parts(5) [OF r] by (auto simp: frame_def TAILQ_FIRST_def)
qed

end
