(* ===== verification/Queue_Properties.thy ===== *)
theory Queue_Properties
  imports Queue_Stailq Queue_Tailq
begin

text \<open>
  What clients of the list kinds of \<^verbatim>\<open>server/queue.h\<close> see: the properties of whole sequences of
  operations, read off with the iterations of the header.
\<close>

text \<open>
  C28. Tail queues of \<^verbatim>\<open>queue.h\<close>. From an initialised queue, every legal sequence of insertions at the
  front and at the end, removals of the first element and removals of given elements runs without a
  fault. Afterwards \<^verbatim>\<open>TAILQ_FOREACH\<close> sees exactly the elements, in the order, that the same operations give on a
  sequence, \<^verbatim>\<open>TAILQ_FOREACH_REVERSE\<close> the same elements backwards, \<^verbatim>\<open>TAILQ_LAST\<close> is the last of them, and the
  consistency checks of the header hold for the head and every element.
\<close>

theorem tailq_ops_correct:
  assumes "qops_ok (live m) [] ops" "xs = foldl spec_qop [] ops"
  shows "\<exists>m'. run_qops (tailq_step h) ops (TAILQ_INIT h m) = Some (Inr m') \<and>
    TAILQ_FOREACH fst collect h (m', []) = Some (Inr (m', xs)) \<and>
    TAILQ_FOREACH_REVERSE fst collect h (m', []) = Some (Inr (m', rev xs)) \<and>
    TAILQ_LAST m' h = Inr (ref_of (rev xs)) \<and>
    QMD_TAILQ_CHECK_HEAD m' h = Inr True \<and> QMD_TAILQ_CHECK_TAIL m' h = Inr True \<and>
    (\<forall>x\<in>set xs. QMD_TAILQ_CHECK_NEXT m' (Some x) = Inr True \<and> QMD_TAILQ_CHECK_PREV m' (Some x) = Inr True)"
proof -
  have "live (TAILQ_INIT h m) = live m" by (simp add: TAILQ_INIT_def)
  then obtain m' where "run_qops (tailq_step h) ops (TAILQ_INIT h m) = Some (Inr m')" "TAILQ_rep h m' xs"
    using tailq.run_qops_ok [OF TAILQ_INIT_rep, of h m ops] assms by auto
  then show ?thesis
    using TAILQ_FOREACH_collect TAILQ_FOREACH_REVERSE_collect TAILQ_LAST_rep TAILQ_checks by blast
qed

definition blank_mem :: qmem where
  "blank_mem = \<lparr>qfirst = \<lambda>_. None, qlast = \<lambda>_. First 0, qnext = \<lambda>_. Some None, qprev = \<lambda>_. First 0\<rparr>"

lemma blank_live [simp]: "a \<in> live blank_mem"
  by (simp add: blank_mem_def live_def)

theorem tailq_ops_correct_witness:
  "\<exists>m'. run_qops (tailq_step 7) [Append 1, Append 2, Push 3, Drop 1, Append 4, Pop] (TAILQ_INIT 7 blank_mem) = Some (Inr m') \<and>
    TAILQ_FOREACH fst collect 7 (m', []) = Some (Inr (m', [2, 4])) \<and>
    TAILQ_FOREACH_REVERSE fst collect 7 (m', []) = Some (Inr (m', [4, 2])) \<and>
    TAILQ_LAST m' 7 = Inr (Some 4) \<and>
    QMD_TAILQ_CHECK_HEAD m' 7 = Inr True \<and> QMD_TAILQ_CHECK_TAIL m' 7 = Inr True \<and>
    (\<forall>x\<in>set [2, 4]. QMD_TAILQ_CHECK_NEXT m' (Some x) = Inr True \<and> QMD_TAILQ_CHECK_PREV m' (Some x) = Inr True)"
proof -
  let ?ops = "[Append 1, Append 2, Push 3, Drop 1, Append 4, Pop]"
  have "qops_ok (live blank_mem) [] ?ops" "[2, 4] = foldl spec_qop [] ?ops" by simp_all
  from tailq_ops_correct [OF this, of 7] show ?thesis by (simp only: rev.simps append.simps ref_of_simps)
qed

text \<open>
  C29. Singly-linked tail queues of \<^verbatim>\<open>queue.h\<close>. From an initialised queue, every legal sequence of
  insertions at the front and at the end, removals of the first element and removals of given
  elements ends and runs without a fault; \<^verbatim>\<open>STAILQ_FOREACH\<close> then sees exactly the elements, in the order,
  that the same operations give on a sequence, and \<^verbatim>\<open>STAILQ_LAST\<close> is the last of them.
\<close>

theorem stailq_ops_correct:
  assumes "qops_ok (live m) [] ops" "xs = foldl spec_qop [] ops"
  shows "\<exists>m'. run_qops (stailq_step h) ops (STAILQ_INIT h m) = Some (Inr m') \<and>
    STAILQ_FOREACH fst collect h (m', []) = Some (Inr (m', xs)) \<and>
    STAILQ_LAST m' h = Inr (if xs = [] then None else Some (last xs))"
proof -
  have "live (STAILQ_INIT h m) = live m" by (simp add: STAILQ_INIT_def)
  then obtain m' where "run_qops (stailq_step h) ops (STAILQ_INIT h m) = Some (Inr m')" "STAILQ_rep h m' xs"
    using stailq.run_qops_ok [OF STAILQ_INIT_rep, of h m ops] assms by auto
  then show ?thesis using STAILQ_FOREACH_collect STAILQ_LAST_rep by blast
qed

theorem stailq_ops_correct_witness:
  "\<exists>m'. run_qops (stailq_step 7) [Append 1, Append 2, Push 3, Drop 2] (STAILQ_INIT 7 blank_mem) = Some (Inr m') \<and>
    STAILQ_FOREACH fst collect 7 (m', []) = Some (Inr (m', [3, 1])) \<and> STAILQ_LAST m' 7 = Inr (Some 1)"
proof -
  let ?ops = "[Append 1, Append 2, Push 3, Drop 2]"
  have "qops_ok (live blank_mem) [] ?ops" "[3, 1] = foldl spec_qop [] ?ops" by simp_all
  from stailq_ops_correct [OF this, of 7] show ?thesis by (simp only: last.simps list.distinct if_False if_True simp_thms)
qed

text \<open>
  C30. Lists of \<^verbatim>\<open>queue.h\<close>. From an initialised list, every legal sequence of insertions at the front and
  removals runs without a fault and leaves the elements, in the order, that the same operations give on a
  sequence, for which the consistency checks of the header hold; then \<^verbatim>\<open>LIST_FOREACH_SAFE\<close> with a body that removes the element it visits ends, without a fault,
  with an empty list.
\<close>

theorem list_ops_then_drain:
  assumes "ops_ok (live m) [] ops" "xs = foldl spec_op [] ops"
  shows "\<exists>m' m''. run_ops (list_ins h) list_del ops (LIST_INIT h m) = Some (Inr m') \<and>
    LIST_FOREACH fst collect h (m', []) = Some (Inr (m', xs)) \<and>
    QMD_LIST_CHECK_HEAD m' h = Inr True \<and>
    (\<forall>x\<in>set xs. QMD_LIST_CHECK_NEXT m' (Some x) = Inr True \<and> QMD_LIST_CHECK_PREV m' (Some x) = Inr True) \<and>
    LIST_FOREACH_SAFE id list_del h m' = Some (Inr m'') \<and> LIST_EMPTY m'' h"
proof -
  have "live (LIST_INIT h m) = live m" by (simp add: LIST_INIT_def)
  then obtain m' where m': "run_ops (list_ins h) list_del ops (LIST_INIT h m) = Some (Inr m')" "LIST_rep h m' xs"
    using dll.run_ops_ok [OF LIST_INIT_rep, of h m ops] assms by auto
  obtain m'' where "LIST_FOREACH_SAFE id list_del h m' = Some (Inr m'')" "LIST_rep h m'' []"
    using LIST_FOREACH_SAFE_empties [OF m'(2)] unfolding list_del_def [abs_def] by blast
  then show ?thesis
    using m' LIST_FOREACH_collect [OF m'(2)] LIST_checks_head [OF m'(2)] LIST_checks_elem [OF m'(2)] qchain_first [of m'' h "[]"]
    by (auto simp: LIST_EMPTY_def LIST_rep_def)
qed

theorem list_ops_then_drain_witness:
  "\<exists>m' m''. run_ops (list_ins 7) list_del [Ins 1, Ins 2, Ins 3, Del 2] (LIST_INIT 7 blank_mem) = Some (Inr m') \<and>
    LIST_FOREACH fst collect 7 (m', []) = Some (Inr (m', [3, 1])) \<and>
    QMD_LIST_CHECK_HEAD m' 7 = Inr True \<and>
    (\<forall>x\<in>set [3, 1]. QMD_LIST_CHECK_NEXT m' (Some x) = Inr True \<and> QMD_LIST_CHECK_PREV m' (Some x) = Inr True) \<and>
    LIST_FOREACH_SAFE id list_del 7 m' = Some (Inr m'') \<and> LIST_EMPTY m'' 7"
  by (rule list_ops_then_drain) simp_all

text \<open>
  Two tail queues of \<^verbatim>\<open>queue.h\<close>. Concatenation moves the elements of the second queue behind those of the
  first, leaves the second empty, and changes no third queue; swapping exchanges the elements.
\<close>

theorem tailq_concat_swap:
  assumes "TAILQ_rep h m xs" "TAILQ_rep k m ys" "TAILQ_rep l m zs" "distinct [h, k, l]"
  shows "\<exists>m' m''. TAILQ_CONCAT h k m = Inr m' \<and> TAILQ_rep h m' (xs @ ys) \<and> TAILQ_rep k m' [] \<and> TAILQ_rep l m' zs \<and>
    TAILQ_SWAP h k m = Inr m'' \<and> TAILQ_rep h m'' ys \<and> TAILQ_rep k m'' xs"
proof -
  have d: "set zs \<inter> set (xs @ ys) = {}"
    using TAILQ_rep_disjoint [OF assms(3,1)] TAILQ_rep_disjoint [OF assms(3,2)] assms(4) by auto
  obtain m' where m': "TAILQ_CONCAT h k m = Inr m'" "TAILQ_rep h m' (xs @ ys)" "TAILQ_rep k m' []"
      "frame {h, k} (set (xs @ ys)) m m'"
    using TAILQ_CONCAT_rep [OF assms(1,2)] assms(4) by auto
  then have "TAILQ_rep l m' zs" using TAILQ_rep_frame [OF m'(4) _ d] assms(3,4) by simp
  then show ?thesis using m' TAILQ_SWAP_rep [OF assms(1,2)] assms(4) by auto
qed

definition three_queues :: qmem where
  "three_queues = \<lparr>qfirst = (\<lambda>_. None)(7 := Some 1, 8 := Some 2, 9 := Some 3),
      qlast = (\<lambda>_. First 0)(7 := Next 1, 8 := Next 2, 9 := Next 3), qnext = \<lambda>_. Some None,
      qprev = (\<lambda>_. First 0)(1 := First 7, 2 := First 8, 3 := First 9)\<rparr>"

theorem tailq_concat_swap_witness:
  "\<exists>m' m''. TAILQ_CONCAT 7 8 three_queues = Inr m' \<and> TAILQ_rep 7 m' ([1] @ [2]) \<and> TAILQ_rep 8 m' [] \<and> TAILQ_rep 9 m' [3] \<and>
    TAILQ_SWAP 7 8 three_queues = Inr m'' \<and> TAILQ_rep 7 m'' [2] \<and> TAILQ_rep 8 m'' [1]"
  by (rule tailq_concat_swap) (simp_all add: three_queues_def TAILQ_rep_def LIST_rep_def qchain_def)

end
