(* ===== verification/C_Strings.thy ===== *)
theory C_Strings
  imports Aesd_Prelude
begin

text \<open>
  The string functions of the C library that the programs use, on buffers of bytes. A string is
  the bytes of a buffer before the first zero byte; looking for the end of a string in a buffer
  without a zero byte is an access out of bounds.
\<close>

definition bytes_of :: "string \<Rightarrow> byte list" where
  "bytes_of s = map of_char s"

definition cstr :: "byte list \<Rightarrow> byte list checked" where
  "cstr buf = (if 0 \<in> set buf then Inr (takeWhile (\<lambda>c. c \<noteq> 0) buf) else Inl Out_Of_Bounds)"

text \<open>\<^verbatim>\<open>strchr (buf + i, c)\<close> for a nonzero character, as an index into the buffer.\<close>

definition strchr :: "byte list \<Rightarrow> nat \<Rightarrow> byte \<Rightarrow> nat option checked" where
  "strchr buf i c = cbind (cstr (drop i buf)) (\<lambda>s.
     Inr (if c \<in> set s then Some (i + length (takeWhile (\<lambda>x. x \<noteq> c) s)) else None))"

text \<open>\<^verbatim>\<open>strncmp (a, b, n) == 0\<close>, for strings given without their terminating zero.\<close>

fun strncmp_eq :: "byte list \<Rightarrow> byte list \<Rightarrow> nat \<Rightarrow> bool" where
  "strncmp_eq a b 0 \<longleftrightarrow> True"
| "strncmp_eq [] [] (Suc n) \<longleftrightarrow> True"
| "strncmp_eq (x # a) (y # b) (Suc n) \<longleftrightarrow> x = y \<and> strncmp_eq a b n"
| "strncmp_eq [] (y # b) (Suc n) \<longleftrightarrow> False"
| "strncmp_eq (x # a) [] (Suc n) \<longleftrightarrow> False"

lemma strncmp_eq_take: "strncmp_eq a b n \<longleftrightarrow> take n a = take n b"
  by (induction a b n rule: strncmp_eq.induct) auto

section \<open>Numbers\<close>

definition isspace :: "byte \<Rightarrow> bool" where
  "isspace c \<longleftrightarrow> c = 32 \<or> 9 \<le> c \<and> c \<le> 13"

definition isdigit :: "byte \<Rightarrow> bool" where
  "isdigit c \<longleftrightarrow> 48 \<le> c \<and> c \<le> 57"

definition dec_value :: "byte list \<Rightarrow> int" where
  "dec_value ds = foldl (\<lambda>v d. 10 * v + (uint d - 48)) 0 ds"

text \<open>\<^verbatim>\<open>strtol\<close> saturates at the ends of the range of \<^verbatim>\<open>long\<close>.\<close>

definition long_clamp :: "int \<Rightarrow> int" where
  "long_clamp v = max (- (2 ^ 63)) (min (2 ^ 63 - 1) v)"

text \<open>
  A decimal number at the start of a string: white space, a sign, digits. The result is the value
  and the rest of the string, or nothing when there is no digit.
\<close>

definition scan_long :: "byte list \<Rightarrow> (int \<times> byte list) option" where
  "scan_long s =
     (let s1 = dropWhile isspace s;
          neg = (case s1 of c # _ \<Rightarrow> c = 45 | [] \<Rightarrow> False);
          s2 = (case s1 of c # t \<Rightarrow> if c = 45 \<or> c = 43 then t else s1 | [] \<Rightarrow> []);
          ds = takeWhile isdigit s2
      in if ds = [] then None
         else Some (long_clamp (if neg then - dec_value ds else dec_value ds), dropWhile isdigit s2))"

definition strtol :: "byte list \<Rightarrow> int" where
  "strtol s = (case scan_long s of None \<Rightarrow> 0 | Some (v, _) \<Rightarrow> v)"

definition scan_lit :: "byte list \<Rightarrow> byte list \<Rightarrow> byte list option" where
  "scan_lit lit s = (if take (length lit) s = lit then Some (drop (length lit) s) else None)"

text \<open>
  \<^verbatim>\<open>sscanf (s, "<lit>%d,%d", &a, &b)\<close>: the number of conversions and the values converted. The two
  values are stored in 32-bit variables.
\<close>

definition sscanf_lit_d_d :: "byte list \<Rightarrow> byte list \<Rightarrow> nat \<times> u32 option \<times> u32 option" where
  "sscanf_lit_d_d lit s =
     (case Option.bind (scan_lit lit s) scan_long of
        None \<Rightarrow> (0, None, None)
      | Some (a, s1) \<Rightarrow>
          (case Option.bind (scan_lit [44] s1) scan_long of
             None \<Rightarrow> (1, Some (word_of_int a), None)
           | Some (b, _) \<Rightarrow> (2, Some (word_of_int a), Some (word_of_int b))))"

section \<open>Facts\<close>

text \<open>A buffer that holds \<open>bs\<close> followed by a zero byte, where \<open>bs\<close> has none.\<close>

lemma cstr_terminated: "0 \<notin> set bs \<Longrightarrow> cstr (bs @ 0 # junk) = Inr bs"
  by (auto simp: cstr_def takeWhile_tail takeWhile_eq_all_conv)

lemma strchr_terminated:
  assumes "0 \<notin> set bs" "i \<le> length bs"
  shows "strchr (bs @ 0 # junk) i c =
    Inr (if c \<in> set (drop i bs) then Some (i + length (takeWhile (\<lambda>x. x \<noteq> c) (drop i bs))) else None)"
proof -
  have "0 \<notin> set (drop i bs)" using assms(1) by (auto dest: in_set_dropD)
  then have "cstr (drop i (bs @ 0 # junk)) = Inr (drop i bs)" using assms(2) by (simp add: cstr_terminated)
  then show ?thesis by (simp add: strchr_def)
qed

text \<open>The decimal representation of a number, and reading it back.\<close>

fun dec_digits :: "nat \<Rightarrow> byte list" where
  "dec_digits n = (if n < 10 then [of_nat (48 + n)] else dec_digits (n div 10) @ [of_nat (48 + n mod 10)])"

declare dec_digits.simps [simp del]

lemma digit_byte:
  assumes "d < 10"
  shows "uint (of_nat (48 + d) :: byte) = 48 + int d" "isdigit (of_nat (48 + d))"
proof -
  have u: "unat (of_nat (48 + d) :: byte) = 48 + d" using assms by (intro unat_of_nat_lt) simp
  then show "uint (of_nat (48 + d) :: byte) = 48 + int d" by (metis of_nat_add of_nat_numeral uint_nat)
  show "isdigit (of_nat (48 + d))" using assms u by (simp add: isdigit_def word_le_nat_alt)
qed

lemma dec_value_append: "dec_value (ds @ [d]) = 10 * dec_value ds + (uint d - 48)"
  by (simp add: dec_value_def)

lemma dec_digits_props: "dec_value (dec_digits n) = int n \<and> (\<forall>d\<in>set (dec_digits n). isdigit d) \<and> dec_digits n \<noteq> []"
proof (induction n rule: dec_digits.induct)
  case (1 n)
  have "10 * int (n div 10) + int (n mod 10) = int n"
    by (metis div_mult_mod_eq mult.commute of_nat_add of_nat_mult of_nat_numeral)
  then show ?case
    using 1 digit_byte [of n] digit_byte [of "n mod 10"]
    by (cases "n < 10") (auto simp: dec_digits.simps [of n] dec_value_append dec_value_def)
qed

lemma digit_not: "isdigit c \<Longrightarrow> \<not> isspace c" "isdigit c \<Longrightarrow> c \<noteq> 45" "isdigit c \<Longrightarrow> c \<noteq> 43"
  "isdigit c \<Longrightarrow> c \<noteq> 0" "isdigit c \<Longrightarrow> c \<noteq> 10"
  by (auto simp: isdigit_def isspace_def word_le_nat_alt)

lemma scan_long_digits:
  assumes "n < 2 ^ 63" "rest = [] \<or> \<not> isdigit (hd rest)"
  shows "scan_long (dec_digits n @ rest) = Some (int n, rest)"
proof -
  note d = dec_digits_props [of n]
  obtain c ds where c: "dec_digits n = c # ds" "isdigit c" using d by (cases "dec_digits n") auto
  have "takeWhile isdigit (dec_digits n @ rest) = dec_digits n" "dropWhile isdigit (dec_digits n @ rest) = rest"
    using d assms(2) by (cases rest; simp add: takeWhile_append dropWhile_append)+
  moreover have "long_clamp (int n) = int n" using assms(1) by (simp add: long_clamp_def)
  ultimately show ?thesis
    using d c digit_not [OF c(2)] by (simp add: scan_long_def)
qed

end
