(* ===== verification/Socket_Client.thy ===== *)
theory Socket_Client
  imports C_Strings Char_Driver
begin

text \<open>
  The threads of the socket server that use the file: \<^verbatim>\<open>write_buffer\<close>, \<^verbatim>\<open>handle_client_connection\<close> and
  \<^verbatim>\<open>timer\<close> of \<^verbatim>\<open>server/aesdsocket.c\<close>. The system calls are the fields of a record \<open>io\<close> over a state \<open>'w\<close> of the
  world, which the definitions take as an argument: the socket, the file, the file lock, and the
  flag \<^verbatim>\<open>should_exit\<close> that the signal handler sets. A read returns the bytes it stored, or an
  error; a call may also fault in the kernel or not return. Log output is left out.

  The input buffer is the array of 1024 bytes of the source, kept from read to read.
\<close>

section \<open>System calls\<close>

datatype io_errno = EAGAIN | EOTHER

record 'w io =
  io_read :: "int \<Rightarrow> nat \<Rightarrow> 'w \<Rightarrow> ((io_errno + byte list) \<times> 'w) run"
  io_write :: "int \<Rightarrow> byte list \<Rightarrow> 'w \<Rightarrow> ((io_errno + nat) \<times> 'w) run"
  io_ioctl :: "int \<Rightarrow> aesd_seekto \<Rightarrow> 'w \<Rightarrow> (bool \<times> 'w) run"
  io_rewind :: "int \<Rightarrow> 'w \<Rightarrow> 'w run"
  io_fdatasync :: "int \<Rightarrow> 'w \<Rightarrow> 'w run"
  io_close :: "int \<Rightarrow> 'w \<Rightarrow> 'w run"
  io_usleep :: "nat \<Rightarrow> 'w \<Rightarrow> 'w run"
  io_lock :: "'w \<Rightarrow> (bool \<times> 'w) run"
  io_unlock :: "'w \<Rightarrow> (bool \<times> 'w) run"
  io_should_exit :: "'w \<Rightarrow> bool"

section \<open>Writing a whole buffer\<close>

definition write_buffer :: "'w io \<Rightarrow> int \<Rightarrow> byte list \<Rightarrow> 'w \<Rightarrow> (bool \<times> 'w) run" where
  "write_buffer io fd buffer w0 =
     run_iter (\<lambda>(bytes_written, w).
       if bytes_written < length buffer
       then rbind (io_write io fd (drop bytes_written buffer) w) (\<lambda>(ret, w').
              case ret of
                Inl _ \<Rightarrow> Some (Inr (Inr (False, w')))
              | Inr n \<Rightarrow> Some (Inr (Inl (bytes_written + n, w'))))
       else Some (Inr (Inr (True, w))))
     (0, w0)"

section \<open>One line\<close>

text \<open>How the handling of a line, of a chunk or of the connection ends.\<close>

datatype line_end = Next_Line | Hang_Up

datatype thread_end = Thread_Complete | Process_Exit int

definition BUFFER_SIZE :: nat where
  "BUFFER_SIZE = 1024"

definition seek_prefix :: "byte list" where
  "seek_prefix = bytes_of ''AESDCHAR_IOCSEEKTO''"

text \<open>The copy of the file to the socket: \<open>False\<close> when the socket could not be written.\<close>

definition send_file :: "'w io \<Rightarrow> int \<Rightarrow> int \<Rightarrow> 'w \<Rightarrow> (bool \<times> 'w) run" where
  "send_file io file_fd conn_fd =
     run_iter (\<lambda>w.
       rbind (io_read io file_fd BUFFER_SIZE w) (\<lambda>(r, w1).
         case r of
           Inl _ \<Rightarrow> Some (Inr (Inr (True, w1)))
         | Inr bs \<Rightarrow>
             if bs = [] then Some (Inr (Inr (True, w1)))
             else rbind (write_buffer io conn_fd bs w1) (\<lambda>(ok, w2).
               if ok then Some (Inr (Inl w2)) else Some (Inr (Inr (False, w2))))))"

text \<open>
  Is the line that starts at \<open>prev\<close> and has \<open>len\<close> bytes a seek command? The comparison is cut to the
  length of the line.
\<close>

definition is_seek_line :: "byte list \<Rightarrow> nat \<Rightarrow> nat \<Rightarrow> bool checked" where
  "is_seek_line buf prev len =
     cbind (cstr (drop prev buf)) (\<lambda>s. Inr (strncmp_eq s seek_prefix (min len 18)))"

definition parse_seek :: "byte list \<Rightarrow> nat \<Rightarrow> aesd_seekto option checked" where
  "parse_seek buf prev =
     cbind (cstr (drop prev buf)) (\<lambda>s.
       case sscanf_lit_d_d (seek_prefix @ [58]) s of
         (n, Some a, Some b) \<Rightarrow> Inr (if n = 2 then Some \<lparr>write_cmd = a, write_cmd_offset = b\<rparr> else None)
       | _ \<Rightarrow> Inr None)"

text \<open>The end of every branch of a line: the file is sent; if that fails the connection is closed.\<close>

definition send_or_hang_up :: "'w io \<Rightarrow> int \<Rightarrow> int \<Rightarrow> 'w \<Rightarrow> (line_end \<times> 'w) run" where
  "send_or_hang_up io file_fd conn_fd w =
     rbind (send_file io file_fd conn_fd w) (\<lambda>(ok, w1).
       if ok then Some (Inr (Next_Line, w1))
       else rbind (io_close io conn_fd w1) (\<lambda>w2. Some (Inr (Hang_Up, w2))))"

definition handle_line ::
  "'w io \<Rightarrow> int \<Rightarrow> int \<Rightarrow> byte list \<Rightarrow> nat \<Rightarrow> nat \<Rightarrow> 'w \<Rightarrow> (line_end \<times> 'w) run" where
  "handle_line io file_fd conn_fd buf prev nl w =
     (let len = nl - prev + 1
      in rbind (Some (is_seek_line buf prev len)) (\<lambda>seek.
         if seek
         then rbind (Some (parse_seek buf prev)) (\<lambda>arg.
                case arg of
                  None \<Rightarrow> send_or_hang_up io file_fd conn_fd w
                | Some seekto \<Rightarrow>
                    rbind (io_ioctl io file_fd seekto w) (\<lambda>(ok, w1).
                      if ok then send_or_hang_up io file_fd conn_fd w1
                      else rbind (io_unlock io w1) (\<lambda>(_, w2).
                           rbind (io_close io conn_fd w2) (\<lambda>w3. Some (Inr (Hang_Up, w3))))))
         else rbind (write_buffer io file_fd (take len (drop prev buf)) w) (\<lambda>(_, w1).
              rbind (io_fdatasync io file_fd w1) (\<lambda>w2.
              rbind (io_rewind io file_fd w2) (\<lambda>w3. send_or_hang_up io file_fd conn_fd w3)))))"

section \<open>One chunk of input\<close>

text \<open>The lines of the buffer, from its start; the loop ends when no newline is left.\<close>

definition chunk_step ::
  "'w io \<Rightarrow> int \<Rightarrow> int \<Rightarrow> byte list \<Rightarrow> nat \<times> 'w \<Rightarrow> ((nat \<times> 'w) + (line_end \<times> 'w)) run" where
  "chunk_step io file_fd conn_fd buf = (\<lambda>(prev, w).
     rbind (Some (strchr buf prev newline)) (\<lambda>r.
       case r of
         None \<Rightarrow> Some (Inr (Inr (Next_Line, w)))
       | Some nl \<Rightarrow>
           rbind (handle_line io file_fd conn_fd buf prev nl w) (\<lambda>(e, w').
             case e of
               Next_Line \<Rightarrow> Some (Inr (Inl (nl + 1, w')))
             | Hang_Up \<Rightarrow> Some (Inr (Inr (Hang_Up, w'))))))"

definition handle_chunk :: "'w io \<Rightarrow> int \<Rightarrow> int \<Rightarrow> byte list \<Rightarrow> 'w \<Rightarrow> (line_end \<times> 'w) run" where
  "handle_chunk io file_fd conn_fd buf w = run_iter (chunk_step io file_fd conn_fd buf) (0, w)"

text \<open>
  What the thread does with the bytes of one read, under the file lock. A failed read that is not
  \<^verbatim>\<open>EAGAIN\<close> gets here too: the code then stores the zero byte at index -1.
\<close>

definition store_chunk :: "byte list \<Rightarrow> byte list \<Rightarrow> byte list checked" where
  "store_chunk buf bs =
     (let buf1 = bs @ drop (length bs) buf
      in if length bs < length buf then Inr (buf1[length bs := 0]) else Inl Out_Of_Bounds)"

definition locked_chunk ::
  "'w io \<Rightarrow> int \<Rightarrow> int \<Rightarrow> byte list option \<Rightarrow> byte list \<Rightarrow> 'w \<Rightarrow>
   ((thread_end option \<times> byte list) \<times> 'w) run" where
  "locked_chunk io file_fd conn_fd bytes buf w =
     rbind (io_lock io w) (\<lambda>(failed, w1).
       if failed then Some (Inr ((Some (Process_Exit 1), buf), w1))
       else rbind (Some (case bytes of None \<Rightarrow> Inl Out_Of_Bounds | Some bs \<Rightarrow> store_chunk buf bs)) (\<lambda>buf'.
            rbind (handle_chunk io file_fd conn_fd buf' w1) (\<lambda>(e, w2).
              case e of
                Hang_Up \<Rightarrow> Some (Inr ((Some Thread_Complete, buf'), w2))
              | Next_Line \<Rightarrow>
                  rbind (io_unlock io w2) (\<lambda>(failed, w3).
                    Some (Inr ((if failed then Some (Process_Exit 1) else None, buf'), w3))))))"

section \<open>The connection\<close>

definition client_step ::
  "'w io \<Rightarrow> int \<Rightarrow> int \<Rightarrow> byte list \<times> 'w \<Rightarrow> ((byte list \<times> 'w) + (thread_end \<times> 'w)) run" where
  "client_step io file_fd conn_fd = (\<lambda>(buf, w).
     if io_should_exit io w
     then rbind (io_close io conn_fd w) (\<lambda>w'. Some (Inr (Inr (Thread_Complete, w'))))
     else rbind (io_read io conn_fd (BUFFER_SIZE - 1) w) (\<lambda>(r, w1).
       let locked = (\<lambda>bytes. rbind (locked_chunk io file_fd conn_fd bytes buf w1) (\<lambda>((e, buf'), w2).
             case e of
               Some t \<Rightarrow> Some (Inr (Inr (t, w2)))
             | None \<Rightarrow> Some (Inr (Inl (buf', w2)))))
       in case r of
            Inl EAGAIN \<Rightarrow> rbind (io_usleep io 1000000 w1) (\<lambda>w2. Some (Inr (Inl (buf, w2))))
          | Inl EOTHER \<Rightarrow> locked None
          | Inr bs \<Rightarrow>
              if bs = [] then rbind (io_close io conn_fd w1) (\<lambda>w2. Some (Inr (Inr (Thread_Complete, w2))))
              else locked (Some bs)))"

definition handle_client_connection :: "'w io \<Rightarrow> int \<Rightarrow> int \<Rightarrow> 'w \<Rightarrow> (thread_end \<times> 'w) run" where
  "handle_client_connection io file_fd conn_fd w =
     run_iter (client_step io file_fd conn_fd) (replicate BUFFER_SIZE 0, w)"

section \<open>The timer\<close>

text \<open>
  A round of the timer thread: the line is the fixed text followed by the formatted time, and the
  file is written once, whatever the write returns. \<open>stamp\<close> is the string that \<^verbatim>\<open>strftime\<close> left behind
  the fixed text; it has room for 52 characters. \<open>timer\<close> is the whole thread, with the stamp of every round.
\<close>

definition timer_preamble :: "byte list" where
  "timer_preamble = bytes_of ''timestamp:''"

definition timer_step :: "'w io \<Rightarrow> int \<Rightarrow> byte list \<Rightarrow> 'w \<Rightarrow> ('w + (thread_end \<times> 'w)) run" where
  "timer_step io file_fd stamp w =
     (if io_should_exit io w then Some (Inr (Inr (Thread_Complete, w)))
      else rbind (io_lock io w) (\<lambda>(failed, w1).
        if failed then Some (Inr (Inr (Process_Exit 1, w1)))
        else rbind (io_write io file_fd (timer_preamble @ stamp) w1) (\<lambda>(_, w2).
             rbind (io_unlock io w2) (\<lambda>(failed, w3).
               if failed then Some (Inr (Inr (Process_Exit 1, w3)))
               else rbind (io_usleep io 10000000 w3) (\<lambda>w4. Some (Inr (Inl w4)))))))"

definition timer :: "'w io \<Rightarrow> int \<Rightarrow> (nat \<Rightarrow> byte list) \<Rightarrow> 'w \<Rightarrow> (thread_end \<times> 'w) run" where
  "timer io file_fd stamps w0 =
     run_iter (\<lambda>(i, w). rbind (timer_step io file_fd (stamps i) w) (\<lambda>r.
       case r of
         Inl w' \<Rightarrow> Some (Inr (Inl (Suc i, w')))
       | Inr e \<Rightarrow> Some (Inr (Inr e))))
     (0, w0)"

end
