(* ===== verification/Socket_Spec.thy ===== *)
theory Socket_Spec
  imports Socket_Client Driver_History
begin

text \<open>
  What the handler of a connection promises: the abstract file it writes lines to (\<open>store\<close>) and what
  any bytes from a client do to it and send back (\<open>serve_text\<close>, \<open>serve_events\<close>), with the special case of
  whole lines (\<open>serve_lines\<close>).
\<close>

section \<open>Stores\<close>

text \<open>
  \<open>st_put\<close> is what writing a line does, \<open>st_next\<close> the position after it, \<open>st_data\<close> the contents, \<open>st_part\<close> the
  bytes one read returns at a position, \<open>st_seek\<close> the position a seek command leads to, if it is
  accepted, and \<open>st_ready\<close> says at which position a line may be written.
\<close>

record 'd store =
  st_put :: "'d \<Rightarrow> byte list \<Rightarrow> 'd"
  st_next :: "nat \<Rightarrow> byte list \<Rightarrow> nat"
  st_data :: "'d \<Rightarrow> byte list"
  st_part :: "'d \<Rightarrow> nat \<Rightarrow> nat \<Rightarrow> byte list"
  st_seek :: "'d \<Rightarrow> nat \<Rightarrow> nat \<Rightarrow> nat option"
  st_ready :: "'d \<Rightarrow> nat \<Rightarrow> bool"

text \<open>What the handler sees of the world: the store and the position in it, its own socket, the lock, and the rest.\<close>

record ('d, 'o) client_view =
  v_dev :: 'd
  v_pos :: nat
  v_sent :: "byte list"
  v_input :: "(io_errno + byte list) list"
  v_lock :: bool
  v_open :: bool
  v_rest :: 'o

section \<open>What a text does to a store\<close>

text \<open>
  A store with a position is given a text. Its first line, up to and with the first newline, is stored
  and the whole contents are the reply, unless it starts with the command word. Then two numbers are
  read from the text, which may reach beyond the line: with both the position is set, if the store
  accepts it, and the reply is the contents from there on; without them the reply is what is left
  behind the old position. A seek that is not accepted has no result.
\<close>

definition line_of :: "byte list \<Rightarrow> byte list" where
  "line_of t = takeWhile (\<lambda>c. c \<noteq> newline) t @ [newline]"

definition scan_seek :: "byte list \<Rightarrow> (u32 \<times> u32) option" where
  "scan_seek t =
     (case sscanf_lit_d_d (seek_prefix @ [58]) t of
        (n, Some a, Some b) \<Rightarrow> if n = 2 then Some (a, b) else None
      | _ \<Rightarrow> None)"

definition serve_line :: "'d store \<Rightarrow> 'd \<times> nat \<Rightarrow> byte list \<Rightarrow> (('d \<times> nat) \<times> byte list) option" where
  "serve_line D x t =
     (let d = fst x; l = line_of t
      in if take 18 l \<noteq> seek_prefix
         then let d' = st_put D d l in Some ((d', length (st_data D d')), st_data D d')
         else case scan_seek t of
                None \<Rightarrow> Some ((d, max (snd x) (length (st_data D d))), drop (snd x) (st_data D d))
              | Some (a, b) \<Rightarrow>
                  map_option (\<lambda>q. ((d, length (st_data D d)), drop q (st_data D d))) (st_seek D d (unat a) (unat b)))"

text \<open>
  A text line by line. The last component tells whether all lines were served; the rest behind the
  last newline is dropped.
\<close>

function serve_text :: "'d store \<Rightarrow> 'd \<times> nat \<Rightarrow> byte list \<Rightarrow> ('d \<times> nat) \<times> byte list \<times> bool" where
  "serve_text D x t =
     (if newline \<notin> set t then (x, [], True)
      else case serve_line D x t of
             None \<Rightarrow> (x, [], False)
           | Some (y, r) \<Rightarrow>
               (case serve_text D y (drop (length (line_of t)) t) of (z, rs, ok) \<Rightarrow> (z, r @ rs, ok)))"
  by auto
termination
  by (relation "measure (\<lambda>(D, x, t). length t)") (auto simp: line_of_def intro!: diff_less length_pos_if_in_set)

declare serve_text.simps [simp del]

lemma serve_text_stop: "newline \<notin> set t \<Longrightarrow> serve_text D x t = (x, [], True)"
  by (simp add: serve_text.simps)

text \<open>What a read of the socket delivers: nothing yet, or at least one byte and no more than fit.\<close>

datatype net_event = Again | Chunk "byte list"

fun event_input :: "net_event \<Rightarrow> io_errno + byte list" where
  "event_input Again = Inl EAGAIN"
| "event_input (Chunk bs) = Inr bs"

fun event_ok :: "net_event \<Rightarrow> bool" where
  "event_ok Again \<longleftrightarrow> True"
| "event_ok (Chunk bs) \<longleftrightarrow> bs \<noteq> [] \<and> length bs < BUFFER_SIZE"

text \<open>The text of a chunk ends at its first zero byte, as it is handled as a string.\<close>

fun event_text :: "net_event \<Rightarrow> byte list" where
  "event_text Again = []"
| "event_text (Chunk bs) = takeWhile (\<lambda>c. c \<noteq> 0) bs"

text \<open>A whole connection: it ends when the input ends or when a seek is not accepted.\<close>

fun serve_events :: "'d store \<Rightarrow> 'd \<times> nat \<Rightarrow> net_event list \<Rightarrow> ('d \<times> nat) \<times> byte list" where
  "serve_events D x [] = (x, [])"
| "serve_events D x (e # es) =
     (case serve_text D x (event_text e) of
        (y, r, ok) \<Rightarrow>
          if ok then (case serve_events D y es of (z, rs) \<Rightarrow> (z, r @ rs)) else (y, r))"

lemma text_in_buffer: "\<exists>junk'. bs @ 0 # junk = event_text (Chunk bs) @ 0 # junk'"
  by (induction bs) auto

lemma event_text_props: "0 \<notin> set (event_text e)" "event_ok e \<Longrightarrow> length (event_text e) \<le> 1023"
  by (cases e; auto simp: BUFFER_SIZE_def dest: set_takeWhileD intro: le_trans [OF length_takeWhile_le])+

lemma line_of_split:
  assumes "newline \<in> set t"
  shows "t = line_of t @ drop (length (line_of t)) t" "cmd_ok (line_of t)" "set (line_of t) \<subseteq> set t"
proof -
  obtain u v where "t = u @ newline # v" "newline \<notin> set u" using split_list_first [OF assms] by blast
  then have "line_of t = u @ [newline]" "t = u @ newline # v" by (auto simp: line_of_def takeWhile_tail)
  then show "t = line_of t @ drop (length (line_of t)) t" "cmd_ok (line_of t)" "set (line_of t) \<subseteq> set t"
    using \<open>newline \<notin> set u\<close> by (auto simp: cmd_ok_def)
qed

section \<open>Lines\<close>

text \<open>
  The lines of a well-behaved client: data, or a seek command in decimal. For them the specification
  needs no position; \<open>serve_lines\<close> is what they do, and \<open>serve_text_lines\<close> below relates it to the text.
\<close>

datatype client_line = Data "byte list" | Seek nat nat

fun line_bytes :: "client_line \<Rightarrow> byte list" where
  "line_bytes (Data l) = l"
| "line_bytes (Seek n off) = seek_prefix @ [58] @ dec_digits n @ [44] @ dec_digits off @ [newline]"

fun line_ok :: "client_line \<Rightarrow> bool" where
  "line_ok (Data l) \<longleftrightarrow> cmd_ok l \<and> 0 \<notin> set l \<and> take 18 l \<noteq> seek_prefix"
| "line_ok (Seek n off) \<longleftrightarrow> n < 2 ^ 32 \<and> off < 2 ^ 32"

fun serve_lines :: "'d store \<Rightarrow> 'd \<Rightarrow> client_line list \<Rightarrow> 'd \<times> byte list \<times> bool" where
  "serve_lines D d [] = (d, [], True)"
| "serve_lines D d (Data l # ls) =
     (let d' = st_put D d l in case serve_lines D d' ls of (e, r, ok) \<Rightarrow> (e, st_data D d' @ r, ok))"
| "serve_lines D d (Seek n off # ls) =
     (case st_seek D d n off of
        None \<Rightarrow> (d, [], False)
      | Some q \<Rightarrow> (case serve_lines D d ls of (e, r, ok) \<Rightarrow> (e, drop q (st_data D d) @ r, ok)))"

lemma seek_prefix_eq: "seek_prefix = [65, 69, 83, 68, 67, 72, 65, 82, 95, 73, 79, 67, 83, 69, 69, 75, 84, 79]"
  by (simp add: seek_prefix_def bytes_of_def)

lemma seek_prefix_props: "length seek_prefix = 18" "newline \<notin> set seek_prefix" "0 \<notin> set seek_prefix"
  by (simp_all add: seek_prefix_eq newline_def)

lemma cmd_ok_iff: "cmd_ok l \<longleftrightarrow> (\<exists>b. l = b @ [newline] \<and> newline \<notin> set b)"
  by (cases l rule: rev_cases) (auto simp: cmd_ok_def)

text \<open>
  Cutting the comparison to the length of the line does not matter: the line ends with a newline,
  which the command word does not have.
\<close>

lemma seek_test:
  assumes "cmd_ok l"
  shows "strncmp_eq (l @ t) seek_prefix (min (length l) 18) \<longleftrightarrow> take 18 l = seek_prefix"
proof -
  have "take (length l) l \<noteq> take (length l) seek_prefix" if "length l \<le> 18"
  proof
    assume "take (length l) l = take (length l) seek_prefix"
    then have "set l \<subseteq> set seek_prefix" by (metis order.refl set_take_subset take_all)
    then show False using assms seek_prefix_props(2) by (auto simp: cmd_ok_iff)
  qed
  moreover have "take 18 l \<noteq> seek_prefix" if "length l < 18" using that seek_prefix_props(1) by auto
  ultimately show ?thesis
    using seek_prefix_props(1) unfolding strncmp_eq_take
    by (cases "length l \<le> 18") (auto simp: min_def)
qed

lemma takeWhile_cmd: "cmd_ok l \<Longrightarrow> takeWhile (\<lambda>x. x \<noteq> newline) (l @ t) = butlast l"
  by (auto simp: cmd_ok_iff takeWhile_tail takeWhile_eq_all_conv)

lemma dec_digits_no: "0 \<notin> set (dec_digits n)" "newline \<notin> set (dec_digits n)"
  using dec_digits_props [of n] digit_not(4,5) [of 0] digit_not(4,5) [of newline] by (auto simp: newline_def)

lemma seek_line_cmd_ok: "cmd_ok (line_bytes (Seek n off))" "0 \<notin> set (line_bytes (Seek n off))"
proof -
  have "newline \<notin> set (seek_prefix @ [58] @ dec_digits n @ [44] @ dec_digits off)"
    using seek_prefix_props(2) dec_digits_no [of n] dec_digits_no [of off] by (auto simp: newline_def)
  then show "cmd_ok (line_bytes (Seek n off))" unfolding cmd_ok_iff
    by (intro exI [of _ "seek_prefix @ [58] @ dec_digits n @ [44] @ dec_digits off"]) simp
  show "0 \<notin> set (line_bytes (Seek n off))"
    using seek_prefix_props(3) dec_digits_no [of n] dec_digits_no [of off] by (auto simp: newline_def)
qed

lemma line_ok_cmd_ok: "line_ok l \<Longrightarrow> cmd_ok (line_bytes l) \<and> 0 \<notin> set (line_bytes l)"
  using seek_line_cmd_ok by (cases l) auto

lemma parse_seek_line:
  assumes "n < 2 ^ 32" "off < 2 ^ 32"
  shows "sscanf_lit_d_d (seek_prefix @ [58]) (line_bytes (Seek n off) @ t) =
    (2, Some (of_nat n), Some (of_nat off))"
proof -
  have "scan_lit (seek_prefix @ [58]) (line_bytes (Seek n off) @ t) =
      Some (dec_digits n @ 44 # dec_digits off @ newline # t)"
    by (simp add: scan_lit_def seek_prefix_props)
  moreover have "scan_long (dec_digits n @ 44 # dec_digits off @ newline # t) = Some (int n, 44 # dec_digits off @ newline # t)"
    using assms by (intro scan_long_digits) (auto simp: isdigit_def word_le_nat_alt)
  moreover have "scan_long (dec_digits off @ newline # t) = Some (int off, newline # t)"
    using assms by (intro scan_long_digits) (auto simp: isdigit_def newline_def word_le_nat_alt)
  ultimately show ?thesis by (simp add: sscanf_lit_d_d_def scan_lit_def)
qed

lemma line_of_cmd: "cmd_ok l \<Longrightarrow> line_of (l @ t) = l"
  by (auto simp: line_of_def takeWhile_cmd cmd_ok_iff)

lemma serve_text_cmd:
  assumes "cmd_ok l"
  shows "serve_text D x (l @ t) = (case serve_line D x (l @ t) of None \<Rightarrow> (x, [], False)
    | Some (y, r) \<Rightarrow> (case serve_text D y t of (z, rs, ok) \<Rightarrow> (z, r @ rs, ok)))"
proof -
  have n: "newline \<in> set (l @ t)" using assms by (auto simp: cmd_ok_iff)
  have d: "drop (length (line_of (l @ t))) (l @ t) = t" using line_of_cmd [OF assms, of t] by simp
  show ?thesis unfolding serve_text.simps [of D x "l @ t"] d using n by simp
qed

lemma serve_line_Data:
  assumes "line_ok (Data l)"
  shows "serve_line D x (l @ t) = Some ((st_put D (fst x) l, length (st_data D (st_put D (fst x) l))), st_data D (st_put D (fst x) l))"
  using assms line_of_cmd [of l t] by (simp add: serve_line_def Let_def)

lemma serve_line_Seek:
  assumes "line_ok (Seek n off)"
  shows "serve_line D x (line_bytes (Seek n off) @ t) =
    map_option (\<lambda>q. ((fst x, length (st_data D (fst x))), drop q (st_data D (fst x)))) (st_seek D (fst x) n off)"
proof -
  have ab: "n < 2 ^ 32" "off < 2 ^ 32" using assms by simp_all
  have "scan_seek (line_bytes (Seek n off) @ t) = Some (of_nat n, of_nat off)"
    using parse_seek_line [OF ab, of t] by (simp add: scan_seek_def)
  moreover have "take 18 (line_of (line_bytes (Seek n off) @ t)) = seek_prefix"
    using line_of_cmd [OF seek_line_cmd_ok(1), of n off t] seek_prefix_props(1) by simp
  moreover have "unat (of_nat n :: u32) = n" "unat (of_nat off :: u32) = off" using ab by (simp_all add: unat_of_nat_lt)
  ultimately show ?thesis by (simp add: serve_line_def Let_def del: line_bytes.simps)
qed

lemma serve_text_lines:
  assumes "\<forall>l\<in>set ls. line_ok l" "newline \<notin> set tail" "serve_lines D (fst x) ls = (d, r, ok)"
  shows "\<exists>q. serve_text D x (concat (map line_bytes ls) @ tail) = ((d, q), r, ok)"
  using assms(1,3)
proof (induction ls arbitrary: x r)
  case Nil
  then show ?case using serve_text_stop [OF assms(2), of D x] by (metis append_Nil concat.simps(1) list.map(1) prod.collapse
      serve_lines.simps(1) fst_conv snd_conv)
next
  case (Cons l ls)
  let ?t = "concat (map line_bytes ls) @ tail"
  have l: "line_ok l" "cmd_ok (line_bytes l)" using Cons.prems(1) line_ok_cmd_ok by auto
  note run = serve_text_cmd [OF l(2), of D x ?t]
  show ?case
  proof (cases l)
    case (Data b)
    let ?d = "st_put D (fst x) b"
    obtain rs where rs: "serve_lines D ?d ls = (d, rs, ok)" "r = st_data D ?d @ rs"
      using Cons.prems(2) Data by (auto simp: Let_def split: prod.splits)
    then show ?thesis
      using Cons.IH [of "(?d, length (st_data D ?d))" rs] Cons.prems(1) run serve_line_Data [of b D x ?t] l(1) Data by auto
  next
    case (Seek n off)
    note sk = serve_line_Seek [of n off D x ?t]
    show ?thesis
    proof (cases "st_seek D (fst x) n off")
      case None
      then show ?thesis using run sk l(1) Seek Cons.prems(2) by (cases x) auto
    next
      case (Some q)
      then obtain rs where rs: "serve_lines D (fst x) ls = (d, rs, ok)" "r = drop q (st_data D (fst x)) @ rs"
        using Cons.prems(2) Seek by (auto split: prod.splits)
      then show ?thesis
        using Cons.IH [of "(fst x, length (st_data D (fst x)))" rs] Cons.prems(1) run sk l(1) Seek Some by auto
    qed
  qed
qed

lemma lines_no_zero: "\<forall>l\<in>set ls. line_ok l \<Longrightarrow> 0 \<notin> set (concat (map line_bytes ls))"
  by (induction ls) (auto dest: line_ok_cmd_ok)

text \<open>A chunk that consists of such lines and an unfinished one.\<close>

definition lines_event :: "client_line list \<Rightarrow> byte list \<Rightarrow> net_event" where
  "lines_event ls tail = Chunk (concat (map line_bytes ls) @ tail)"

lemma serve_lines_event:
  assumes "\<forall>l\<in>set ls. line_ok l" "0 \<notin> set tail" "newline \<notin> set tail" "serve_lines D (fst x) ls = (d, r, ok)"
  shows "\<exists>q. serve_text D x (event_text (lines_event ls tail)) = ((d, q), r, ok)"
proof -
  have "event_text (lines_event ls tail) = concat (map line_bytes ls) @ tail"
    using lines_no_zero [OF assms(1)] assms(2) unfolding lines_event_def by (simp add: takeWhile_eq_all_conv) auto
  then show ?thesis using serve_text_lines [OF assms(1,3,4)] by simp
qed

lemma store_chunk_eq:
  "length bs < length buf \<Longrightarrow> store_chunk buf bs = Inr (bs @ 0 # drop (Suc (length bs)) buf)"
  by (simp add: store_chunk_def Let_def list_update_append Cons_nth_drop_Suc [symmetric])

end
