(* ===== verification/Socket_Contract.thy ===== *)
theory Socket_Contract
  imports Socket_Spec
begin

text \<open>
  What the threads of the server rely on. A \<open>store\<close> (theory \<open>Socket_Spec\<close>) is the abstract behaviour of the
  file the server keeps its lines in, whichever build of the server it is; the interface \<open>line_device\<close> says that the
  system calls of a thread behave as such a store, together with a socket that takes at least one
  byte of every write and locks that can be taken. The lemmas show that the handler does exactly what
  \<open>serve_text\<close> says, for a
  line, for a chunk of input, for a round of its loop and for a whole connection, and what a round
  of the timer does. \<open>Socket_Device\<close> and \<open>Socket_File\<close> provide the two stores of the program.
\<close>

section \<open>Interfaces\<close>

text \<open>
  A socket that takes at least one byte of every write; \<open>sends bs u w\<close> says that from \<open>u\<close> to \<open>w\<close> the
  bytes \<open>bs\<close> were sent and nothing else happened. Writing a buffer to it sends all of it.
\<close>

locale socket_out =
  fixes io :: "'w io" and conn_fd :: int and good :: "'w \<Rightarrow> bool" and sends :: "byte list \<Rightarrow> 'w \<Rightarrow> 'w \<Rightarrow> bool"
  assumes sends_nothing: "sends [] w w"
    and sends_append: "sends xs u v \<Longrightarrow> sends ys v w \<Longrightarrow> sends (xs @ ys) u w"
    and write_some: "good w \<Longrightarrow> bs \<noteq> [] \<Longrightarrow>
      \<exists>w' n. io_write io conn_fd bs w = Some (Inr (Inr n, w')) \<and> 0 < n \<and> n \<le> length bs \<and> good w' \<and> sends (take n bs) w w'"
begin

lemma write_buffer_sends:
  assumes "good w"
  shows "\<exists>w'. write_buffer io conn_fd bs w = Some (Inr (True, w')) \<and> good w' \<and> sends bs w w'"
proof -
  let ?b = "\<lambda>(k, w). if k < length bs
       then rbind (io_write io conn_fd (drop k bs) w) (\<lambda>(ret, w').
              case ret of Inl _ \<Rightarrow> Some (Inr (Inr (False, w'))) | Inr n \<Rightarrow> Some (Inr (Inl (k + n, w'))))
       else Some (Inr (Inr (True, w)))"
  have "\<exists>w'. run_iter ?b (k, u) = Some (Inr (True, w')) \<and> good w' \<and> sends (drop k bs) u w'"
    if "good u" "k \<le> length bs" for k u
    using that
  proof (induction "length bs - k" arbitrary: k u rule: less_induct)
    case less
    show ?case
    proof (cases "k < length bs")
      case False
      then have "run_iter ?b (k, u) = Some (Inr (True, u))" by (intro run_iter_step) simp
      then show ?thesis using False less.prems sends_nothing by simp
    next
      case True
      then have ne: "drop k bs \<noteq> []" by simp
      obtain u' n where u': "io_write io conn_fd (drop k bs) u = Some (Inr (Inr n, u'))" "0 < n"
          "n \<le> length (drop k bs)" "good u'" "sends (take n (drop k bs)) u u'"
        using write_some [OF less.prems(1) ne] by blast
      have step: "run_iter ?b (k, u) = run_iter ?b (k + n, u')" using True u'(1) by (intro run_iter_step) simp
      have lt: "length bs - (k + n) < length bs - k" "k + n \<le> length bs" using u'(2,3) True by auto
      obtain w' where w': "run_iter ?b (k + n, u') = Some (Inr (True, w'))" "good w'" "sends (drop (k + n) bs) u' w'"
        using less.hyps [of "k + n" u'] lt u'(4) by blast
      have "take n (drop k bs) @ drop (k + n) bs = drop k bs"
        by (metis append_take_drop_id drop_drop add.commute)
      then show ?thesis using step w' sends_append [OF u'(5) w'(3)] by simp
    qed
  qed
  from this [of w 0] assms show ?thesis unfolding write_buffer_def by simp
qed

end

text \<open>
  The laws of a store: reads deliver its contents in order, a seek stays within them, and behind the
  last byte the next line may be written.
\<close>

locale line_store =
  fixes D :: "'d store"
  assumes part_empty: "st_part D d p n = [] \<longleftrightarrow> length (st_data D d) \<le> p \<or> n = 0"
    and part_drop: "st_part D d p n @ drop (p + length (st_part D d p n)) (st_data D d) = drop p (st_data D d)"
    and seek_le: "st_seek D d a b = Some q \<Longrightarrow> q \<le> length (st_data D d)"
    and ready_end: "st_ready D d p \<Longrightarrow> st_ready D d (length (st_data D d))"
    and ready_put: "st_ready D d p \<Longrightarrow> cmd_ok l \<Longrightarrow> st_ready D (st_put D d l) (length (st_data D (st_put D d l)))"
    and ready_next: "st_ready D d p \<Longrightarrow> cmd_ok l \<Longrightarrow> st_ready D (st_put D d l) (st_next D p l)"
begin

lemma part_le:
  assumes "p \<le> length (st_data D d)"
  shows "p + length (st_part D d p n) \<le> length (st_data D d)"
  using arg_cong [OF part_drop [of d p n], of length] assms by simp

end

locale line_device = line_store D
  for D :: "'d store" +
  fixes io :: "'w io" and file_fd conn_fd :: int
    and good :: "'w \<Rightarrow> bool" and view :: "'w \<Rightarrow> ('d, 'o) client_view"
  assumes write_file: "good w \<Longrightarrow> st_ready D (v_dev (view w)) (v_pos (view w)) \<Longrightarrow> cmd_ok bs \<Longrightarrow> length bs \<le> 1023 \<Longrightarrow>
      \<exists>w'. io_write io file_fd bs w = Some (Inr (Inr (length bs), w')) \<and> good w' \<and>
        view w' = (view w)\<lparr>v_dev := st_put D (v_dev (view w)) bs, v_pos := st_next D (v_pos (view w)) bs\<rparr>"
    and sync_file: "good w \<Longrightarrow> \<exists>w'. io_fdatasync io file_fd w = Some (Inr w') \<and> good w' \<and> view w' = view w"
    and rewind_file: "good w \<Longrightarrow>
      \<exists>w'. io_rewind io file_fd w = Some (Inr w') \<and> good w' \<and> view w' = (view w)\<lparr>v_pos := 0\<rparr>"
    and read_file: "good w \<Longrightarrow> n \<le> 1024 \<Longrightarrow>
      \<exists>w'. io_read io file_fd n w = Some (Inr (Inr (st_part D (v_dev (view w)) (v_pos (view w)) n), w')) \<and> good w' \<and>
        view w' = (view w)\<lparr>v_pos := v_pos (view w) + length (st_part D (v_dev (view w)) (v_pos (view w)) n)\<rparr>"
    and seek_file: "good w \<Longrightarrow>
      \<exists>w'. io_ioctl io file_fd \<lparr>write_cmd = a, write_cmd_offset = b\<rparr> w =
          Some (Inr (st_seek D (v_dev (view w)) (unat a) (unat b) \<noteq> None, w')) \<and> good w' \<and>
        view w' = (case st_seek D (v_dev (view w)) (unat a) (unat b) of
                     None \<Rightarrow> view w | Some q \<Rightarrow> (view w)\<lparr>v_pos := q\<rparr>)"
    and write_sock: "good w \<Longrightarrow> bs \<noteq> [] \<Longrightarrow>
      \<exists>w' n. io_write io conn_fd bs w = Some (Inr (Inr n, w')) \<and> 0 < n \<and> n \<le> length bs \<and> good w' \<and>
        view w' = (view w)\<lparr>v_sent := v_sent (view w) @ take n bs\<rparr>"
    and read_sock: "good w \<Longrightarrow>
      \<exists>w'. io_read io conn_fd n w = Some (Inr (case v_input (view w) of [] \<Rightarrow> Inr [] | x # _ \<Rightarrow> x, w')) \<and> good w' \<and>
        view w' = (view w)\<lparr>v_input := tl (v_input (view w))\<rparr>"
    and lock_file: "good w \<Longrightarrow> \<not> v_lock (view w) \<Longrightarrow>
      \<exists>w'. io_lock io w = Some (Inr (False, w')) \<and> good w' \<and> view w' = (view w)\<lparr>v_lock := True\<rparr>"
    and unlock_file: "good w \<Longrightarrow>
      \<exists>w'. io_unlock io w = Some (Inr (False, w')) \<and> good w' \<and> view w' = (view w)\<lparr>v_lock := False\<rparr>"
    and close_sock: "good w \<Longrightarrow>
      \<exists>w'. io_close io conn_fd w = Some (Inr w') \<and> good w' \<and> view w' = (view w)\<lparr>v_open := False\<rparr>"
    and sleep: "good w \<Longrightarrow> \<exists>w'. io_usleep io n w = Some (Inr w') \<and> good w' \<and> view w' = view w"
    and running: "good w \<Longrightarrow> \<not> io_should_exit io w"

text \<open>The file and socket of the handler include such a socket.\<close>

sublocale line_device \<subseteq> sock: socket_out io conn_fd good "\<lambda>bs u w. view w = (view u)\<lparr>v_sent := v_sent (view u) @ bs\<rparr>"
  using write_sock by unfold_locales auto

lemma write_buffer_once:
  assumes "bs \<noteq> []" "io_write io fd bs w = Some (Inr (Inr (length bs), w'))"
  shows "write_buffer io fd bs w = Some (Inr (True, w'))"
  unfolding write_buffer_def using assms
  by (subst run_iter_step(3) [of _ _ "(length bs, w')"]) (simp_all add: run_iter_step(4))

text \<open>A line of the buffer: \<open>pre\<close> was handled before, the text \<open>t\<close> starts with the line.\<close>

lemma buffer_line:
  fixes pre t junk :: "byte list"
  assumes t: "newline \<in> set t" "0 \<notin> set t"
  defines "buf \<equiv> pre @ t @ 0 # junk" and "l \<equiv> line_of t"
  shows "length pre + length l - 1 - length pre + 1 = length l"
    "is_seek_line buf (length pre) (length l) = Inr (take 18 l = seek_prefix)"
    "parse_seek buf (length pre) = Inr (map_option (\<lambda>(a, b). \<lparr>write_cmd = a, write_cmd_offset = b\<rparr>) (scan_seek t))"
    "take (length l) (drop (length pre) buf) = l"
    "0 \<notin> set pre \<Longrightarrow> strchr buf (length pre) newline = Inr (Some (length pre + length l - 1))"
proof -
  note ls = line_of_split [OF t(1), folded l_def]
  have s: "cstr (drop (length pre) buf) = Inr t" using t(2) by (simp add: buf_def cstr_terminated)
  show "length pre + length l - 1 - length pre + 1 = length l" by (simp add: l_def line_of_def)
  show "is_seek_line buf (length pre) (length l) = Inr (take 18 l = seek_prefix)"
    using seek_test [OF ls(2), of "drop (length l) t"] ls(1) unfolding is_seek_line_def s by simp
  show "parse_seek buf (length pre) = Inr (map_option (\<lambda>(a, b). \<lparr>write_cmd = a, write_cmd_offset = b\<rparr>) (scan_seek t))"
    unfolding parse_seek_def s by (simp add: scan_seek_def split: prod.split option.split)
  show "take (length l) (drop (length pre) buf) = l" using ls(1) unfolding buf_def by (metis append_eq_conv_conj append_assoc)
  show "strchr buf (length pre) newline = Inr (Some (length pre + length l - 1))" if "0 \<notin> set pre"
    using strchr_terminated [of "pre @ t" "length pre" junk newline] that t by (simp add: buf_def l_def line_of_def)
qed

context line_device
begin

text \<open>The copy loop ends and has sent everything from the position on.\<close>

lemma send_file_all:
  assumes "good w"
  shows "\<exists>w'. send_file io file_fd conn_fd w = Some (Inr (True, w')) \<and> good w' \<and>
    view w' = (view w)\<lparr>v_sent := v_sent (view w) @ drop (v_pos (view w)) (st_data D (v_dev (view w))),
       v_pos := max (v_pos (view w)) (length (st_data D (v_dev (view w))))\<rparr>"
  using assms
proof (induction "length (st_data D (v_dev (view w))) - v_pos (view w)" arbitrary: w rule: less_induct)
  case less
  let ?d = "v_dev (view w)" and ?p = "v_pos (view w)"
  let ?bs = "st_part D ?d ?p 1024"
  obtain w1 where w1: "io_read io file_fd BUFFER_SIZE w = Some (Inr (Inr ?bs, w1))" "good w1"
      "view w1 = (view w)\<lparr>v_pos := ?p + length ?bs\<rparr>"
    using read_file [OF less.prems, of 1024] by (auto simp: BUFFER_SIZE_def)
  show ?case
  proof (cases "?p < length (st_data D ?d)")
    case False
    then have e: "?bs = []" by (simp add: part_empty)
    then have "send_file io file_fd conn_fd w = Some (Inr (True, w1))"
      unfolding send_file_def using w1(1) by (intro run_iter_step) simp
    then show ?thesis using w1 e False by (intro exI [of _ w1]) (simp add: max_absorb1)
  next
    case True
    have ne: "?bs \<noteq> []" using True by (simp add: part_empty)
    obtain w2 where w2: "write_buffer io conn_fd ?bs w1 = Some (Inr (True, w2))" "good w2"
        "view w2 = (view w1)\<lparr>v_sent := v_sent (view w1) @ ?bs\<rparr>"
      using sock.write_buffer_sends [OF w1(2)] by blast
    have step: "send_file io file_fd conn_fd w = send_file io file_fd conn_fd w2"
      unfolding send_file_def using w1(1) w2(1) ne by (intro run_iter_step) simp
    have v: "v_dev (view w2) = ?d" "v_pos (view w2) = ?p + length ?bs" "v_sent (view w2) = v_sent (view w) @ ?bs"
      using w1(3) w2(3) by simp_all
    have "length (st_data D (v_dev (view w2))) - v_pos (view w2) < length (st_data D ?d) - ?p"
      using ne True unfolding v by (simp add: diff_less_mono2)
    then obtain w' where w': "send_file io file_fd conn_fd w2 = Some (Inr (True, w'))" "good w'"
      "view w' = (view w2)\<lparr>v_sent := v_sent (view w2) @ drop (v_pos (view w2)) (st_data D (v_dev (view w2))),
         v_pos := max (v_pos (view w2)) (length (st_data D (v_dev (view w2))))\<rparr>"
      using less.hyps w2(2) by blast
    have m: "max (?p + length ?bs) (length (st_data D ?d)) = max ?p (length (st_data D ?d))"
      using part_le [of ?p ?d 1024] True by simp
    have "view w' = (view w)\<lparr>v_sent := v_sent (view w) @ drop ?p (st_data D ?d), v_pos := max ?p (length (st_data D ?d))\<rparr>"
      unfolding w'(3) v append_assoc part_drop m using w1(3) w2(3) by simp
    with w'(1,2) step show ?thesis by (intro exI [of _ w']) simp
  qed
qed

lemma send_or_hang_up_all:
  assumes "good w"
  shows "\<exists>w'. send_or_hang_up io file_fd conn_fd w = Some (Inr (Next_Line, w')) \<and> good w' \<and>
    view w' = (view w)\<lparr>v_sent := v_sent (view w) @ drop (v_pos (view w)) (st_data D (v_dev (view w))),
       v_pos := max (v_pos (view w)) (length (st_data D (v_dev (view w))))\<rparr>"
  using send_file_all [OF assms] by (auto simp: send_or_hang_up_def)

text \<open>One line: data, then a seek command, with or without numbers.\<close>

lemma handle_data_line:
  assumes g: "good w" "st_ready D (v_dev (view w)) (v_pos (view w))" and t: "newline \<in> set t" "0 \<notin> set t"
    and l: "take 18 (line_of t) \<noteq> seek_prefix" "length (line_of t) \<le> 1023"
  defines "d \<equiv> st_put D (v_dev (view w)) (line_of t)"
  shows "\<exists>w'. handle_line io file_fd conn_fd (pre @ t @ 0 # junk) (length pre) (length pre + length (line_of t) - 1) w =
      Some (Inr (Next_Line, w')) \<and> good w' \<and>
    view w' = (view w)\<lparr>v_dev := d, v_sent := v_sent (view w) @ st_data D d, v_pos := length (st_data D d)\<rparr>"
proof -
  note b = buffer_line [OF t] and ls = line_of_split [OF t(1)]
  have ne: "line_of t \<noteq> []" by (simp add: line_of_def)
  obtain w1 where w1: "io_write io file_fd (line_of t) w = Some (Inr (Inr (length (line_of t)), w1))" "good w1"
      "view w1 = (view w)\<lparr>v_dev := d, v_pos := st_next D (v_pos (view w)) (line_of t)\<rparr>"
    using write_file [OF g ls(2) l(2)] unfolding d_def by blast
  obtain w2 where w2: "io_fdatasync io file_fd w1 = Some (Inr w2)" "good w2" "view w2 = view w1"
    using sync_file [OF w1(2)] by blast
  obtain w3 where w3: "io_rewind io file_fd w2 = Some (Inr w3)" "good w3" "view w3 = (view w2)\<lparr>v_pos := 0\<rparr>"
    using rewind_file [OF w2(2)] by blast
  have v: "v_dev (view w3) = d" "v_pos (view w3) = 0" "v_sent (view w3) = v_sent (view w)"
    using w1(3) w2(3) w3(3) by simp_all
  obtain w4 where w4: "send_or_hang_up io file_fd conn_fd w3 = Some (Inr (Next_Line, w4))" "good w4"
    "view w4 = (view w3)\<lparr>v_sent := v_sent (view w) @ st_data D d, v_pos := length (st_data D d)\<rparr>"
    using send_or_hang_up_all [OF w3(2)] unfolding v by auto
  have "handle_line io file_fd conn_fd (pre @ t @ 0 # junk) (length pre) (length pre + length (line_of t) - 1) w =
      Some (Inr (Next_Line, w4))"
    unfolding handle_line_def Let_def b(1,2,4) using l(1) write_buffer_once [OF ne w1(1)] w2(1) w3(1) w4(1) by simp
  then show ?thesis using w4(2,3) w3(3) w2(3) w1(3) by (intro exI [of _ w4]) simp
qed

lemma handle_seek_line:
  assumes g: "good w" and t: "newline \<in> set t" "0 \<notin> set t" "take 18 (line_of t) = seek_prefix" "scan_seek t = Some (a, b)"
  defines "d \<equiv> v_dev (view w)"
  shows "\<exists>e w'. handle_line io file_fd conn_fd (pre @ t @ 0 # junk) (length pre) (length pre + length (line_of t) - 1) w =
      Some (Inr (e, w')) \<and> good w' \<and>
    (case st_seek D d (unat a) (unat b) of
       None \<Rightarrow> e = Hang_Up \<and> view w' = (view w)\<lparr>v_lock := False, v_open := False\<rparr>
     | Some q \<Rightarrow> e = Next_Line \<and>
         view w' = (view w)\<lparr>v_sent := v_sent (view w) @ drop q (st_data D d), v_pos := length (st_data D d)\<rparr>)"
proof -
  let ?r = "\<lparr>write_cmd = a, write_cmd_offset = b\<rparr>" and ?q = "st_seek D d (unat a) (unat b)"
  note b = buffer_line [OF t(1,2)]
  have arg: "parse_seek (pre @ t @ 0 # junk) (length pre) = Inr (Some ?r)" using b(3) t(4) by simp
  obtain w1 where w1: "io_ioctl io file_fd ?r w = Some (Inr (?q \<noteq> None, w1))" "good w1"
      "view w1 = (case ?q of None \<Rightarrow> view w | Some q \<Rightarrow> (view w)\<lparr>v_pos := q\<rparr>)"
    using seek_file [OF g] unfolding d_def by blast
  note run = handle_line_def Let_def b(1,2) t(3)
  show ?thesis
  proof (cases ?q)
    case None
    obtain w2 where w2: "io_unlock io w1 = Some (Inr (False, w2))" "good w2" "view w2 = (view w1)\<lparr>v_lock := False\<rparr>"
      using unlock_file [OF w1(2)] by blast
    obtain w3 where w3: "io_close io conn_fd w2 = Some (Inr w3)" "good w3" "view w3 = (view w2)\<lparr>v_open := False\<rparr>"
      using close_sock [OF w2(2)] by blast
    show ?thesis unfolding run using None w2 w3 w1(3) by (simp add: arg w1(1))
  next
    case (Some q)
    then have v: "v_dev (view w1) = d" "v_pos (view w1) = q" "v_sent (view w1) = v_sent (view w)"
      using w1(3) by (simp_all add: d_def)
    obtain w2 where w2: "send_or_hang_up io file_fd conn_fd w1 = Some (Inr (Next_Line, w2))" "good w2"
      "view w2 = (view w1)\<lparr>v_sent := v_sent (view w) @ drop q (st_data D d), v_pos := length (st_data D d)\<rparr>"
      using send_or_hang_up_all [OF w1(2)] seek_le [OF Some] unfolding v by (auto simp: max_absorb2)
    show ?thesis unfolding run using Some w2 w1(3) by (simp add: arg w1(1))
  qed
qed

lemma handle_cut_seek_line:
  assumes g: "good w" and t: "newline \<in> set t" "0 \<notin> set t" "take 18 (line_of t) = seek_prefix" "scan_seek t = None"
  defines "d \<equiv> v_dev (view w)" and "p \<equiv> v_pos (view w)"
  shows "\<exists>w'. handle_line io file_fd conn_fd (pre @ t @ 0 # junk) (length pre) (length pre + length (line_of t) - 1) w =
      Some (Inr (Next_Line, w')) \<and> good w' \<and>
    view w' = (view w)\<lparr>v_sent := v_sent (view w) @ drop p (st_data D d), v_pos := max p (length (st_data D d))\<rparr>"
proof -
  note b = buffer_line [OF t(1,2)]
  have "parse_seek (pre @ t @ 0 # junk) (length pre) = Inr None" using b(3) t(4) by simp
  then show ?thesis
    unfolding handle_line_def Let_def b(1,2) t(3) using send_or_hang_up_all [OF g] by (simp add: d_def p_def)
qed

text \<open>What a line does is what \<open>serve_line\<close> says.\<close>

lemma ready_max: "st_ready D d p \<Longrightarrow> st_ready D d (max p (length (st_data D d)))"
  by (simp add: max_def ready_end)

lemma handle_line_served:
  assumes g: "good w" "st_ready D (v_dev (view w)) (v_pos (view w))" and t: "newline \<in> set t" "0 \<notin> set t"
    and l: "length (line_of t) \<le> 1023"
  shows "\<exists>e w'. handle_line io file_fd conn_fd (pre @ t @ 0 # junk) (length pre) (length pre + length (line_of t) - 1) w =
      Some (Inr (e, w')) \<and> good w' \<and>
    (case serve_line D (v_dev (view w), v_pos (view w)) t of
       None \<Rightarrow> e = Hang_Up \<and> view w' = (view w)\<lparr>v_lock := False, v_open := False\<rparr>
     | Some ((d, p), r) \<Rightarrow> e = Next_Line \<and> st_ready D d p \<and>
         view w' = (view w)\<lparr>v_dev := d, v_sent := v_sent (view w) @ r, v_pos := p\<rparr>)"
proof (cases "take 18 (line_of t) = seek_prefix")
  case False
  then show ?thesis
    using handle_data_line [OF g t False l, of pre junk] ready_put [OF g(2) line_of_split(2) [OF t(1)]]
    by (auto simp: serve_line_def Let_def)
next
  case seek: True
  show ?thesis
  proof (cases "scan_seek t")
    case None
    then show ?thesis
      using handle_cut_seek_line [OF g(1) t seek None, of pre junk] ready_max [OF g(2)] seek
      by (auto simp: serve_line_def Let_def)
  next
    case (Some ab)
    then obtain a b where ab: "scan_seek t = Some (a, b)" by (cases ab) auto
    show ?thesis
      using handle_seek_line [OF g(1) t seek ab, of pre junk] ready_end [OF g(2)] seek ab
      by (cases "st_seek D (v_dev (view w)) (unat a) (unat b)") (auto simp: serve_line_def Let_def)
  qed
qed

text \<open>The lines of a buffer: a round of the loop, and all of them.\<close>

lemma chunk_step_served:
  assumes g: "good w" "st_ready D (v_dev (view w)) (v_pos (view w))" and t: "newline \<in> set t" "0 \<notin> set t" "length t \<le> 1023"
    and pre: "0 \<notin> set pre"
  shows "\<exists>w'. chunk_step io file_fd conn_fd (pre @ t @ 0 # junk) (length pre, w) =
      Some (Inr (if serve_line D (v_dev (view w), v_pos (view w)) t = None then Inr (Hang_Up, w')
                 else Inl (length (pre @ line_of t), w'))) \<and> good w' \<and>
    (case serve_line D (v_dev (view w), v_pos (view w)) t of
       None \<Rightarrow> view w' = (view w)\<lparr>v_lock := False, v_open := False\<rparr>
     | Some ((d, p), r) \<Rightarrow> st_ready D d p \<and> view w' = (view w)\<lparr>v_dev := d, v_sent := v_sent (view w) @ r, v_pos := p\<rparr>)"
proof -
  have len: "length (line_of t) \<le> 1023" "0 < length (line_of t)"
    using arg_cong [OF line_of_split(1) [OF t(1)], of length] t(3) by (simp_all add: line_of_def)
  show ?thesis
    using handle_line_served [OF g t(1,2) len(1), of pre junk] buffer_line(5) [OF t(1,2) pre] len(2)
    by (auto simp: chunk_step_def split: option.splits prod.splits)
qed

lemma handle_chunk_lines:
  assumes "good w" "st_ready D (v_dev (view w)) (v_pos (view w))" "0 \<notin> set pre" "0 \<notin> set t" "length t \<le> 1023"
    and "serve_text D (v_dev (view w), v_pos (view w)) t = ((d, p), r, ok)" and "buf = pre @ t @ 0 # junk"
  shows "\<exists>w'. run_iter (chunk_step io file_fd conn_fd buf) (length pre, w) =
        Some (Inr (if ok then Next_Line else Hang_Up, w')) \<and> good w' \<and> st_ready D d p \<and>
    view w' = (view w)\<lparr>v_dev := d, v_sent := v_sent (view w) @ r, v_pos := p,
       v_lock := ok \<and> v_lock (view w), v_open := ok \<and> v_open (view w)\<rparr>"
  using assms
proof (induction "length t" arbitrary: w pre t r rule: less_induct)
  case less
  let ?b = "chunk_step io file_fd conn_fd buf" and ?x = "(v_dev (view w), v_pos (view w))" and ?l = "line_of t"
  show ?case
  proof (cases "newline \<in> set t")
    case False
    have "strchr buf (length pre) newline = Inr None"
      using strchr_terminated [of "pre @ t" "length pre" junk newline] less.prems(3,4,7) False by simp
    then have "run_iter ?b (length pre, w) = Some (Inr (Next_Line, w))" by (intro run_iter_step) (simp add: chunk_step_def)
    then show ?thesis using less.prems(1,2,6) serve_text_stop [OF False, of D ?x] by (intro exI [of _ w]) auto
  next
    case nl: True
    note ls = line_of_split [OF nl] and st = serve_text.simps [of D ?x t]
    obtain w1 where w1: "?b (length pre, w) = Some (Inr (if serve_line D ?x t = None then Inr (Hang_Up, w1)
          else Inl (length (pre @ ?l), w1)))" "good w1"
      and v1: "case serve_line D ?x t of None \<Rightarrow> view w1 = (view w)\<lparr>v_lock := False, v_open := False\<rparr>
        | Some ((d, p), r) \<Rightarrow> st_ready D d p \<and> view w1 = (view w)\<lparr>v_dev := d, v_sent := v_sent (view w) @ r, v_pos := p\<rparr>"
      using chunk_step_served [OF less.prems(1,2) nl less.prems(4,5,3), of junk] unfolding less.prems(7) by blast
    show ?thesis
    proof (cases "serve_line D ?x t")
      case None
      then have "run_iter ?b (length pre, w) = Some (Inr (Hang_Up, w1))" using w1(1) by (intro run_iter_step) simp
      then show ?thesis using None nl w1(2) v1 less.prems(2,6) st by (intro exI [of _ w1]) auto
    next
      case (Some yr)
      then obtain d1 p1 r1 r2 where s: "serve_line D ?x t = Some ((d1, p1), r1)"
          "serve_text D (d1, p1) (drop (length ?l) t) = ((d, p), r2, ok)" "r = r1 @ r2"
        using less.prems(6) nl st by (auto split: prod.splits)
      have v: "v_dev (view w1) = d1" "v_pos (view w1) = p1" "st_ready D (v_dev (view w1)) (v_pos (view w1))"
        using v1 s(1) by simp_all
      have step: "run_iter ?b (length pre, w) = run_iter ?b (length (pre @ ?l), w1)"
        using w1(1) s(1) by (intro run_iter_step) simp
      have z: "0 \<notin> set (pre @ ?l)" "0 \<notin> set (drop (length ?l) t)" "length (drop (length ?l) t) < length t"
        using less.prems(3,4) ls(3) nl by (auto simp: line_of_def dest: in_set_dropD intro!: diff_less length_pos_if_in_set)
      have b2: "buf = (pre @ ?l) @ drop (length ?l) t @ 0 # junk" using less.prems(7) ls(1) by (metis append_assoc)
      have "\<exists>w'. run_iter ?b (length (pre @ ?l), w1) = Some (Inr (if ok then Next_Line else Hang_Up, w')) \<and> good w' \<and>
          st_ready D d p \<and> view w' = (view w1)\<lparr>v_dev := d, v_sent := v_sent (view w1) @ r2, v_pos := p,
            v_lock := ok \<and> v_lock (view w1), v_open := ok \<and> v_open (view w1)\<rparr>"
        by (rule less.hyps [OF z(3) w1(2) v(3) z(1,2) _ _ b2]) (use less.prems(5) s(2) v in simp_all)
      then show ?thesis using step v1 s by auto
    qed
  qed
qed

lemma handle_chunk_served:
  assumes "good w" "st_ready D (v_dev (view w)) (v_pos (view w))" "event_ok (Chunk bs)"
    and "serve_text D (v_dev (view w), v_pos (view w)) (event_text (Chunk bs)) = ((d, p), r, ok)"
  shows "\<exists>w'. handle_chunk io file_fd conn_fd (bs @ 0 # junk) w = Some (Inr (if ok then Next_Line else Hang_Up, w')) \<and>
    good w' \<and> st_ready D d p \<and> view w' = (view w)\<lparr>v_dev := d, v_sent := v_sent (view w) @ r, v_pos := p,
       v_lock := ok \<and> v_lock (view w), v_open := ok \<and> v_open (view w)\<rparr>"
proof -
  obtain junk' where "bs @ 0 # junk = event_text (Chunk bs) @ 0 # junk'" using text_in_buffer by blast
  then show ?thesis
    using handle_chunk_lines [of w "[]" "event_text (Chunk bs)" d p r ok "bs @ 0 # junk" junk'] assms
      event_text_props [of "Chunk bs"]
    unfolding handle_chunk_def by simp
qed

text \<open>One round of the connection: nothing to read, a chunk, or the end of the input.\<close>

lemma client_step_chunk:
  assumes "good w" "st_ready D (v_dev (view w)) (v_pos (view w))" "\<not> v_lock (view w)"
    and "v_input (view w) = event_input (Chunk bs) # evs" "event_ok (Chunk bs)" "length buf = BUFFER_SIZE"
    and "serve_text D (v_dev (view w), v_pos (view w)) (event_text (Chunk bs)) = ((d, p), r, ok)"
  shows "\<exists>buf' w'. client_step io file_fd conn_fd (buf, w) =
      Some (Inr (if ok then Inl (buf', w') else Inr (Thread_Complete, w'))) \<and> length buf' = BUFFER_SIZE \<and> good w' \<and> st_ready D d p \<and>
    view w' = (view w)\<lparr>v_dev := d, v_pos := p, v_sent := v_sent (view w) @ r, v_input := evs, v_open := ok \<and> v_open (view w)\<rparr>"
proof -
  obtain w1 where w1: "io_read io conn_fd (BUFFER_SIZE - 1) w = Some (Inr (Inr bs, w1))" "good w1"
      "view w1 = (view w)\<lparr>v_input := evs\<rparr>"
    using read_sock [OF assms(1)] assms(4) by fastforce
  obtain w2 where w2: "io_lock io w1 = Some (Inr (False, w2))" "good w2" "view w2 = (view w1)\<lparr>v_lock := True\<rparr>"
    using lock_file [OF w1(2)] w1(3) assms(3) by auto
  define buf' where "buf' = bs @ 0 # drop (Suc (length bs)) buf"
  have lt: "length bs < length buf" and ne: "bs \<noteq> []" using assms(5,6) by auto
  then have st: "store_chunk buf bs = Inr buf'" "length buf' = BUFFER_SIZE"
    using store_chunk_eq [OF lt] assms(6) by (simp_all add: buf'_def)
  have v: "v_dev (view w2) = v_dev (view w)" "v_pos (view w2) = v_pos (view w)" using w1(3) w2(3) by simp_all
  obtain w3 where w3: "handle_chunk io file_fd conn_fd buf' w2 = Some (Inr (if ok then Next_Line else Hang_Up, w3))"
      "good w3" "st_ready D d p" "view w3 = (view w2)\<lparr>v_dev := d, v_sent := v_sent (view w2) @ r, v_pos := p,
         v_lock := ok \<and> v_lock (view w2), v_open := ok \<and> v_open (view w2)\<rparr>"
    using handle_chunk_served [OF w2(2), of bs d p r ok "drop (Suc (length bs)) buf"] assms(2,5,7)
    unfolding buf'_def v by blast
  obtain w4 where w4: "io_unlock io w3 = Some (Inr (False, w4))" "good w4" "view w4 = (view w3)\<lparr>v_lock := False\<rparr>"
    using unlock_file [OF w3(2)] by blast
  let ?w = "if ok then w4 else w3"
  have "client_step io file_fd conn_fd (buf, w) = Some (Inr (if ok then Inl (buf', ?w) else Inr (Thread_Complete, ?w)))"
    using w1(1) w2(1) st(1) w3(1) w4(1) ne running [OF assms(1)] by (auto simp: client_step_def locked_chunk_def)
  moreover have "view ?w = (view w)\<lparr>v_dev := d, v_pos := p, v_sent := v_sent (view w) @ r, v_input := evs,
      v_open := ok \<and> v_open (view w)\<rparr>"
    using w4(3) w3(4) w2(3) w1(3) assms(3) by simp
  ultimately show ?thesis
    using st(2) w4(2) w3(2,3) by (intro exI [of _ buf'] exI [of _ ?w]) simp
qed

lemma client_step_served:
  assumes "good w" "st_ready D (v_dev (view w)) (v_pos (view w))" "\<not> v_lock (view w)"
    and "v_input (view w) = event_input e # evs" "event_ok e" "length buf = BUFFER_SIZE"
    and "serve_text D (v_dev (view w), v_pos (view w)) (event_text e) = ((d, p), r, ok)"
  shows "\<exists>buf' w'. client_step io file_fd conn_fd (buf, w) =
      Some (Inr (if ok then Inl (buf', w') else Inr (Thread_Complete, w'))) \<and> length buf' = BUFFER_SIZE \<and> good w' \<and> st_ready D d p \<and>
    view w' = (view w)\<lparr>v_dev := d, v_pos := p, v_sent := v_sent (view w) @ r, v_input := evs, v_open := ok \<and> v_open (view w)\<rparr>"
proof (cases e)
  case Again
  obtain w1 where w1: "io_read io conn_fd (BUFFER_SIZE - 1) w = Some (Inr (Inl EAGAIN, w1))" "good w1"
      "view w1 = (view w)\<lparr>v_input := evs\<rparr>"
    using read_sock [OF assms(1)] assms(4) Again by fastforce
  obtain w2 where "io_usleep io 1000000 w1 = Some (Inr w2)" "good w2" "view w2 = view w1"
    using sleep [OF w1(2)] by blast
  then show ?thesis
    using w1 running [OF assms(1)] assms(2,6,7) Again
    by (intro exI [of _ buf] exI [of _ w2]) (auto simp: client_step_def serve_text_stop)
next
  case (Chunk bs)
  then show ?thesis using client_step_chunk [OF assms(1-3)] assms(4-7) by simp
qed

lemma client_step_end:
  assumes "good w" "v_input (view w) = []"
  shows "\<exists>w'. client_step io file_fd conn_fd (buf, w) = Some (Inr (Inr (Thread_Complete, w'))) \<and> good w' \<and>
    view w' = (view w)\<lparr>v_open := False\<rparr>"
proof -
  obtain w1 where w1: "io_read io conn_fd (BUFFER_SIZE - 1) w = Some (Inr (Inr [], w1))" "good w1"
      "view w1 = (view w)\<lparr>v_input := []\<rparr>"
    using read_sock [OF assms(1)] assms(2) by fastforce
  obtain w2 where w2: "io_close io conn_fd w1 = Some (Inr w2)" "good w2" "view w2 = (view w1)\<lparr>v_open := False\<rparr>"
    using close_sock [OF w1(2)] by blast
  have "client_step io file_fd conn_fd (buf, w) = Some (Inr (Inr (Thread_Complete, w2)))"
    using w1(1) w2(1) running [OF assms(1)] by (simp add: client_step_def)
  then show ?thesis using w2 w1(3) assms(2) by (intro exI [of _ w2]) (simp add: client_view.equality)
qed

text \<open>A whole connection.\<close>

lemma connection_ok:
  assumes "good w" "st_ready D (v_dev (view w)) (v_pos (view w))" "\<not> v_lock (view w)"
    and "v_input (view w) = map event_input evs" "\<forall>e\<in>set evs. event_ok e" "length buf = BUFFER_SIZE"
    and "serve_events D (v_dev (view w), v_pos (view w)) evs = ((d, p), r)"
  shows "\<exists>w'. run_iter (client_step io file_fd conn_fd) (buf, w) = Some (Inr (Thread_Complete, w')) \<and> good w' \<and>
    v_dev (view w') = d \<and> v_pos (view w') = p \<and> v_sent (view w') = v_sent (view w) @ r \<and>
    \<not> v_lock (view w') \<and> \<not> v_open (view w') \<and> v_rest (view w') = v_rest (view w)"
  using assms
proof (induction evs arbitrary: w buf r)
  case Nil
  then obtain w' where w': "client_step io file_fd conn_fd (buf, w) = Some (Inr (Inr (Thread_Complete, w')))" "good w'"
      "view w' = (view w)\<lparr>v_open := False\<rparr>"
    using client_step_end [OF Nil.prems(1), of buf] by auto
  have "run_iter (client_step io file_fd conn_fd) (buf, w) = Some (Inr (Thread_Complete, w'))"
    using w'(1) by (rule run_iter_step)
  then show ?case using w' Nil.prems by (intro exI [of _ w']) auto
next
  case (Cons e evs)
  obtain d1 p1 r1 ok where s: "serve_text D (v_dev (view w), v_pos (view w)) (event_text e) = ((d1, p1), r1, ok)" by (metis prod.exhaust)
  have ev: "v_input (view w) = event_input e # map event_input evs" "event_ok e" using Cons.prems(4,5) by simp_all
  obtain buf' w1 where w1: "client_step io file_fd conn_fd (buf, w) =
      Some (Inr (if ok then Inl (buf', w1) else Inr (Thread_Complete, w1)))" "length buf' = BUFFER_SIZE" "good w1" "st_ready D d1 p1"
    "view w1 = (view w)\<lparr>v_dev := d1, v_pos := p1, v_sent := v_sent (view w) @ r1, v_input := map event_input evs,
       v_open := ok \<and> v_open (view w)\<rparr>"
    using client_step_served [OF Cons.prems(1-3) ev Cons.prems(6) s] by blast
  show ?case
  proof (cases ok)
    case True
    then obtain r2 where r2: "serve_events D (d1, p1) evs = ((d, p), r2)" "r = r1 @ r2"
      using Cons.prems(7) s by (auto split: prod.splits)
    have step: "run_iter (client_step io file_fd conn_fd) (buf, w) = run_iter (client_step io file_fd conn_fd) (buf', w1)"
      using w1(1) True by (intro run_iter_step) simp
    show ?thesis
      using Cons.IH [of w1 buf' r2] w1(2-5) Cons.prems(3,5) r2 unfolding step by simp
  next
    case False
    then have "run_iter (client_step io file_fd conn_fd) (buf, w) = Some (Inr (Thread_Complete, w1))"
      using w1(1) by (intro run_iter_step) simp
    then show ?thesis using w1(3-5) s False Cons.prems(3,7) by (intro exI [of _ w1]) auto
  qed
qed

text \<open>A round of the timer.\<close>

lemma timer_step_served:
  assumes "good w" "st_ready D (v_dev (view w)) (v_pos (view w))" "\<not> v_lock (view w)" "cmd_ok stamp" "length stamp < 52"
  defines "l \<equiv> timer_preamble @ stamp"
  shows "\<exists>w'. timer_step io file_fd stamp w = Some (Inr (Inl w')) \<and> good w' \<and>
    st_ready D (st_put D (v_dev (view w)) l) (st_next D (v_pos (view w)) l) \<and>
    view w' = (view w)\<lparr>v_dev := st_put D (v_dev (view w)) l, v_pos := st_next D (v_pos (view w)) l\<rparr>"
proof -
  have l: "cmd_ok l" "length l \<le> 1023"
    using assms(4,5) by (auto simp: l_def cmd_ok_iff timer_preamble_def bytes_of_def newline_def)
  obtain w1 where w1: "io_lock io w = Some (Inr (False, w1))" "good w1" "view w1 = (view w)\<lparr>v_lock := True\<rparr>"
    using lock_file [OF assms(1,3)] by blast
  have rd: "st_ready D (v_dev (view w1)) (v_pos (view w1))" using assms(2) w1(3) by simp
  obtain w2 where w2: "io_write io file_fd l w1 = Some (Inr (Inr (length l), w2))" "good w2"
      "view w2 = (view w1)\<lparr>v_dev := st_put D (v_dev (view w1)) l, v_pos := st_next D (v_pos (view w1)) l\<rparr>"
    using write_file [OF w1(2) rd l] by blast
  obtain w3 where w3: "io_unlock io w2 = Some (Inr (False, w3))" "good w3" "view w3 = (view w2)\<lparr>v_lock := False\<rparr>"
    using unlock_file [OF w2(2)] by blast
  obtain w4 where w4: "io_usleep io 10000000 w3 = Some (Inr w4)" "good w4" "view w4 = view w3"
    using sleep [OF w3(2)] by blast
  have "timer_step io file_fd stamp w = Some (Inr (Inl w4))"
    using w1(1) w2(1) w3(1) w4(1) running [OF assms(1)] by (simp add: timer_step_def l_def)
  then show ?thesis
    using w4 w3(3) w2(3) w1(3) assms(3) ready_next [OF assms(2) l(1)] by (intro exI [of _ w4]) simp
qed

end

end
