(* ===== verification/Socket_Host.thy ===== *)
theory Socket_Host
  imports Socket_Contract
begin

text \<open>
  The process in which the threads of \<^verbatim>\<open>server/aesdsocket.c\<close> run: one file with one position, which all
  threads share, a lock for it, and a socket per connection. \<open>host_io\<close> builds the system calls of the
  handler from the operations on the file, and \<open>file_device\<close> is the interface these have to fulfil; the
  sockets are the same for both builds of the server.

  \<open>take_turn\<close> lets one thread do a round of its loop: a connection handler reads its socket and handles
  what it got under the file lock, the timer writes its line under the lock. A thread touches the file
  only while it holds the lock and never touches the socket of another one, so that rounds are the
  steps in which the threads interleave. The lemmas relate every sequence of turns to an abstract
  service, in which a round is one step on the store.
\<close>

section \<open>The host\<close>

record socket =
  s_input :: "(io_errno + byte list) list"
  s_sent :: "byte list"
  s_open :: bool

record 'f world =
  w_file :: 'f
  w_socks :: "int \<Rightarrow> socket"
  w_lock :: bool

record 'f file_ops =
  fo_read :: "nat \<Rightarrow> 'f \<Rightarrow> ((io_errno + byte list) \<times> 'f) run"
  fo_write :: "byte list \<Rightarrow> 'f \<Rightarrow> ((io_errno + nat) \<times> 'f) run"
  fo_ioctl :: "aesd_seekto \<Rightarrow> 'f \<Rightarrow> (bool \<times> 'f) run"
  fo_rewind :: "'f \<Rightarrow> 'f run"

definition FILE_FD :: int where
  "FILE_FD = 3"

definition on_file :: "('r \<times> 'f) run \<Rightarrow> 'f world \<Rightarrow> ('r \<times> 'f world) run" where
  "on_file m w = rbind m (\<lambda>(r, f). Some (Inr (r, w\<lparr>w_file := f\<rparr>)))"

definition on_sock :: "int \<Rightarrow> (socket \<Rightarrow> socket) \<Rightarrow> 'f world \<Rightarrow> 'f world" where
  "on_sock fd g w = w\<lparr>w_socks := (w_socks w)(fd := g (w_socks w fd))\<rparr>"

text \<open>A socket takes at most \<open>Suc chunk\<close> bytes of a write; a read of it delivers its next input.\<close>

definition host_io :: "'f file_ops \<Rightarrow> nat \<Rightarrow> 'f world io" where
  "host_io F chunk =
     \<lparr>io_read = \<lambda>fd n w. if fd = FILE_FD then on_file (fo_read F n (w_file w)) w
        else Some (Inr (case s_input (w_socks w fd) of [] \<Rightarrow> Inr [] | x # _ \<Rightarrow> x,
                        on_sock fd (\<lambda>s. s\<lparr>s_input := tl (s_input s)\<rparr>) w)),
      io_write = \<lambda>fd bs w. if fd = FILE_FD then on_file (fo_write F bs (w_file w)) w
        else let n = min (Suc chunk) (length bs)
             in Some (Inr (Inr n, on_sock fd (\<lambda>s. s\<lparr>s_sent := s_sent s @ take n bs\<rparr>) w)),
      io_ioctl = \<lambda>fd seekto w. on_file (fo_ioctl F seekto (w_file w)) w,
      io_rewind = \<lambda>fd w. rbind (fo_rewind F (w_file w)) (\<lambda>f. Some (Inr (w\<lparr>w_file := f\<rparr>))),
      io_fdatasync = \<lambda>fd w. Some (Inr w),
      io_close = \<lambda>fd w. Some (Inr (on_sock fd (\<lambda>s. s\<lparr>s_open := False\<rparr>) w)),
      io_usleep = \<lambda>n w. Some (Inr w),
      io_lock = \<lambda>w. if w_lock w then Some (Inl Would_Block) else Some (Inr (False, w\<lparr>w_lock := True\<rparr>)),
      io_unlock = \<lambda>w. Some (Inr (False, w\<lparr>w_lock := False\<rparr>)),
      io_should_exit = \<lambda>w. False\<rparr>"

definition no_socket :: socket where
  "no_socket = \<lparr>s_input = [], s_sent = [], s_open = False\<rparr>"

text \<open>The world as the thread of the connection \<open>c\<close> sees it; the rest are the other sockets.\<close>

definition host_view :: "('f \<Rightarrow> 'd) \<Rightarrow> ('f \<Rightarrow> nat) \<Rightarrow> int \<Rightarrow> 'f world \<Rightarrow> ('d, int \<Rightarrow> socket) client_view" where
  "host_view dev pos c w =
     \<lparr>v_dev = dev (w_file w), v_pos = pos (w_file w), v_sent = s_sent (w_socks w c), v_input = s_input (w_socks w c),
      v_lock = w_lock w, v_open = s_open (w_socks w c), v_rest = (w_socks w)(c := no_socket)\<rparr>"

section \<open>Threads that take turns\<close>

record 'w service =
  sv_world :: 'w
  sv_buf :: "int \<Rightarrow> byte list"
  sv_ended :: "int \<Rightarrow> bool"
  sv_timer :: bool
  sv_exit :: "int option"

datatype turn = Client int | Tick "byte list"

definition thread_left :: "thread_end \<Rightarrow> 'w service \<Rightarrow> 'w service \<Rightarrow> 'w service" where
  "thread_left e ended s = (case e of Thread_Complete \<Rightarrow> ended | Process_Exit status \<Rightarrow> s\<lparr>sv_exit := Some status\<rparr>)"

fun take_turn :: "'w io \<Rightarrow> turn \<Rightarrow> 'w service \<Rightarrow> 'w service run" where
  "take_turn io (Client c) s =
     (if sv_exit s \<noteq> None \<or> sv_ended s c then Some (Inr s)
      else rbind (client_step io FILE_FD c (sv_buf s c, sv_world s)) (\<lambda>r.
        Some (Inr (case r of
            Inl (buf, w) \<Rightarrow> s\<lparr>sv_world := w, sv_buf := (sv_buf s)(c := buf)\<rparr>
          | Inr (e, w) \<Rightarrow> thread_left e (s\<lparr>sv_world := w, sv_ended := (sv_ended s)(c := True)\<rparr>) (s\<lparr>sv_world := w\<rparr>)))))"
| "take_turn io (Tick stamp) s =
     (if sv_exit s \<noteq> None \<or> \<not> sv_timer s then Some (Inr s)
      else rbind (timer_step io FILE_FD stamp (sv_world s)) (\<lambda>r.
        Some (Inr (case r of
            Inl w \<Rightarrow> s\<lparr>sv_world := w\<rparr>
          | Inr (e, w) \<Rightarrow> thread_left e (s\<lparr>sv_world := w, sv_timer := False\<rparr>) (s\<lparr>sv_world := w\<rparr>)))))"

fun run_turns :: "'w io \<Rightarrow> turn list \<Rightarrow> 'w service \<Rightarrow> 'w service run" where
  "run_turns io [] s = Some (Inr s)"
| "run_turns io (t # ts) s = rbind (take_turn io t s) (run_turns io ts)"

text \<open>The threads start with zeroed buffers, those of \<open>clients\<close> with what will arrive at their sockets.\<close>

definition start_service :: "bool \<Rightarrow> 'f \<Rightarrow> int set \<Rightarrow> (int \<Rightarrow> net_event list) \<Rightarrow> 'f world service" where
  "start_service timed f clients evs =
     \<lparr>sv_world = \<lparr>w_file = f,
        w_socks = \<lambda>c. \<lparr>s_input = map event_input (evs c), s_sent = [], s_open = c \<in> clients\<rparr>, w_lock = False\<rparr>,
      sv_buf = \<lambda>c. replicate BUFFER_SIZE 0, sv_ended = \<lambda>c. c \<notin> clients, sv_timer = timed, sv_exit = None\<rparr>"

section \<open>The abstract service\<close>

record 'd spec_service =
  ss_store :: "'d \<times> nat"
  ss_pending :: "int \<Rightarrow> net_event list"
  ss_sent :: "int \<Rightarrow> byte list"
  ss_live :: "int \<Rightarrow> bool"

fun spec_turn :: "'d store \<Rightarrow> 'd spec_service \<Rightarrow> turn \<Rightarrow> 'd spec_service" where
  "spec_turn D S (Client c) =
     (if \<not> ss_live S c then S
      else case ss_pending S c of
             [] \<Rightarrow> S\<lparr>ss_live := (ss_live S)(c := False)\<rparr>
           | e # es \<Rightarrow>
               (case serve_text D (ss_store S) (event_text e) of
                  (x, r, ok) \<Rightarrow> S\<lparr>ss_store := x, ss_pending := (ss_pending S)(c := es),
                     ss_sent := (ss_sent S)(c := ss_sent S c @ r), ss_live := (ss_live S)(c := ok)\<rparr>))"
| "spec_turn D S (Tick stamp) =
     (let l = timer_preamble @ stamp
      in S\<lparr>ss_store := (st_put D (fst (ss_store S)) l, st_next D (snd (ss_store S)) l)\<rparr>)"

definition start_spec :: "'d \<times> nat \<Rightarrow> int set \<Rightarrow> (int \<Rightarrow> net_event list) \<Rightarrow> 'd spec_service" where
  "start_spec x clients evs = \<lparr>ss_store = x, ss_pending = evs, ss_sent = \<lambda>c. [], ss_live = \<lambda>c. c \<in> clients\<rparr>"

fun turn_ok :: "'w service \<Rightarrow> turn \<Rightarrow> bool" where
  "turn_ok s (Client c) \<longleftrightarrow> c \<noteq> FILE_FD"
| "turn_ok s (Tick stamp) \<longleftrightarrow> sv_timer s \<and> cmd_ok stamp \<and> length stamp < 52"

lemma client_turns_ok: "FILE_FD \<notin> set cs \<Longrightarrow> \<forall>t\<in>set (map Client cs). turn_ok s t"
  by auto

text \<open>The relation between a service and the abstract one, for the connections other than the file itself.\<close>

definition serves :: "'d store \<Rightarrow> ('f \<Rightarrow> bool) \<Rightarrow> ('f \<Rightarrow> 'd) \<Rightarrow> ('f \<Rightarrow> nat) \<Rightarrow> 'f world service \<Rightarrow> 'd spec_service \<Rightarrow> bool" where
  "serves D good dev pos s S \<longleftrightarrow>
     good (w_file (sv_world s)) \<and> ss_store S = (dev (w_file (sv_world s)), pos (w_file (sv_world s))) \<and>
     st_ready D (dev (w_file (sv_world s))) (pos (w_file (sv_world s))) \<and> \<not> w_lock (sv_world s) \<and> sv_exit s = None \<and>
     (\<forall>c. c \<noteq> FILE_FD \<longrightarrow> length (sv_buf s c) = BUFFER_SIZE \<and> (\<forall>e\<in>set (ss_pending S c). event_ok e) \<and>
        sv_ended s c = (\<not> ss_live S c) \<and>
        w_socks (sv_world s) c = \<lparr>s_input = map event_input (ss_pending S c), s_sent = ss_sent S c, s_open = ss_live S c\<rparr>)"

lemma serves_start:
  assumes "good f" "st_ready D (dev f) (pos f)" "\<forall>c. \<forall>e\<in>set (evs c). event_ok e"
  shows "serves D good dev pos (start_service timed f clients evs) (start_spec (dev f, pos f) clients evs)"
  using assms by (simp add: serves_def start_service_def start_spec_def)

text \<open>A connection that is still open has used up one event in each of its turns.\<close>

lemma live_turns:
  assumes "ss_live (foldl (spec_turn D) S ts) c"
  shows "count_list ts (Client c) + length (ss_pending (foldl (spec_turn D) S ts) c) = length (ss_pending S c)"
  using assms
proof (induction ts arbitrary: S)
  case (Cons t ts)
  have dead: "\<not> ss_live (foldl (spec_turn D) S ts) c" if "\<not> ss_live S c" for S
    using that
  proof (induction ts arbitrary: S)
    case (Cons t ts)
    then have "\<not> ss_live (spec_turn D S t) c" by (cases t) (auto simp: Let_def split: list.splits prod.splits)
    then show ?case using Cons.IH by simp
  qed simp
  have "count_list ts (Client c) + length (ss_pending (foldl (spec_turn D) (spec_turn D S t) ts) c) =
      length (ss_pending (spec_turn D S t) c)"
    using Cons.IH Cons.prems by simp
  moreover have "length (ss_pending (spec_turn D S t) c) + (if t = Client c then 1 else 0) = length (ss_pending S c)"
    using dead [of "spec_turn D S t"] Cons.prems by (cases t) (auto simp: Let_def split: list.splits prod.splits if_splits)
  ultimately show ?case by (simp split: if_splits)
qed simp

section \<open>Files that implement a store\<close>

locale file_device = line_store D
  for D :: "'d store" +
  fixes F :: "'f file_ops" and good :: "'f \<Rightarrow> bool" and dev :: "'f \<Rightarrow> 'd" and pos :: "'f \<Rightarrow> nat"
  assumes fo_write: "good f \<Longrightarrow> st_ready D (dev f) (pos f) \<Longrightarrow> cmd_ok bs \<Longrightarrow> length bs \<le> 1023 \<Longrightarrow>
      \<exists>f'. fo_write F bs f = Some (Inr (Inr (length bs), f')) \<and> good f' \<and> dev f' = st_put D (dev f) bs \<and>
        pos f' = st_next D (pos f) bs"
    and fo_read: "good f \<Longrightarrow> n \<le> 1024 \<Longrightarrow>
      \<exists>f'. fo_read F n f = Some (Inr (Inr (st_part D (dev f) (pos f) n), f')) \<and> good f' \<and> dev f' = dev f \<and>
        pos f' = pos f + length (st_part D (dev f) (pos f) n)"
    and fo_rewind: "good f \<Longrightarrow> \<exists>f'. fo_rewind F f = Some (Inr f') \<and> good f' \<and> dev f' = dev f \<and> pos f' = 0"
    and fo_ioctl: "good f \<Longrightarrow>
      \<exists>f'. fo_ioctl F \<lparr>write_cmd = a, write_cmd_offset = b\<rparr> f = Some (Inr (st_seek D (dev f) (unat a) (unat b) \<noteq> None, f')) \<and>
        good f' \<and> dev f' = dev f \<and>
        pos f' = (case st_seek D (dev f) (unat a) (unat b) of None \<Rightarrow> pos f | Some q \<Rightarrow> q)"
begin

text \<open>The calls of the host on the file.\<close>

lemma host_write:
  assumes "good (w_file w)" "st_ready D (dev (w_file w)) (pos (w_file w))" "cmd_ok bs" "length bs \<le> 1023"
  shows "\<exists>w'. io_write (host_io F chunk) FILE_FD bs w = Some (Inr (Inr (length bs), w')) \<and> good (w_file w') \<and>
      host_view dev pos c w' = (host_view dev pos c w)\<lparr>v_dev := st_put D (dev (w_file w)) bs, v_pos := st_next D (pos (w_file w)) bs\<rparr>"
proof -
  obtain f' where "fo_write F bs (w_file w) = Some (Inr (Inr (length bs), f'))" "good f'"
      "dev f' = st_put D (dev (w_file w)) bs" "pos f' = st_next D (pos (w_file w)) bs"
    using fo_write [OF assms] by blast
  then show ?thesis
    by (intro exI [of _ "w\<lparr>w_file := f'\<rparr>"]) (simp add: host_io_def on_file_def host_view_def)
qed

lemma host_read:
  assumes "good (w_file w)" "n \<le> 1024"
  defines "bs \<equiv> st_part D (dev (w_file w)) (pos (w_file w)) n"
  shows "\<exists>w'. io_read (host_io F chunk) FILE_FD n w = Some (Inr (Inr bs, w')) \<and> good (w_file w') \<and>
      host_view dev pos c w' = (host_view dev pos c w)\<lparr>v_pos := pos (w_file w) + length bs\<rparr>"
proof -
  obtain f' where "fo_read F n (w_file w) = Some (Inr (Inr bs, f'))" "good f'" "dev f' = dev (w_file w)"
      "pos f' = pos (w_file w) + length bs"
    using fo_read [OF assms(1,2)] unfolding bs_def by blast
  then show ?thesis
    by (intro exI [of _ "w\<lparr>w_file := f'\<rparr>"]) (simp add: host_io_def on_file_def host_view_def)
qed

lemma host_rewind:
  assumes "good (w_file w)"
  shows "\<exists>w'. io_rewind (host_io F chunk) FILE_FD w = Some (Inr w') \<and> good (w_file w') \<and>
      host_view dev pos c w' = (host_view dev pos c w)\<lparr>v_pos := 0\<rparr>"
proof -
  obtain f' where "fo_rewind F (w_file w) = Some (Inr f')" "good f'" "dev f' = dev (w_file w)" "pos f' = 0"
    using fo_rewind [OF assms] by blast
  then show ?thesis by (intro exI [of _ "w\<lparr>w_file := f'\<rparr>"]) (simp add: host_io_def host_view_def)
qed

lemma host_ioctl:
  fixes a b :: u32
  assumes "good (w_file w)"
  defines "q \<equiv> st_seek D (dev (w_file w)) (unat a) (unat b)"
  shows "\<exists>w'. io_ioctl (host_io F chunk) FILE_FD \<lparr>write_cmd = a, write_cmd_offset = b\<rparr> w = Some (Inr (q \<noteq> None, w')) \<and>
      good (w_file w') \<and>
      host_view dev pos c w' = (case q of None \<Rightarrow> host_view dev pos c w | Some p \<Rightarrow> (host_view dev pos c w)\<lparr>v_pos := p\<rparr>)"
proof -
  obtain f' where "fo_ioctl F \<lparr>write_cmd = a, write_cmd_offset = b\<rparr> (w_file w) = Some (Inr (q \<noteq> None, f'))" "good f'"
      "dev f' = dev (w_file w)" "pos f' = (case q of None \<Rightarrow> pos (w_file w) | Some p \<Rightarrow> p)"
    using fo_ioctl [OF assms(1)] unfolding q_def by blast
  then show ?thesis
    by (intro exI [of _ "w\<lparr>w_file := f'\<rparr>"]) (simp add: host_io_def on_file_def host_view_def split: option.split)
qed

lemma host_send:
  assumes "c \<noteq> FILE_FD" "good (w_file w)" "bs \<noteq> []"
  shows "\<exists>w' n. io_write (host_io F chunk) c bs w = Some (Inr (Inr n, w')) \<and> 0 < n \<and> n \<le> length bs \<and> good (w_file w') \<and>
      host_view dev pos c w' = (host_view dev pos c w)\<lparr>v_sent := s_sent (w_socks w c) @ take n bs\<rparr>"
proof -
  let ?n = "min (Suc chunk) (length bs)"
  show ?thesis
    using assms by (intro exI [of _ "on_sock c (\<lambda>s. s\<lparr>s_sent := s_sent s @ take ?n bs\<rparr>) w"] exI [of _ ?n])
      (simp add: host_io_def host_view_def on_sock_def Let_def)
qed

lemma host_view_sel:
  "v_dev (host_view dev pos c w) = dev (w_file w)" "v_pos (host_view dev pos c w) = pos (w_file w)"
  "v_sent (host_view dev pos c w) = s_sent (w_socks w c)"
  by (simp_all add: host_view_def)

text \<open>Every connection of the host is served by what the handler relies on.\<close>

lemma client_device:
  assumes "c \<noteq> FILE_FD"
  shows "line_device D (host_io F chunk) FILE_FD c (\<lambda>w. good (w_file w)) (host_view dev pos c)"
  by (unfold_locales; (simp only: host_view_sel)?;
    (rule host_write host_read host_rewind host_ioctl host_send [OF assms]; assumption)?)
    (use assms in \<open>simp_all add: host_io_def host_view_def on_sock_def\<close>)

lemma other_sockets:
  assumes "v_rest (host_view dev pos c w') = v_rest (host_view dev pos c w)" "x \<noteq> c"
  shows "w_socks w' x = w_socks w x"
  using fun_cong [OF assms(1), of x] assms(2) by (simp add: host_view_def)

text \<open>A turn of a connection is a step of the abstract service.\<close>

lemma serves_view:
  assumes "serves D good dev pos s S" "c \<noteq> FILE_FD"
  defines "v \<equiv> host_view dev pos c (sv_world s)"
  shows "good (w_file (sv_world s))" "st_ready D (v_dev v) (v_pos v)" "\<not> v_lock v" "(v_dev v, v_pos v) = ss_store S"
    "v_input v = map event_input (ss_pending S c)" "v_sent v = ss_sent S c" "v_open v = ss_live S c"
    "length (sv_buf s c) = BUFFER_SIZE" "sv_exit s = None" "sv_ended s c = (\<not> ss_live S c)"
  using assms by (simp_all add: serves_def host_view_def)

lemma client_turn_end:
  assumes R: "serves D good dev pos s S" and c: "c \<noteq> FILE_FD" and live: "ss_live S c" and ev: "ss_pending S c = []"
  shows "\<exists>s'. take_turn (host_io F chunk) (Client c) s = Some (Inr s') \<and> sv_timer s' = sv_timer s \<and>
    serves D good dev pos s' (spec_turn D S (Client c))"
proof -
  let ?V = "host_view dev pos c"
  note v = serves_view [OF R c]
  obtain w' where w': "client_step (host_io F chunk) FILE_FD c (sv_buf s c, sv_world s) = Some (Inr (Inr (Thread_Complete, w')))"
      "good (w_file w')" "?V w' = (?V (sv_world s))\<lparr>v_open := False\<rparr>"
    using line_device.client_step_end [OF client_device [OF c] v(1)] v(5) ev by auto
  note o = other_sockets [of c w' "sv_world s", unfolded w'(3), simplified]
  let ?s = "s\<lparr>sv_world := w', sv_ended := (sv_ended s)(c := True)\<rparr>"
  have "take_turn (host_io F chunk) (Client c) s = Some (Inr ?s)" using w'(1) v(9,10) live by (simp add: thread_left_def)
  moreover have "serves D good dev pos ?s (spec_turn D S (Client c))"
    using R w'(2,3) o live ev by (auto simp: serves_def host_view_def)
  ultimately show ?thesis by (intro exI [of _ ?s]) simp
qed

lemma client_turn_event:
  assumes R: "serves D good dev pos s S" and c: "c \<noteq> FILE_FD" and live: "ss_live S c" and ev: "ss_pending S c = e # es"
  shows "\<exists>s'. take_turn (host_io F chunk) (Client c) s = Some (Inr s') \<and> sv_timer s' = sv_timer s \<and>
    serves D good dev pos s' (spec_turn D S (Client c))"
proof -
  let ?w = "sv_world s" and ?V = "host_view dev pos c" and ?io = "host_io F chunk"
  note v = serves_view [OF R c]
  obtain d p r ok where sl: "serve_text D (ss_store S) (event_text e) = ((d, p), r, ok)" by (metis prod.exhaust)
  have i: "v_input (?V ?w) = event_input e # map event_input es" "event_ok e" using v(5) ev R c by (auto simp: serves_def)
  obtain buf' w' where w': "client_step ?io FILE_FD c (sv_buf s c, ?w) =
      Some (Inr (if ok then Inl (buf', w') else Inr (Thread_Complete, w')))" "length buf' = BUFFER_SIZE" "good (w_file w')"
      "st_ready D d p" "?V w' = (?V ?w)\<lparr>v_dev := d, v_pos := p, v_sent := ss_sent S c @ r, v_input := map event_input es,
         v_open := ok\<rparr>"
    using line_device.client_step_served [OF client_device [OF c, of chunk] v(1-3) i v(8), of d p r ok] sl v(7) live
    unfolding v(4,6) by auto
  note o = other_sockets [of c w' ?w, unfolded w'(5), simplified]
  have f: "dev (w_file w') = d" "pos (w_file w') = p" "\<not> w_lock w'"
    "w_socks w' c = \<lparr>s_input = map event_input es, s_sent = ss_sent S c @ r, s_open = ok\<rparr>"
    using w'(5) v(3) by (auto simp: host_view_def)
  let ?s = "if ok then s\<lparr>sv_world := w', sv_buf := (sv_buf s)(c := buf')\<rparr>
    else s\<lparr>sv_world := w', sv_ended := (sv_ended s)(c := True)\<rparr>"
  have "take_turn ?io (Client c) s = Some (Inr ?s)" using w'(1) v(9,10) live by (simp add: thread_left_def)
  moreover have "serves D good dev pos ?s (spec_turn D S (Client c))"
    using R w'(2-4) o f live ev sl by (auto simp: serves_def)
  ultimately show ?thesis by (intro exI [of _ ?s]) simp
qed

lemma client_turn:
  assumes R: "serves D good dev pos s S" and c: "c \<noteq> FILE_FD"
  shows "\<exists>s'. take_turn (host_io F chunk) (Client c) s = Some (Inr s') \<and> sv_timer s' = sv_timer s \<and>
    serves D good dev pos s' (spec_turn D S (Client c))"
proof (cases "ss_live S c")
  case False
  then have "take_turn (host_io F chunk) (Client c) s = Some (Inr s)" using serves_view(10) [OF R c] by simp
  then show ?thesis using False R by simp
next
  case True
  then show ?thesis
    using client_turn_end [OF R c True] client_turn_event [OF R c True] by (cases "ss_pending S c") blast+
qed

lemma tick_turn:
  assumes R: "serves D good dev pos s S" and t: "turn_ok s (Tick stamp)"
  shows "\<exists>s'. take_turn (host_io F chunk) (Tick stamp) s = Some (Inr s') \<and> sv_timer s' = sv_timer s \<and>
    serves D good dev pos s' (spec_turn D S (Tick stamp))"
proof -
  let ?w = "sv_world s" and ?V = "host_view dev pos 0" and ?io = "host_io F chunk" and ?l = "timer_preamble @ stamp"
  have c: "0 \<noteq> FILE_FD" by (simp add: FILE_FD_def)
  note v = serves_view [OF R c]
  obtain w' where w': "timer_step ?io FILE_FD stamp ?w = Some (Inr (Inl w'))" "good (w_file w')"
      "st_ready D (st_put D (v_dev (?V ?w)) ?l) (st_next D (v_pos (?V ?w)) ?l)"
      "?V w' = (?V ?w)\<lparr>v_dev := st_put D (v_dev (?V ?w)) ?l, v_pos := st_next D (v_pos (?V ?w)) ?l\<rparr>"
    using line_device.timer_step_served [OF client_device [OF c] v(1-3), of stamp chunk] t by auto
  have f: "dev (w_file w') = st_put D (dev (w_file ?w)) ?l" "pos (w_file w') = st_next D (pos (w_file ?w)) ?l" "\<not> w_lock w'"
      "w_socks w' 0 = w_socks ?w 0" "st_ready D (dev (w_file w')) (pos (w_file w'))"
    using w'(3,4) v(3) by (auto simp: host_view_def)
  have "w_socks w' x = w_socks ?w x" for x
    using other_sockets [of 0 w' ?w x] w'(4) f(4) by (cases "x = 0") simp_all
  then have "serves D good dev pos (s\<lparr>sv_world := w'\<rparr>) (spec_turn D S (Tick stamp))"
    using R w'(2) f(1-3,5) by (auto simp: serves_def Let_def)
  then show ?thesis using w'(1) v(9) t by (intro exI [of _ "s\<lparr>sv_world := w'\<rparr>"]) simp
qed

lemma turns_served:
  assumes "serves D good dev pos s S" "\<forall>t\<in>set ts. turn_ok s t"
  shows "\<exists>s'. run_turns (host_io F chunk) ts s = Some (Inr s') \<and> serves D good dev pos s' (foldl (spec_turn D) S ts)"
  using assms
proof (induction ts arbitrary: s S)
  case (Cons t ts)
  have "\<exists>s'. take_turn (host_io F chunk) t s = Some (Inr s') \<and> sv_timer s' = sv_timer s \<and> serves D good dev pos s' (spec_turn D S t)"
    using Cons.prems client_turn [OF Cons.prems(1)] tick_turn [OF Cons.prems(1)] by (cases t) simp_all
  then obtain s' where s': "take_turn (host_io F chunk) t s = Some (Inr s')" "sv_timer s' = sv_timer s"
      "serves D good dev pos s' (spec_turn D S t)" by blast
  have "turn_ok s' u = turn_ok s u" for u using s'(2) by (cases u) simp_all
  then show ?case using Cons.IH [OF s'(3)] Cons.prems(2) s'(1) by simp
qed simp

text \<open>
  Any turns of the threads, from the start: nothing faults or blocks, the file lock is free, the
  store and what every client got are those of the abstract service, and a connection that had
  more turns than chunks is closed.
\<close>

lemma service_ok:
  assumes "good f" "st_ready D (dev f) (pos f)" "\<forall>c. \<forall>e\<in>set (evs c). event_ok e"
    and "\<forall>t\<in>set ts. turn_ok (start_service timed f clients evs) t"
  defines "S \<equiv> foldl (spec_turn D) (start_spec (dev f, pos f) clients evs) ts"
  shows "\<exists>s'. run_turns (host_io F chunk) ts (start_service timed f clients evs) = Some (Inr s') \<and>
    good (w_file (sv_world s')) \<and> (dev (w_file (sv_world s')), pos (w_file (sv_world s'))) = ss_store S \<and> \<not> w_lock (sv_world s') \<and> sv_exit s' = None \<and>
    (\<forall>c. c \<noteq> FILE_FD \<longrightarrow> s_sent (w_socks (sv_world s') c) = ss_sent S c \<and>
       (length (evs c) < count_list ts (Client c) \<longrightarrow> sv_ended s' c \<and> \<not> s_open (w_socks (sv_world s') c)))"
proof -
  obtain s' where s': "run_turns (host_io F chunk) ts (start_service timed f clients evs) = Some (Inr s')"
      "serves D good dev pos s' S"
    using turns_served [OF serves_start [of good f D dev pos evs timed clients] assms(4), of chunk] assms(1-3)
    unfolding S_def by auto
  have "\<not> ss_live S c" if "length (evs c) < count_list ts (Client c)" for c
    using live_turns [of D "start_spec (dev f, pos f) clients evs" ts c] that unfolding S_def [symmetric]
    by (auto simp: start_spec_def)
  then show ?thesis using s' by (intro exI [of _ s']) (auto simp: serves_def)
qed

end

end
