(* ===== verification/Socket_Device.thy ===== *)
theory Socket_Device
  imports Socket_Host Driver_Properties
begin

text \<open>
  The server on the character driver (\<^verbatim>\<open>USE_AESD_CHAR_DEVICE\<close>). The file is the driver's device, reached
  through the kernel's file layer; it implements the store of the last ten commands, so that the
  behaviour of the connections is proved end to end, from the bytes that arrive at the sockets, over
  the driver, to the bytes that are sent back.
\<close>

section \<open>The driver as a file\<close>

record driver_file =
  df_kernel :: kernel
  df_file :: kfile

definition file_read :: "kenv \<Rightarrow> nat \<Rightarrow> driver_file \<Rightarrow> ((io_errno + byte list) \<times> driver_file) run" where
  "file_read K n f =
     rbind (aesd_read K (df_file f) n (of_nat n) (f_pos (df_file f)) (df_kernel f)) (\<lambda>(r, bs, pos, s).
       Some (Inr (case r of Inl _ \<Rightarrow> Inl EOTHER | Inr _ \<Rightarrow> Inr bs,
                  f\<lparr>df_kernel := s, df_file := (df_file f)\<lparr>f_pos := pos\<rparr>\<rparr>)))"

definition file_write :: "kenv \<Rightarrow> byte list \<Rightarrow> driver_file \<Rightarrow> ((io_errno + nat) \<times> driver_file) run" where
  "file_write K bs f =
     rbind (aesd_write K (df_file f) bs (of_nat (length bs)) (f_pos (df_file f)) (df_kernel f)) (\<lambda>(r, pos, s).
       Some (Inr (case r of Inl _ \<Rightarrow> Inl EOTHER | Inr n \<Rightarrow> Inr (unat n),
                  f\<lparr>df_kernel := s, df_file := (df_file f)\<lparr>f_pos := pos\<rparr>\<rparr>)))"

definition file_ioctl :: "kenv \<Rightarrow> ioc_abi \<Rightarrow> aesd_seekto \<Rightarrow> driver_file \<Rightarrow> (bool \<times> driver_file) run" where
  "file_ioctl K A seekto f =
     rbind (Some (aesd_ioctl K A (df_file f) (AESDCHAR_IOCSEEKTO A) (Some seekto) (df_kernel f))) (\<lambda>(r, g, s).
       Some (Inr (case r of Inl _ \<Rightarrow> False | Inr _ \<Rightarrow> True, f\<lparr>df_kernel := s, df_file := g\<rparr>)))"

definition file_rewind :: "kenv \<Rightarrow> llseek_fn \<Rightarrow> driver_file \<Rightarrow> driver_file run" where
  "file_rewind K L f =
     rbind (Some (aesd_llseek K L (df_file f) 0 0 (df_kernel f))) (\<lambda>(r, g, s).
       Some (Inr (f\<lparr>df_kernel := s, df_file := g\<rparr>)))"

definition driver_ops :: "kenv \<Rightarrow> ioc_abi \<Rightarrow> llseek_fn \<Rightarrow> driver_file file_ops" where
  "driver_ops K A L =
     \<lparr>fo_read = file_read K, fo_write = file_write K, fo_ioctl = file_ioctl K A, fo_rewind = file_rewind K L\<rparr>"

definition good_driver :: "driver_file \<Rightarrow> bool" where
  "good_driver f \<longleftrightarrow> dev_inv (df_kernel f) \<and> private_data (df_file f) = AesdDevice"

abbreviation driver_dev :: "driver_file \<Rightarrow> dev_abs" where
  "driver_dev f \<equiv> abs_dev (df_kernel f)"

abbreviation driver_pos :: "driver_file \<Rightarrow> nat" where
  "driver_pos f \<equiv> unat (f_pos (df_file f))"

definition rewinds :: "llseek_fn \<Rightarrow> bool" where
  "rewinds L \<longleftrightarrow> (\<forall>pos size. L pos 0 0 size = 0)"

section \<open>The store of the driver\<close>

definition seek_ok :: "dev_abs \<Rightarrow> nat \<Rightarrow> nat \<Rightarrow> bool" where
  "seek_ok d n off \<longleftrightarrow> n < 10 \<and> off \<le> (if n < length (a_cmds d) then length (a_cmds d ! n) else 0)"

definition seek_pos :: "dev_abs \<Rightarrow> nat \<Rightarrow> nat \<Rightarrow> nat" where
  "seek_pos d n off = length (concat (take n (a_cmds d))) + off"

definition driver_store :: "dev_abs store" where
  "driver_store =
     \<lparr>st_put = spec_write, st_next = \<lambda>p bs. (p + length bs) mod 2 ^ 64, st_data = spec_data, st_part = spec_read,
      st_seek = \<lambda>d n off. if seek_ok d n off then Some (seek_pos d n off) else None,
      st_ready = \<lambda>d p. a_rest d = []\<rparr>"

lemma driver_store_sel [simp]:
  "st_put driver_store = spec_write" "st_next driver_store p bs = (p + length bs) mod 2 ^ 64" "st_data driver_store = spec_data" "st_part driver_store = spec_read"
  "st_seek driver_store d n off = (if seek_ok d n off then Some (seek_pos d n off) else None)"
  "st_ready driver_store d p \<longleftrightarrow> a_rest d = []"
  by (simp_all add: driver_store_def)

lemma spec_write_cmd:
  assumes "a_rest d = []" "cmd_ok l"
  shows "spec_write d l = \<lparr>a_cmds = lastn 10 (a_cmds d @ [l]), a_rest = []\<rparr>"
proof -
  have "newline \<in> set l" "cmd_len l = length l"
    using assms(2) takeWhile_cmd [OF assms(2), of "[]"] by (auto simp: cmd_len_def cmd_ok_iff)
  then have "split_cmds l = ([l], [])" by (simp add: split_cmds_newline split_cmds_no_newline)
  then show ?thesis using assms(1) by (simp add: spec_write_def)
qed

lemma spec_read_advance:
  assumes "p < length (spec_data d)" "0 < n"
  shows "spec_read d p n \<noteq> []" "p + length (spec_read d p n) \<le> length (spec_data d)"
    "spec_read d p n @ drop (p + length (spec_read d p n)) (spec_data d) = drop p (spec_data d)"
proof -
  show "spec_read d p n \<noteq> []" using assms by (simp add: spec_read_empty)
  obtain r where r: "drop p (spec_data d) = spec_read d p n @ r" using spec_read_prefix by blast
  have "length (drop p (spec_data d)) = length (spec_read d p n) + length r" by (simp add: r)
  then show "p + length (spec_read d p n) \<le> length (spec_data d)" using assms(1) by simp
  have "drop (length (spec_read d p n)) (drop p (spec_data d)) = r" unfolding r by simp
  then have "drop (p + length (spec_read d p n)) (spec_data d) = r" by (simp add: add.commute)
  then show "spec_read d p n @ drop (p + length (spec_read d p n)) (spec_data d) = drop p (spec_data d)"
    using r by simp
qed

lemma seek_pos_le:
  assumes "seek_ok d n off"
  shows "seek_pos d n off \<le> length (spec_data d)"
proof (cases "n < length (a_cmds d)")
  case True
  have "concat (a_cmds d) = concat (take n (a_cmds d)) @ a_cmds d ! n @ concat (drop (Suc n) (a_cmds d))"
    using arg_cong [OF id_take_nth_drop [OF True], of concat] by simp
  then show ?thesis
    using arg_cong [of "concat (a_cmds d)" _ length] assms True by (simp add: spec_data_def seek_pos_def seek_ok_def)
next
  case False
  then show ?thesis using assms by (simp add: spec_data_def seek_pos_def seek_ok_def)
qed

lemma driver_line_store: "line_store driver_store"
proof
  fix d :: dev_abs and p n :: nat
  show "st_part driver_store d p n = [] \<longleftrightarrow> length (st_data driver_store d) \<le> p \<or> n = 0"
    using spec_read_empty [of d p n] by auto
  show "st_part driver_store d p n @ drop (p + length (st_part driver_store d p n)) (st_data driver_store d) =
      drop p (st_data driver_store d)"
    using spec_read_advance(3) [of p d n] spec_read_empty [of d p n]
    by (cases "p < length (spec_data d) \<and> 0 < n") auto
next
  fix d :: dev_abs and a b q :: nat
  assume "st_seek driver_store d a b = Some q"
  then show "q \<le> length (st_data driver_store d)" using seek_pos_le [of d a b] by (auto split: if_splits)
qed (auto simp: spec_write_cmd)

section \<open>The driver implements its store\<close>

lemma file_write_ok:
  assumes "calm K" "good_driver f" "length (a_rest (driver_dev f)) + length bs < kmalloc_limit"
  shows "\<exists>f'. file_write K bs f = Some (Inr (Inr (length bs), f')) \<and> good_driver f' \<and>
    driver_dev f' = spec_write (driver_dev f) bs \<and> driver_pos f' = (driver_pos f + length bs) mod 2 ^ 64"
proof -
  have u: "unat (of_nat (length bs) :: size_t) = length bs" using assms(3) by (intro limit_lt) simp
  obtain s where s: "aesd_write K (df_file f) bs (of_nat (length bs)) (f_pos (df_file f)) (df_kernel f) =
      Some (Inr (Inr (of_nat (length bs)), f_pos (df_file f) + of_nat (length bs), s))"
      "dev_inv s" "abs_dev s = spec_write (driver_dev f) bs"
    using write_stores [of K "df_kernel f" "df_file f" bs "f_pos (df_file f)"] assms
    by (auto simp: calm_def good_driver_def abs_dev_fields)
  then show ?thesis
    using assms(2) u by (auto simp: file_write_def good_driver_def unat_word_ariths(1))
qed

lemma file_read_ok:
  assumes K: "calm K" and f: "good_driver f" and n: "n \<le> 1024"
  defines "bs \<equiv> spec_read (driver_dev f) (driver_pos f) n"
  shows "\<exists>f'. file_read K n f = Some (Inr (Inr bs, f')) \<and> good_driver f' \<and> driver_dev f' = driver_dev f \<and>
    driver_pos f' = driver_pos f + length bs"
proof -
  let ?s = "df_kernel f" and ?p = "f_pos (df_file f)"
  have inv: "dev_inv ?s" and nd: "private_data (df_file f) \<noteq> NoDev" using f by (simp_all add: good_driver_def)
  have u: "unat (of_nat n :: size_t) = n" using n by (intro unat_of_nat_lt) simp
  have bs: "spec_read (abs_dev ?s) (unat ?p) (unat (of_nat n :: size_t)) = bs" unfolding u by (simp add: bs_def)
  have len: "length bs \<le> n" by (auto simp: bs_def spec_read_def split: option.split)
  have pos: "unat (?p + of_nat (length bs)) = unat ?p + length bs"
  proof (cases "bs = []")
    case False
    then have "unat ?p < length (dev_data ?s)" "0 < n"
      using spec_read_empty [of "abs_dev ?s" "unat ?p" n] by (auto simp: bs_def)
    then have "unat ?p + length bs \<le> length (dev_data ?s)"
      using spec_read_advance(2) [of "unat ?p" "abs_dev ?s" n] by (simp add: bs_def)
    then have "unat (of_nat (unat ?p + length bs) :: loff_t) = unat ?p + length bs" by (rule pos_of_nat [OF inv])
    then show ?thesis by simp
  qed simp
  from inv nd show ?thesis
  proof (cases rule: aesd_read_cases [of ?s "df_file f" K n "of_nat n" ?p])
    case (data s')
    then show ?thesis using f pos unfolding bs by (auto simp: file_read_def good_driver_def)
  next
    case (fault bs' s')
    then show ?thesis using K len unfolding bs by (simp add: calm_def copy_left_zero_iff)
  qed (use K in \<open>simp add: calm_def\<close>)
qed

lemma file_ioctl_ok:
  assumes K: "calm K" and A: "ioc_ok A" and f: "good_driver f"
  defines "d \<equiv> driver_dev f"
  shows "\<exists>f'. file_ioctl K A \<lparr>write_cmd = a, write_cmd_offset = b\<rparr> f = Some (Inr (seek_ok d (unat a) (unat b), f')) \<and>
    good_driver f' \<and> driver_dev f' = d \<and>
    driver_pos f' = (if seek_ok d (unat a) (unat b) then seek_pos d (unat a) (unat b) else driver_pos f)"
proof -
  let ?s = "df_kernel f" and ?r = "\<lparr>write_cmd = a, write_cmd_offset = b\<rparr>"
  have inv: "dev_inv ?s" "dev_inv (next_tick ?s)" and nd: "private_data (df_file f) \<noteq> NoDev"
    using f by (simp_all add: good_driver_def)
  have d: "a_cmds d = dev_cmds ?s" by (simp add: d_def abs_dev_fields)
  have run: "aesd_ioctl K A (df_file f) (AESDCHAR_IOCSEEKTO A) (Some ?r) ?s =
      aesd_adjust_file_offset K (df_file f) ?r (next_tick ?s)"
    using A K by (simp add: aesd_ioctl_def AESDCHAR_IOCSEEKTO_def ioc_ok_def AESD_IOC_MAGIC_def AESDCHAR_IOC_MAXNR_def calm_def)
  from inv(2) nd show ?thesis
  proof (cases rule: aesd_adjust_cases [of "next_tick ?s" "df_file f" K ?r])
    case range
    then have "\<not> seek_ok d (unat a) (unat b)" by (simp add: seek_ok_def)
    then show ?thesis using range f run by (simp add: file_ioctl_def good_driver_def d_def)
  next
    case (offset s')
    then have "\<not> seek_ok d (unat a) (unat b)" using d by (auto simp: seek_ok_def split: if_splits)
    then show ?thesis using offset f run by (simp add: file_ioctl_def good_driver_def d_def)
  next
    case (moved s')
    then have ok: "seek_ok d (unat a) (unat b)" using d by (auto simp: seek_ok_def split: if_splits)
    have "seek_pos d (unat a) (unat b) \<le> length (dev_data ?s)"
      using seek_pos_le [OF ok] by (simp add: d_def)
    then have "unat (of_nat (seek_pos d (unat a) (unat b)) :: loff_t) = seek_pos d (unat a) (unat b)"
      by (rule pos_of_nat [OF inv(1)])
    then show ?thesis
      using moved f run ok d by (simp add: file_ioctl_def good_driver_def seek_pos_def d_def)
  qed (use K in \<open>simp add: calm_def\<close>)
qed

lemma file_rewind_ok:
  assumes "calm K" "rewinds L" "good_driver f"
  shows "\<exists>f'. file_rewind K L f = Some (Inr f') \<and> good_driver f' \<and> driver_dev f' = driver_dev f \<and> driver_pos f' = 0"
proof -
  have inv: "dev_inv (df_kernel f)" and nd: "private_data (df_file f) \<noteq> NoDev" using assms(3) by (simp_all add: good_driver_def)
  from inv nd show ?thesis
  proof (cases rule: aesd_llseek_cases [of "df_kernel f" "df_file f" K L 0 0])
    case (moved s')
    then show ?thesis using assms(2,3) by (simp add: file_rewind_def good_driver_def rewinds_def)
  qed (use assms(1) in \<open>simp add: calm_def\<close>)
qed

theorem driver_file_device:
  assumes "calm K" "ioc_ok A" "rewinds L"
  shows "file_device driver_store (driver_ops K A L) good_driver driver_dev driver_pos"
proof (intro file_device.intro driver_line_store file_device_axioms.intro)
  fix f and bs :: "byte list"
  assume f: "good_driver f" "st_ready driver_store (driver_dev f) (driver_pos f)" and bs: "cmd_ok bs" "length bs \<le> 1023"
  then have "length (a_rest (driver_dev f)) + length bs < kmalloc_limit" by (simp add: kmalloc_limit_def)
  then show "\<exists>f'. fo_write (driver_ops K A L) bs f = Some (Inr (Inr (length bs), f')) \<and> good_driver f' \<and>
      driver_dev f' = st_put driver_store (driver_dev f) bs \<and> driver_pos f' = st_next driver_store (driver_pos f) bs"
    using file_write_ok [OF assms(1) f(1), of bs] by (auto simp: driver_ops_def)
next
  fix f and a b :: u32
  assume "good_driver f"
  then show "\<exists>f'. fo_ioctl (driver_ops K A L) \<lparr>write_cmd = a, write_cmd_offset = b\<rparr> f =
        Some (Inr (st_seek driver_store (driver_dev f) (unat a) (unat b) \<noteq> None, f')) \<and> good_driver f' \<and>
      driver_dev f' = driver_dev f \<and>
      driver_pos f' = (case st_seek driver_store (driver_dev f) (unat a) (unat b) of None \<Rightarrow> driver_pos f | Some q \<Rightarrow> q)"
    using file_ioctl_ok [OF assms(1,2), of f a b] by (auto simp: driver_ops_def)
qed (use file_read_ok [OF assms(1)] file_rewind_ok [OF assms(1,3)] in \<open>simp_all add: driver_ops_def\<close>)

definition zero_seek :: llseek_fn where
  "zero_seek = (\<lambda>pos offset whence total. 0)"

lemma rewinds_zero_seek: "rewinds zero_seek"
  by (simp add: rewinds_def zero_seek_def)

interpretation driver: file_device driver_store "driver_ops first_fit linux_ioc zero_seek" good_driver driver_dev driver_pos
  by (rule driver_file_device [OF calm_first_fit linux_ioc_ok rewinds_zero_seek])

section \<open>Properties\<close>

definition CONN_FD :: int where
  "CONN_FD = 4"

lemma FILE_CONN [simp]: "CONN_FD \<noteq> FILE_FD"
  by (simp add: FILE_FD_def CONN_FD_def)

interpretation driver_client: line_device driver_store "host_io (driver_ops first_fit linux_ioc zero_seek) 99" FILE_FD CONN_FD
    "\<lambda>w. good_driver (w_file w)" "host_view driver_dev driver_pos CONN_FD"
  by (rule driver.client_device) simp

definition fresh_driver :: driver_file where
  "fresh_driver = \<lparr>df_kernel = loaded, df_file = opened\<rparr>"

lemma fresh_driver [simp]: "good_driver fresh_driver" "driver_dev fresh_driver = \<lparr>a_cmds = [], a_rest = []\<rparr>"
  using loaded by (simp_all add: good_driver_def fresh_driver_def)

definition start_world :: "net_event list \<Rightarrow> driver_file world" where
  "start_world evs = sv_world (start_service False fresh_driver {CONN_FD} (\<lambda>c. evs))"

lemma start_world [simp]:
  "w_file (start_world evs) = fresh_driver" "\<not> w_lock (start_world evs)"
  "w_socks (start_world evs) CONN_FD = \<lparr>s_input = map event_input evs, s_sent = [], s_open = True\<rparr>"
  by (simp_all add: start_world_def start_service_def)

text \<open>
  C20. A whole connection, end to end, whatever the client sends. The server's thread runs on a device
  in a good state whose last command is complete, with a free file lock, and gets any bytes, in any
  reads of at most 1023 bytes, with pauses between them. It ends, the connection is closed, the file
  lock is free and the other sockets are as they were. The device and the bytes sent back are
  those of the specification: every data line is stored and answered with the complete contents of
  the device, every accepted seek with the contents from that position on, a seek without numbers
  with what is left behind the old position, in the order of the lines; a seek the driver does not
  accept ends the connection, and bytes behind the last newline of a chunk are dropped.
\<close>

theorem connection_served:
  assumes "calm K" "ioc_ok A" "rewinds L" "c \<noteq> FILE_FD"
    and "good_driver (w_file w)" "a_rest (driver_dev (w_file w)) = []" "\<not> w_lock w"
    and "s_input (w_socks w c) = map event_input evs" "\<forall>e\<in>set evs. event_ok e"
  defines "spec \<equiv> serve_events driver_store (driver_dev (w_file w), driver_pos (w_file w)) evs"
  shows "\<exists>w'. handle_client_connection (host_io (driver_ops K A L) chunk) FILE_FD c w = Some (Inr (Thread_Complete, w')) \<and>
    good_driver (w_file w') \<and> (driver_dev (w_file w'), driver_pos (w_file w')) = fst spec \<and>
    s_sent (w_socks w' c) = s_sent (w_socks w c) @ snd spec \<and>
    \<not> w_lock w' \<and> \<not> s_open (w_socks w' c) \<and> (\<forall>x. x \<noteq> c \<longrightarrow> w_socks w' x = w_socks w x)"
proof -
  let ?io = "host_io (driver_ops K A L) chunk" and ?V = "host_view driver_dev driver_pos c"
  note F = driver_file_device [OF assms(1-3)]
  obtain d p r where s: "spec = ((d, p), r)" by (metis prod.exhaust)
  obtain w' where w': "run_iter (client_step ?io FILE_FD c) (replicate BUFFER_SIZE 0, w) =
      Some (Inr (Thread_Complete, w'))" "good_driver (w_file w')" "v_dev (?V w') = d" "v_pos (?V w') = p"
      "v_sent (?V w') = v_sent (?V w) @ r" "\<not> v_lock (?V w')" "\<not> v_open (?V w')" "v_rest (?V w') = v_rest (?V w)"
    using line_device.connection_ok [OF file_device.client_device [OF F assms(4), of chunk] assms(5), of evs "replicate BUFFER_SIZE 0" d p r]
      assms(6-9) s by (auto simp: host_view_def spec_def)
  show ?thesis
    unfolding handle_client_connection_def
    using w' s file_device.other_sockets [OF F w'(8)] by (intro exI [of _ w']) (simp add: host_view_def)
qed

theorem connection_served_witness:
  "\<exists>w'. handle_client_connection (host_io (driver_ops first_fit linux_ioc zero_seek) 1) FILE_FD CONN_FD
       (start_world [Again, lines_event [Data [97, 98, 10], Data [99, 10], Seek 1 0, Seek 5 1, Data [100, 10]] [120]]) =
     Some (Inr (Thread_Complete, w')) \<and>
   s_sent (w_socks w' CONN_FD) = [97, 98, 10] @ [97, 98, 10, 99, 10] @ [99, 10]"
proof -
  let ?ls = "[Data [97, 98, 10], Data [99, 10], Seek 1 0, Seek 5 1, Data [100, 10]]"
  let ?evs = "[Again, lines_event ?ls [120]]" and ?x = "(\<lparr>a_cmds = [], a_rest = []\<rparr>, driver_pos fresh_driver)"
  have c: "cmd_ok [97, 98, 10]" "cmd_ok [99, 10]" "cmd_ok [100, 10]" by (simp_all add: cmd_ok_def newline_def)
  note s = spec_write_cmd [of "\<lparr>a_cmds = [], a_rest = []\<rparr>", OF _ c(1), simplified]
    spec_write_cmd [of "\<lparr>a_cmds = [[97, 98, 10]], a_rest = []\<rparr>", OF _ c(2), simplified]
  have ls: "\<forall>l\<in>set ?ls. line_ok l" "0 \<notin> set [120 :: byte]" "newline \<notin> set [120]"
    using c by (simp_all add: newline_def seek_prefix_eq)
  have ev: "\<forall>e\<in>set ?evs. event_ok e"
    by (simp add: lines_event_def BUFFER_SIZE_def seek_prefix_eq dec_digits.simps)
  have r: "serve_lines driver_store (fst ?x) ?ls = (\<lparr>a_cmds = [[97, 98, 10], [99, 10]], a_rest = []\<rparr>,
      [97, 98, 10] @ [97, 98, 10, 99, 10] @ [99, 10], False)"
    by (simp add: s spec_data_def seek_pos_def seek_ok_def)
  have e: "snd (serve_events driver_store ?x ?evs) = [97, 98, 10] @ [97, 98, 10, 99, 10] @ [99, 10]"
    using serve_lines_event [OF ls r] by (auto simp: serve_text_stop)
  show ?thesis
    using connection_served [OF calm_first_fit linux_ioc_ok rewinds_zero_seek FILE_CONN, of "start_world ?evs" ?evs 1] ev e
    by auto
qed

text \<open>
  Several connections at once on the driver. The threads of any number of connections take turns
  in any order, each with whatever bytes its client sends, on a device in a good state
  whose last command is complete. Nothing faults or blocks and the file lock is free after every
  turn; the device is what the lines make of it in the order of the turns, and each client has got
  the replies to its own lines, as of its turn, and nothing of the replies to others, although all
  share one file position. A connection that had a turn for each chunk and one more is closed.
\<close>

theorem clients_interleave:
  assumes "calm K" "ioc_ok A" "rewinds L" "good_driver f" "a_rest (driver_dev f) = []"
    and "\<forall>c. \<forall>e\<in>set (evs c). event_ok e" "FILE_FD \<notin> set cs"
  shows "\<exists>s'. run_turns (host_io (driver_ops K A L) chunk) (map Client cs) (start_service False f clients evs) = Some (Inr s') \<and>
    good_driver (w_file (sv_world s')) \<and> \<not> w_lock (sv_world s') \<and>
    (let S = foldl (spec_turn driver_store) (start_spec (driver_dev f, driver_pos f) clients evs) (map Client cs)
     in (driver_dev (w_file (sv_world s')), driver_pos (w_file (sv_world s'))) = ss_store S \<and>
       (\<forall>c. c \<noteq> FILE_FD \<longrightarrow> s_sent (w_socks (sv_world s') c) = ss_sent S c \<and>
          (length (evs c) < count_list cs c \<longrightarrow> \<not> s_open (w_socks (sv_world s') c))))"
proof -
  have n: "count_list (map Client cs) (Client c) = count_list cs c" for c by (induction cs) auto
  show ?thesis
    using file_device.service_ok [OF driver_file_device [OF assms(1-3)] assms(4) _ assms(6) client_turns_ok [OF assms(7)], of chunk False clients] assms(5)
    unfolding n by (auto simp: Let_def)
qed

theorem clients_interleave_witness:
  "\<exists>s'. run_turns (host_io (driver_ops first_fit linux_ioc zero_seek) 0) (map Client [4, 5, 4])
      (start_service False fresh_driver {4, 5} (\<lambda>c. if c = 4 then [Chunk [97, 10]] else [Chunk [98, 10]])) =
     Some (Inr s') \<and> s_sent (w_socks (sv_world s') 4) = [97, 10] \<and> s_sent (w_socks (sv_world s') 5) = [97, 10, 98, 10] \<and>
     \<not> s_open (w_socks (sv_world s') 4)"
proof -
  let ?evs = "\<lambda>c. if c = 4 then [Chunk [97, 10]] else [Chunk [98 :: byte, 10]]"
  let ?cs = "[4, 5, 4] :: int list" and ?x = "(\<lparr>a_cmds = [], a_rest = []\<rparr>, driver_pos fresh_driver)"
  have c: "cmd_ok [97, 10]" "cmd_ok [98, 10]" by (simp_all add: cmd_ok_def newline_def)
  note s = spec_write_cmd [of "\<lparr>a_cmds = [], a_rest = []\<rparr>", OF _ c(1), simplified]
    spec_write_cmd [of "\<lparr>a_cmds = [[97, 10]], a_rest = []\<rparr>", OF _ c(2), simplified]
  let ?S = "foldl (spec_turn driver_store) (start_spec ?x {4, 5} ?evs) (map Client ?cs)"
  have r: "ss_sent ?S 4 = [97, 10]" "ss_sent ?S 5 = [97, 10, 98, 10]"
    by (simp_all add: s spec_data_def start_spec_def serve_text.simps serve_line_def line_of_def newline_def seek_prefix_eq)
  have ev: "\<forall>c. \<forall>e\<in>set (?evs c). event_ok e" by (simp add: BUFFER_SIZE_def)
  have cs: "FILE_FD \<notin> set ?cs" "4 \<noteq> FILE_FD" "5 \<noteq> FILE_FD" "length (?evs 4) < count_list ?cs 4" by (simp_all add: FILE_FD_def)
  from clients_interleave [OF calm_first_fit linux_ioc_ok rewinds_zero_seek fresh_driver(1) _ ev cs(1), of 0 "{4, 5}"]
  obtain s' where s': "run_turns (host_io (driver_ops first_fit linux_ioc zero_seek) 0) (map Client ?cs)
      (start_service False fresh_driver {4, 5} ?evs) = Some (Inr s')"
    and x: "\<forall>c. c \<noteq> FILE_FD \<longrightarrow> s_sent (w_socks (sv_world s') c) = ss_sent ?S c \<and>
          (length (?evs c) < count_list ?cs c \<longrightarrow> \<not> s_open (w_socks (sv_world s') c))"
    unfolding Let_def fresh_driver(2) by fastforce
  show ?thesis
    using s' x [rule_format, OF cs(2)] x [rule_format, OF cs(3)] cs(4) unfolding r by blast
qed

end
