(* ===== verification/Socket_Properties.thy ===== *)
theory Socket_Properties
  imports Socket_Device
begin

text \<open>
  Further properties of the connection handler of \<^verbatim>\<open>server/aesdsocket.c\<close>: rejected seeks, the paths on
  which the socket fails, and how seek commands are recognised and read.
\<close>

lemma serve_lines_stop:
  assumes "serve_lines D d ls = (d', r, True)" "st_seek D d' n off = None"
  shows "serve_lines D d (ls @ Seek n off # ms) = (d', r, False)"
  using assms(1)
proof (induction ls arbitrary: d r)
  case (Cons l ls)
  then show ?case by (cases l) (auto simp: Let_def split: option.splits prod.splits)
qed (use assms(2) in simp)

text \<open>
  C31. A seek that the driver does not accept ends the connection. Behind any lines of a chunk that
  were served, it releases the file lock and closes the connection; the client has got the replies to
  the lines before it, the device is what those lines made of it, and the lines behind it in the
  buffer are not handled.
\<close>

theorem seek_rejected_hangs_up:
  assumes "calm K" "ioc_ok A" "rewinds L" "c \<noteq> FILE_FD" "good_driver (w_file w)" "a_rest (driver_dev (w_file w)) = []"
    and "\<forall>l\<in>set (ls @ Seek n off # ms). line_ok l" "lines_event (ls @ Seek n off # ms) [] = Chunk bs" "event_ok (Chunk bs)"
    and "serve_lines driver_store (driver_dev (w_file w)) ls = (d, r, True)" "\<not> seek_ok d n off"
  shows "\<exists>w'. handle_chunk (host_io (driver_ops K A L) chunk) FILE_FD c (bs @ 0 # junk) w = Some (Inr (Hang_Up, w')) \<and>
    good_driver (w_file w') \<and> driver_dev (w_file w') = d \<and> s_sent (w_socks w' c) = s_sent (w_socks w c) @ r \<and>
    \<not> w_lock w' \<and> \<not> s_open (w_socks w' c)"
proof -
  let ?V = "host_view driver_dev driver_pos c"
  have "serve_lines driver_store (driver_dev (w_file w)) (ls @ Seek n off # ms) = (d, r, False)"
    using assms(10,11) by (auto intro: serve_lines_stop)
  then obtain q where s: "serve_text driver_store (v_dev (?V w), v_pos (?V w)) (event_text (Chunk bs)) = ((d, q), r, False)"
    using serve_lines_event [OF assms(7), of "[]" driver_store "(v_dev (?V w), v_pos (?V w))" d r False]
    unfolding assms(8) by (auto simp: host_view_def)
  have g: "st_ready driver_store (v_dev (?V w)) (v_pos (?V w))" using assms(6) by (simp add: host_view_def)
  note F = file_device.client_device [OF driver_file_device [OF assms(1-3)] assms(4), of chunk]
  show ?thesis
    using line_device.handle_chunk_served [OF F assms(5) g assms(9) s, of junk] by (auto simp: host_view_def)
qed

theorem seek_rejected_hangs_up_witness:
  "\<exists>w' bs. lines_event ([Data [97, 10]] @ Seek 0 5 # [Data [98, 10]]) [] = Chunk bs \<and>
      handle_chunk (host_io (driver_ops first_fit linux_ioc zero_seek) 0) FILE_FD CONN_FD (bs @ 0 # []) (start_world []) =
      Some (Inr (Hang_Up, w')) \<and> s_sent (w_socks w' CONN_FD) = [97, 10] \<and> \<not> s_open (w_socks w' CONN_FD)"
proof -
  let ?d = "\<lparr>a_cmds = [[97, 10]], a_rest = []\<rparr>" and ?ls = "[Data [97, 10]] @ Seek 0 5 # [Data [98, 10]]"
  obtain bs where bs: "lines_event ?ls [] = Chunk bs" by (simp add: lines_event_def)
  have c: "cmd_ok [97, 10]" "cmd_ok [98, 10]" by (simp_all add: cmd_ok_def newline_def)
  note s = spec_write_cmd [of "\<lparr>a_cmds = [], a_rest = []\<rparr>", OF _ c(1), simplified]
  have ok: "\<forall>l\<in>set ?ls. line_ok l" using c by (simp add: seek_prefix_eq)
  have ev: "event_ok (Chunk bs)"
    unfolding bs [symmetric] by (simp add: lines_event_def BUFFER_SIZE_def seek_prefix_eq dec_digits.simps)
  have r: "serve_lines driver_store (driver_dev (w_file (start_world []))) [Data [97, 10]] = (?d, [97, 10], True)"
    by (simp add: s spec_data_def)
  have n: "\<not> seek_ok ?d 0 5" by (simp add: seek_ok_def)
  show ?thesis
    using seek_rejected_hangs_up [OF calm_first_fit linux_ioc_ok rewinds_zero_seek FILE_CONN _ _ ok bs ev r n, of 0 "[]"] bs by auto
qed

definition peer_gone :: "'f world io \<Rightarrow> 'f world io" where
  "peer_gone io = io\<lparr>io_write := \<lambda>fd bs w. if fd = FILE_FD then io_write io fd bs w else Some (Inr (Inl EOTHER, w))\<rparr>"

text \<open>Sending to a client that has gone: the file is read once and the connection closed.\<close>

lemma peer_gone_hangs_up:
  assumes K: "calm K" and c: "c \<noteq> FILE_FD" and g: "good_driver (w_file w)"
    and v: "driver_pos (w_file w) = 0" "spec_data (driver_dev (w_file w)) \<noteq> []"
  obtains w' where "send_or_hang_up (peer_gone (host_io (driver_ops K A L) chunk)) FILE_FD c w = Some (Inr (Hang_Up, w'))"
    "w_lock w' = w_lock w" "\<not> s_open (w_socks w' c)"
proof -
  let ?io = "peer_gone (host_io (driver_ops K A L) chunk)"
  let ?bs = "spec_read (driver_dev (w_file w)) 0 1024"
  obtain f' where f': "file_read K 1024 (w_file w) = Some (Inr (Inr ?bs, f'))"
    using file_read_ok [OF K g, of 1024] v(1) by auto
  let ?w = "w\<lparr>w_file := f'\<rparr>"
  have bs: "?bs \<noteq> []" using v(2) by (simp add: spec_read_empty)
  have fail: "write_buffer ?io c ?bs ?w = Some (Inr (False, ?w))"
    unfolding write_buffer_def using bs c by (intro run_iter_step) (simp add: peer_gone_def)
  have rd: "io_read ?io FILE_FD BUFFER_SIZE w = Some (Inr (Inr ?bs, ?w))"
    using f' by (simp add: peer_gone_def host_io_def driver_ops_def on_file_def BUFFER_SIZE_def)
  have "send_file ?io FILE_FD c w = Some (Inr (False, ?w))"
    unfolding send_file_def using rd bs fail by (intro run_iter_step) simp
  then show thesis
    by (intro that [of "on_sock c (\<lambda>s. s\<lparr>s_open := False\<rparr>) ?w"])
      (simp_all add: send_or_hang_up_def peer_gone_def host_io_def on_sock_def)
qed

text \<open>
  C32. A client that goes away. When the socket cannot be written any more, the thread closes its
  connection and returns from within the critical section: after any data line on any device in a
  good state the file lock is still held, so that the next thread that needs it waits for ever.
\<close>

theorem lost_client_keeps_lock:
  assumes K: "calm K" "rewinds L" and c: "c \<noteq> FILE_FD" and w: "good_driver (w_file w)" "a_rest (driver_dev (w_file w)) = []"
    and l: "line_ok (Data l)" "length l < 1024" and lk: "\<not> w_lock w" and buf: "length buf = 1024"
  shows "\<exists>w' buf'. locked_chunk (peer_gone (host_io (driver_ops K A L) chunk)) FILE_FD c (Some l) buf w =
      Some (Inr ((Some Thread_Complete, buf'), w')) \<and> w_lock w' \<and> \<not> s_open (w_socks w' c) \<and>
    io_lock (host_io (driver_ops K A L) chunk) w' = Some (Inl Would_Block)"
proof -
  let ?io = "peer_gone (host_io (driver_ops K A L) chunk)" and ?post = "0 # drop (Suc (length l)) buf"
  let ?w1 = "w\<lparr>w_lock := True\<rparr>"
  have lok: "cmd_ok l" "0 \<notin> set l" "take 18 l \<noteq> seek_prefix" using l(1) by simp_all
  have ne: "l \<noteq> []" "newline \<in> set l" "length l - 1 - 0 + 1 = length l" using lok(1) by (auto simp: cmd_ok_iff)
  have s: "cstr (drop 0 (l @ ?post)) = Inr l" using lok(2) by (simp add: cstr_terminated)
  have nl: "strchr (l @ ?post) 0 newline = Inr (Some (length l - 1))"
    using takeWhile_cmd [OF lok(1), of "[]"] ne(2) unfolding strchr_def s by simp
  have seek: "is_seek_line (l @ ?post) 0 (length l) = Inr False"
    using seek_test [OF lok(1), of "[]"] lok(3) unfolding is_seek_line_def s by simp
  have fit: "length (a_rest (driver_dev (w_file w))) + length l < kmalloc_limit" using w(2) l(2) by (simp add: kmalloc_limit_def)
  obtain f2 where f2: "file_write K l (w_file w) = Some (Inr (Inr (length l), f2))" "good_driver f2"
      "driver_dev f2 = spec_write (driver_dev (w_file w)) l"
    using file_write_ok [OF K(1) w(1) fit] by blast
  have wb: "write_buffer ?io FILE_FD l ?w1 = Some (Inr (True, ?w1\<lparr>w_file := f2\<rparr>))"
    using ne(1) f2(1) by (intro write_buffer_once) (simp_all add: peer_gone_def host_io_def driver_ops_def on_file_def)
  obtain f3 where f3: "file_rewind K L f2 = Some (Inr f3)" "good_driver f3" "driver_dev f3 = driver_dev f2" "driver_pos f3 = 0"
    using file_rewind_ok [OF K f2(2)] by blast
  let ?w3 = "?w1\<lparr>w_file := f3\<rparr>"
  have "spec_data (driver_dev f3) \<noteq> []"
    unfolding f3(3) f2(3) spec_write_cmd [OF w(2) lok(1)] using ne(1) lastn_snoc [of 10 "a_cmds (driver_dev (w_file w))" l]
    by (simp add: spec_data_def)
  then obtain w' where hang: "send_or_hang_up ?io FILE_FD c ?w3 = Some (Inr (Hang_Up, w'))" "w_lock w'" "\<not> s_open (w_socks w' c)"
    using peer_gone_hangs_up [OF K(1) c, of ?w3 A L chunk] f3(2,4) by auto
  have "handle_line ?io FILE_FD c (l @ ?post) 0 (length l - 1) ?w1 = Some (Inr (Hang_Up, w'))"
    unfolding handle_line_def Let_def ne(3) seek using wb f3(1) hang(1)
    by (simp add: peer_gone_def host_io_def driver_ops_def)
  then have "handle_chunk ?io FILE_FD c (l @ ?post) ?w1 = Some (Inr (Hang_Up, w'))"
    unfolding handle_chunk_def using nl by (intro run_iter_step) (simp add: chunk_step_def)
  moreover have "store_chunk buf l = Inr (l @ ?post)" using store_chunk_eq [of l buf] l(2) buf by simp
  ultimately have "locked_chunk ?io FILE_FD c (Some l) buf w = Some (Inr ((Some Thread_Complete, l @ ?post), w'))"
    using lk by (simp add: locked_chunk_def peer_gone_def host_io_def)
  then show ?thesis using hang(2,3) by (auto simp: host_io_def)
qed

theorem lost_client_keeps_lock_witness:
  "\<exists>w' buf'. locked_chunk (peer_gone (host_io (driver_ops first_fit linux_ioc zero_seek) 0)) FILE_FD CONN_FD (Some [97, 10])
      (replicate 1024 0) (start_world []) = Some (Inr ((Some Thread_Complete, buf'), w')) \<and> w_lock w'"
proof -
  have l: "line_ok (Data [97, 10])" by (simp add: cmd_ok_def newline_def seek_prefix_eq)
  show ?thesis
    using lost_client_keeps_lock [OF calm_first_fit rewinds_zero_seek FILE_CONN _ _ l, of "start_world []" "replicate 1024 0" linux_ioc 0]
    by auto
qed

text \<open>
  A failed read of the socket that is not a missing input is handled like data: the thread takes
  the lock and stores the terminating zero in front of its buffer, out of its bounds.
\<close>

theorem read_error_out_of_bounds:
  assumes "\<not> io_should_exit io w" "io_read io conn_fd 1023 w = Some (Inr (Inl EOTHER, w1))"
    and "io_lock io w1 = Some (Inr (False, w2))"
  shows "handle_client_connection io file_fd conn_fd w = Some (Inl Out_Of_Bounds)"
  unfolding handle_client_connection_def
  by (rule run_iter_step) (simp add: client_step_def locked_chunk_def BUFFER_SIZE_def assms)

theorem read_error_out_of_bounds_witness:
  "handle_client_connection (host_io (driver_ops first_fit linux_ioc zero_seek) 0) FILE_FD CONN_FD
     (on_sock CONN_FD (\<lambda>s. s\<lparr>s_input := [Inl EOTHER]\<rparr>) (start_world [])) = Some (Inl Out_Of_Bounds)"
  by (rule read_error_out_of_bounds [where ?w1.0 = "start_world []" and ?w2.0 = "(start_world [])\<lparr>w_lock := True\<rparr>"])
    (simp_all add: host_io_def on_sock_def start_world_def start_service_def fun_eq_iff)

text \<open>
  Recognising a seek command. Although the comparison is cut to the length of the line, a line
  of a buffer is taken as a seek command exactly when it starts with the whole command word,
  whatever precedes and follows it.
\<close>

theorem seek_line_recognised:
  assumes "cmd_ok l" "0 \<notin> set l" "0 \<in> set post"
  shows "is_seek_line (pre @ l @ post) (length pre) (length l) = Inr (take (length seek_prefix) l = seek_prefix)"
proof -
  have s: "cstr (drop (length pre) (pre @ l @ post)) = Inr (l @ takeWhile (\<lambda>c. c \<noteq> 0) post)"
    using assms(2,3) by (auto simp: cstr_def takeWhile_append)
  show ?thesis using seek_test [OF assms(1)] seek_prefix_props(1) unfolding is_seek_line_def s by simp
qed

theorem seek_line_recognised_witness:
  "is_seek_line ([120] @ [65, 69, 10] @ [0]) (length [120 :: byte]) (length [65 :: byte, 69, 10]) = Inr False"
  using seek_line_recognised [of "[65, 69, 10]" "[0]" "[120]"] by (simp add: cmd_ok_def newline_def seek_prefix_eq)

text \<open>
  C33. Reading back a seek command: the two numbers of a command printed in decimal are the ones
  handed to the driver, for all 32-bit values and wherever the line is in the buffer.
\<close>

theorem seek_command_roundtrip:
  assumes "n < 2 ^ 32" "off < 2 ^ 32" "0 \<in> set post"
  shows "parse_seek (pre @ line_bytes (Seek n off) @ post) (length pre) =
    Inr (Some \<lparr>write_cmd = of_nat n, write_cmd_offset = of_nat off\<rparr>)"
proof -
  have s: "cstr (drop (length pre) (pre @ line_bytes (Seek n off) @ post)) =
      Inr (line_bytes (Seek n off) @ takeWhile (\<lambda>c. c \<noteq> 0) post)"
    using assms(3) seek_line_cmd_ok(2) [of n off] by (auto simp: cstr_def takeWhile_append)
  show ?thesis using parse_seek_line [OF assms(1,2)] unfolding parse_seek_def s by simp
qed

theorem seek_command_roundtrip_witness:
  "parse_seek ([] @ line_bytes (Seek 12 7) @ [0]) 0 = Inr (Some \<lparr>write_cmd = 12, write_cmd_offset = 7\<rparr>)"
  using seek_command_roundtrip [of 12 7 "[0]" "[]"] by simp

text \<open>
  A seek command without numbers takes them from the next line: white space is skipped before a
  number, and a newline is white space.
\<close>

theorem seek_reads_next_line:
  "parse_seek (seek_prefix @ [58, newline] @ dec_digits 1 @ [44] @ dec_digits 2 @ [newline, 0]) 0 =
    Inr (Some \<lparr>write_cmd = 1, write_cmd_offset = 2\<rparr>)"
  by (simp add: parse_seek_def cstr_def seek_prefix_eq newline_def dec_digits.simps sscanf_lit_d_d_def scan_lit_def
      scan_long_def isspace_def isdigit_def dec_value_def long_clamp_def Let_def)

end
