(* ===== verification/Socket_Steps.thy ===== *)
theory Socket_Steps
  imports Socket_Client
begin

text \<open>
  The threads of the server in steps between which another thread may run. The handler of a connection is
  cut where it waits for the file lock, after every line and where it releases the lock; the timer
  thread where it waits for the lock, before its write and before the unlock. Alone, the steps are the
  threads of \<open>Socket_Client\<close>: \<open>steps_are_handler\<close> and \<open>steps_are_timer_round\<close>.
\<close>

section \<open>The handler of a connection\<close>

text \<open>
  A thread is at the start of its loop, at the lock with the bytes it has read (none after a failed read), in the loop over
  the lines, at the unlock, or it has ended; the buffer is its own.
\<close>

datatype tstate =
    T_Loop "byte list"
  | T_Chunk "byte list" "byte list option"
  | T_Lines "byte list" nat
  | T_Unlock "byte list"
  | T_End thread_end

fun thread_step :: "'w io \<Rightarrow> int \<Rightarrow> int \<Rightarrow> tstate \<Rightarrow> 'w \<Rightarrow> (tstate \<times> 'w) run" where
  "thread_step io file_fd conn_fd (T_Loop buf) w =
     (if io_should_exit io w
      then rbind (io_close io conn_fd w) (\<lambda>w1. Some (Inr (T_End Thread_Complete, w1)))
      else rbind (io_read io conn_fd (BUFFER_SIZE - 1) w) (\<lambda>(r, w1).
        case r of
          Inl EAGAIN \<Rightarrow> rbind (io_usleep io 1000000 w1) (\<lambda>w2. Some (Inr (T_Loop buf, w2)))
        | Inl EOTHER \<Rightarrow> Some (Inr (T_Chunk buf None, w1))
        | Inr bs \<Rightarrow>
            if bs = [] then rbind (io_close io conn_fd w1) (\<lambda>w2. Some (Inr (T_End Thread_Complete, w2)))
            else Some (Inr (T_Chunk buf (Some bs), w1))))"
| "thread_step io file_fd conn_fd (T_Chunk buf bytes) w =
     rbind (io_lock io w) (\<lambda>(failed, w1).
       if failed then Some (Inr (T_End (Process_Exit 1), w1))
       else rbind (Some (case bytes of None \<Rightarrow> Inl Out_Of_Bounds | Some bs \<Rightarrow> store_chunk buf bs)) (\<lambda>buf'.
            Some (Inr (T_Lines buf' 0, w1))))"
| "thread_step io file_fd conn_fd (T_Lines buf prev) w =
     rbind (chunk_step io file_fd conn_fd buf (prev, w)) (\<lambda>r.
       Some (Inr (case r of
           Inl (prev', w1) \<Rightarrow> (T_Lines buf prev', w1)
         | Inr (e, w1) \<Rightarrow> (case e of Next_Line \<Rightarrow> T_Unlock buf | Hang_Up \<Rightarrow> T_End Thread_Complete, w1))))"
| "thread_step io file_fd conn_fd (T_Unlock buf) w =
     rbind (io_unlock io w) (\<lambda>(failed, w1).
       Some (Inr (if failed then T_End (Process_Exit 1) else T_Loop buf, w1)))"
| "thread_step io file_fd conn_fd (T_End e) w = Some (Inr (T_End e, w))"

fun ended :: "tstate \<Rightarrow> bool" where
  "ended (T_End e) = True"
| "ended _ = False"

definition thread_alone ::
  "'w io \<Rightarrow> int \<Rightarrow> int \<Rightarrow> tstate \<times> 'w \<Rightarrow> ((tstate \<times> 'w) + (thread_end \<times> 'w)) run" where
  "thread_alone io file_fd conn_fd = (\<lambda>(t, w).
     case t of
       T_End e \<Rightarrow> Some (Inr (Inr (e, w)))
     | _ \<Rightarrow> rbind (thread_step io file_fd conn_fd t w) (\<lambda>x. Some (Inr (Inl x))))"

section \<open>Alone, the steps are the handler\<close>

lemma alone_end: "run_iter (thread_alone io f c) (T_End e, w) = Some (Inr (e, w))"
  by (intro run_iter_step) (simp add: thread_alone_def)

lemma alone_step:
  assumes "\<not> ended t"
  shows "run_iter (thread_alone io f c) (t, w) = rbind (thread_step io f c t w) (run_iter (thread_alone io f c))"
proof -
  have "thread_alone io f c (t, w) = rbind (thread_step io f c t w) (\<lambda>x. Some (Inr (Inl x)))"
    using assms by (cases t) (simp_all add: thread_alone_def)
  then show ?thesis by (simp add: run_iter_unfold [of _ "(t, w)"] rbind_def split: option.split sum.split)
qed

text \<open>What is left of the handler in each state.\<close>

definition after_lines :: "'w io \<Rightarrow> byte list \<Rightarrow> (byte list \<times> 'w \<Rightarrow> (thread_end \<times> 'w) run) \<Rightarrow> line_end \<times> 'w \<Rightarrow> (thread_end \<times> 'w) run" where
  "after_lines io buf loop = (\<lambda>(e, w).
     case e of
       Hang_Up \<Rightarrow> Some (Inr (Thread_Complete, w))
     | Next_Line \<Rightarrow> rbind (io_unlock io w) (\<lambda>(failed, w1).
         if failed then Some (Inr (Process_Exit 1, w1)) else loop (buf, w1)))"

definition after_read :: "'w io \<Rightarrow> int \<Rightarrow> int \<Rightarrow> byte list \<Rightarrow> byte list option \<Rightarrow> (byte list \<times> 'w \<Rightarrow> (thread_end \<times> 'w) run) \<Rightarrow> 'w \<Rightarrow> (thread_end \<times> 'w) run" where
  "after_read io file_fd conn_fd buf bytes loop w =
     rbind (locked_chunk io file_fd conn_fd bytes buf w) (\<lambda>((e, buf'), w2).
       case e of Some t \<Rightarrow> Some (Inr (t, w2)) | None \<Rightarrow> loop (buf', w2))"

fun resume :: "'w io \<Rightarrow> int \<Rightarrow> int \<Rightarrow> (byte list \<times> 'w \<Rightarrow> (thread_end \<times> 'w) run) \<Rightarrow> tstate \<times> 'w \<Rightarrow> (thread_end \<times> 'w) run" where
  "resume io f c loop (T_Loop buf, w) = loop (buf, w)"
| "resume io f c loop (T_Chunk buf bytes, w) = after_read io f c buf bytes loop w"
| "resume io f c loop (T_Lines buf prev, w) = rbind (run_iter (chunk_step io f c buf) (prev, w)) (after_lines io buf loop)"
| "resume io f c loop (T_Unlock buf, w) = after_lines io buf loop (Next_Line, w)"
| "resume io f c loop (T_End e, w) = Some (Inr (e, w))"

lemma after_read_lines:
  "after_read io f c buf bytes loop w =
     rbind (io_lock io w) (\<lambda>(failed, w1).
       if failed then Some (Inr (Process_Exit 1, w1))
       else rbind (Some (case bytes of None \<Rightarrow> Inl Out_Of_Bounds | Some bs \<Rightarrow> store_chunk buf bs)) (\<lambda>buf'.
            rbind (handle_chunk io f c buf' w1) (after_lines io buf' loop)))"
  by (auto simp: after_read_def locked_chunk_def after_lines_def rbind_def
      split: option.splits sum.splits prod.splits line_end.splits)

lemma client_step_loop:
  "rbind (client_step io f c (buf, w)) (\<lambda>x. case x of Inl s \<Rightarrow> loop s | Inr r \<Rightarrow> Some (Inr r)) =
     rbind (thread_step io f c (T_Loop buf) w) (resume io f c loop)"
proof (cases "io_should_exit io w")
  case True
  then show ?thesis by (simp add: client_step_def rbind_assoc)
next
  case False
  have lk: "rbind (rbind (locked_chunk io f c bytes buf w1) (\<lambda>((e, buf'), w2).
        case e of Some t \<Rightarrow> Some (Inr (Inr (t, w2))) | None \<Rightarrow> Some (Inr (Inl (buf', w2)))))
      (\<lambda>x. case x of Inl s \<Rightarrow> loop s | Inr r \<Rightarrow> Some (Inr r)) = after_read io f c buf bytes loop w1" for bytes w1
    unfolding after_read_def rbind_assoc by (rule arg_cong [of _ _ "rbind _"]) (auto split: option.split)
  show ?thesis
  proof (cases "io_read io c (BUFFER_SIZE - 1) w" rule: run_cases)
    case (3 x)
    then obtain r w1 where x: "io_read io c (BUFFER_SIZE - 1) w = Some (Inr (r, w1))" by (cases x) simp
    show ?thesis
    proof (cases r)
      case (Inl e)
      then show ?thesis using x False by (cases e) (simp_all add: client_step_def rbind_assoc Let_def lk [unfolded rbind_assoc])
    next
      case (Inr bs)
      then show ?thesis using x False by (simp add: client_step_def rbind_assoc Let_def lk [unfolded rbind_assoc])
    qed
  qed (use False in \<open>simp_all add: client_step_def\<close>)
qed

lemma resume_step:
  assumes "\<And>s. loop s = rbind (client_step io f c s) (\<lambda>x. case x of Inl s' \<Rightarrow> loop s' | Inr r \<Rightarrow> Some (Inr r))"
    and "\<not> ended t"
  shows "resume io f c loop (t, w) = rbind (thread_step io f c t w) (resume io f c loop)"
proof (cases t)
  case (T_Loop buf)
  then show ?thesis using assms(1) [of "(buf, w)"] client_step_loop [of io f c buf w loop] by simp
next
  case (T_Chunk buf bytes)
  then show ?thesis
    by (auto simp: after_read_lines handle_chunk_def rbind_def split: option.splits sum.splits prod.splits)
next
  case (T_Lines buf prev)
  then show ?thesis
    by (auto simp: run_iter_unfold [of _ "(prev, w)"] after_lines_def rbind_def
        split: option.splits sum.splits prod.splits line_end.splits)
next
  case (T_Unlock buf)
  then show ?thesis by (auto simp: after_lines_def rbind_def split: option.splits sum.splits prod.splits)
qed (use assms(2) in simp)

lemma alone_lines:
  "run_iter (thread_alone io f c) (T_Lines buf prev, w) =
     rbind (run_iter (chunk_step io f c buf) (prev, w)) (\<lambda>(e, w1).
       run_iter (thread_alone io f c) (case e of Next_Line \<Rightarrow> T_Unlock buf | Hang_Up \<Rightarrow> T_End Thread_Complete, w1))"
proof -
  let ?emb = "\<lambda>(prev, w). (T_Lines buf prev, w)"
    and ?fin = "\<lambda>(e, w1). (case e of Next_Line \<Rightarrow> T_Unlock buf | Hang_Up \<Rightarrow> T_End Thread_Complete, w1)"
  have "thread_alone io f c (?emb x) = rbind (chunk_step io f c buf x) (\<lambda>y. Some (Inr (Inl (case y of Inl z \<Rightarrow> ?emb z | Inr r \<Rightarrow> ?fin r))))" for x
    by (cases x) (simp add: thread_alone_def rbind_assoc)
  from run_iter_inside [where outer = "thread_alone io f c" and emb = ?emb and fin = ?fin, OF this, of "(prev, w)"]
  show ?thesis by (simp add: split_def)
qed

lemma alone_resume:
  "run_iter (thread_alone io f c) x = resume io f c (\<lambda>(buf, w). run_iter (thread_alone io f c) (T_Loop buf, w)) x"
proof -
  let ?out = "run_iter (thread_alone io f c)" and ?loop = "\<lambda>(buf, w). run_iter (thread_alone io f c) (T_Loop buf, w)"
  have u: "?out (T_Unlock buf, w) = after_lines io buf ?loop (Next_Line, w)" for buf w
    by (simp add: alone_step [of "T_Unlock _"] after_lines_def rbind_assoc split_def)
      (rule arg_cong [of _ _ "rbind _"], auto simp: alone_end)
  have l: "?out (T_Lines buf prev, w) = rbind (run_iter (chunk_step io f c buf) (prev, w)) (after_lines io buf ?loop)" for buf prev w
    unfolding alone_lines
    by (rule arg_cong [of _ _ "rbind _"]) (auto simp: u alone_end after_lines_def split: line_end.split)
  have "?out (T_Chunk buf bytes, w) = after_read io f c buf bytes ?loop w" for buf bytes w
    unfolding after_read_lines handle_chunk_def
    by (simp add: alone_step [of "T_Chunk _ _"] rbind_assoc split_def)
      (rule arg_cong [of _ _ "rbind _"], auto simp: l alone_end rbind_assoc)
  then show ?thesis using u l alone_end by (cases "(io, f, c, ?loop, x)" rule: resume.cases) simp_all
qed


section \<open>The timer\<close>

text \<open>The line of a round is fixed when the round starts: \<open>stamp\<close> is what \<^verbatim>\<open>strftime\<close> gives in it.\<close>

datatype mstate =
    M_Idle
  | M_Write "byte list"
  | M_Unlock
  | M_End thread_end

fun timer_thread_step :: "'w io \<Rightarrow> int \<Rightarrow> byte list \<Rightarrow> mstate \<Rightarrow> 'w \<Rightarrow> (mstate \<times> 'w) run" where
  "timer_thread_step io file_fd stamp M_Idle w =
     (if io_should_exit io w then Some (Inr (M_End Thread_Complete, w))
      else rbind (io_lock io w) (\<lambda>(failed, w1).
        Some (Inr (if failed then M_End (Process_Exit 1) else M_Write stamp, w1))))"
| "timer_thread_step io file_fd stamp (M_Write line) w =
     rbind (io_write io file_fd (timer_preamble @ line) w) (\<lambda>(_, w1). Some (Inr (M_Unlock, w1)))"
| "timer_thread_step io file_fd stamp M_Unlock w =
     rbind (io_unlock io w) (\<lambda>(failed, w1).
       if failed then Some (Inr (M_End (Process_Exit 1), w1))
       else rbind (io_usleep io 10000000 w1) (\<lambda>w2. Some (Inr (M_Idle, w2))))"
| "timer_thread_step io file_fd stamp (M_End e) w = Some (Inr (M_End e, w))"

text \<open>A round of the timer is up to three steps.\<close>

definition timer_goes_on :: "mstate \<times> 'w \<Rightarrow> (mstate \<times> 'w \<Rightarrow> ('w + (thread_end \<times> 'w)) run) \<Rightarrow> ('w + (thread_end \<times> 'w)) run" where
  "timer_goes_on = (\<lambda>(m, w) k. case m of M_End e \<Rightarrow> Some (Inr (Inr (e, w))) | _ \<Rightarrow> k (m, w))"

lemma steps_are_timer_round:
  "timer_step io file_fd stamp w =
     rbind (timer_thread_step io file_fd stamp M_Idle w) (\<lambda>x. timer_goes_on x (\<lambda>(m, w1).
     rbind (timer_thread_step io file_fd stamp m w1) (\<lambda>x. timer_goes_on x (\<lambda>(m, w2).
     rbind (timer_thread_step io file_fd stamp m w2) (\<lambda>x. timer_goes_on x (\<lambda>(m, w3). Some (Inr (Inl w3))))))))"
proof (cases "io_should_exit io w")
  case True
  then show ?thesis by (simp add: timer_step_def timer_goes_on_def)
next
  case False
  then show ?thesis
    by (auto simp: timer_step_def timer_goes_on_def rbind_def split: option.split sum.split prod.split)
qed

end
