(* ===== verification/Socket_File.thy ===== *)
theory Socket_File
  imports Socket_Host "HOL-Library.Sublist"
begin

text \<open>
  The server built without the driver (\<^verbatim>\<open>USE_AESD_CHAR_DEVICE == 0\<close>): the lines are kept in a regular file
  and a timer thread adds a time stamp every ten seconds. \<^verbatim>\<open>main\<close> opens the file without \<^verbatim>\<open>O_APPEND\<close>, and
  the calls that would move to its end are commented out in the handler, so that lines are written
  at the one file position all threads share. The theorems show that this position is at the end of
  the file whenever the lock is free, which makes the file grow line by line, and that it is not when
  the server starts on a file that was left over.
\<close>

section \<open>A regular file\<close>

record plain_file =
  pf_bytes :: "byte list"
  pf_off :: nat

definition write_at :: "nat \<Rightarrow> byte list \<Rightarrow> byte list \<Rightarrow> byte list" where
  "write_at off bs d = take off d @ replicate (off - length d) 0 @ bs @ drop (off + length bs) d"

text \<open>Reads and writes at the position, no seek commands, and the rewind.\<close>

definition plain_ops :: "plain_file file_ops" where
  "plain_ops =
     \<lparr>fo_read = \<lambda>n f. let bs = take n (drop (pf_off f) (pf_bytes f))
        in Some (Inr (Inr bs, f\<lparr>pf_off := pf_off f + length bs\<rparr>)),
      fo_write = \<lambda>bs f. Some (Inr (Inr (length bs),
        f\<lparr>pf_bytes := write_at (pf_off f) bs (pf_bytes f), pf_off := pf_off f + length bs\<rparr>)),
      fo_ioctl = \<lambda>seekto f. Some (Inr (False, f)),
      fo_rewind = \<lambda>f. Some (Inr (f\<lparr>pf_off := 0\<rparr>))\<rparr>"

definition plain_store :: "byte list store" where
  "plain_store =
     \<lparr>st_put = \<lambda>d l. d @ l, st_next = \<lambda>p l. p + length l, st_data = \<lambda>d. d, st_part = \<lambda>d p n. take n (drop p d), st_seek = \<lambda>d n off. None,
      st_ready = \<lambda>d p. p = length d\<rparr>"

lemma plain_store_sel [simp]:
  "st_put plain_store d l = d @ l" "st_next plain_store p l = p + length l" "st_data plain_store d = d" "st_part plain_store d p n = take n (drop p d)"
  "st_seek plain_store d n off = None" "st_ready plain_store d p \<longleftrightarrow> p = length d"
  by (simp_all add: plain_store_def)

lemma drop_past_take: "drop (p + min (length d - p) n) d = drop n (drop p d)"
  by (cases "n \<le> length d - p") (simp_all add: min_def add.commute)

lemma take_drop_rest: "take n (drop p d) @ drop (n + p) d = drop p d"
  by (metis append_take_drop_id drop_drop)

interpretation plain: file_device plain_store plain_ops "\<lambda>f. True" pf_bytes pf_off
  by unfold_locales (auto simp: plain_ops_def write_at_def Let_def drop_past_take take_drop_rest)

section \<open>Properties\<close>

text \<open>Turns only add to the file.\<close>

lemma serve_line_grow: "serve_line plain_store x t = Some (y, r) \<Longrightarrow> prefix (fst x) (fst y)"
  by (auto simp: serve_line_def Let_def split: if_splits option.splits)

lemma serve_text_grow: "prefix (fst x) (fst (fst (serve_text plain_store x t)))"
proof (induction plain_store x t rule: serve_text.induct)
  case (1 x t)
  show ?case
  proof (cases "newline \<in> set t \<and> serve_line plain_store x t \<noteq> None")
    case True
    then obtain y r where y: "newline \<in> set t" "serve_line plain_store x t = Some (y, r)" by auto
    have "prefix (fst y) (fst (fst (serve_text plain_store y (drop (length (line_of t)) t))))"
      using 1 y by (cases y) auto
    then have "prefix (fst y) (fst (fst (serve_text plain_store x t)))"
      using y unfolding serve_text.simps [of _ x t] by (auto split: prod.split)
    then show ?thesis using serve_line_grow [OF y(2)] by (rule prefix_order.trans [rotated])
  next
    case False
    then consider "newline \<notin> set t" | "newline \<in> set t" "serve_line plain_store x t = None" by blast
    then show ?thesis by cases (simp_all add: serve_text.simps [of _ x t])
  qed
qed

lemma spec_turn_grow: "prefix (fst (ss_store S)) (fst (ss_store (spec_turn plain_store S t)))"
proof (cases t)
  case (Client c)
  then show ?thesis
    using serve_text_grow [of "ss_store S"] by (auto split: list.splits prod.splits) (metis fst_conv)
qed (simp add: Let_def)

lemma spec_turns_grow: "prefix (fst (ss_store S)) (fst (ss_store (foldl (spec_turn plain_store) S ts)))"
  by (induction ts arbitrary: S) (auto intro: prefix_order.trans [OF spec_turn_grow])

text \<open>
  Timer and connections on a regular file. From a file whose position is at its end, the timer
  thread and the threads of any number of connections, with whatever bytes their clients send, take
  turns in any order. Nothing faults or blocks and the file lock is free after every turn; the
  position is at the end again and the file is what it was, followed by the time stamps and data
  lines in the order of the turns, without any byte overwritten. Each client has got the whole file,
  as of its turn, after each of its data lines. A connection that sends a complete seek command, or
  that had a turn for each chunk and one more, is closed.
\<close>

theorem timer_and_clients_interleave:
  assumes "pf_off f = length (pf_bytes f)" "\<forall>c. \<forall>e\<in>set (evs c). event_ok e"
    and "\<forall>t\<in>set ts. turn_ok (start_service True f clients evs) t"
  shows "\<exists>s'. run_turns (host_io plain_ops chunk) ts (start_service True f clients evs) = Some (Inr s') \<and>
    \<not> w_lock (sv_world s') \<and> prefix (pf_bytes f) (pf_bytes (w_file (sv_world s'))) \<and>
    pf_off (w_file (sv_world s')) = length (pf_bytes (w_file (sv_world s'))) \<and>
    (let S = foldl (spec_turn plain_store) (start_spec (pf_bytes f, pf_off f) clients evs) ts
     in pf_bytes (w_file (sv_world s')) = fst (ss_store S) \<and>
       (\<forall>c. c \<noteq> FILE_FD \<longrightarrow> s_sent (w_socks (sv_world s') c) = ss_sent S c \<and>
          (length (evs c) < count_list ts (Client c) \<longrightarrow> \<not> s_open (w_socks (sv_world s') c))))"
proof -
  let ?S = "foldl (spec_turn plain_store) (start_spec (pf_bytes f, pf_off f) clients evs) ts"
  obtain s' where s': "run_turns (host_io plain_ops chunk) ts (start_service True f clients evs) = Some (Inr s')"
      "serves plain_store (\<lambda>f. True) pf_bytes pf_off s' ?S"
    using plain.turns_served [OF serves_start assms(3), of chunk] assms(1,2) by auto
  have b: "fst (ss_store ?S) = pf_bytes (w_file (sv_world s'))" using s'(2) by (simp add: serves_def)
  have "prefix (pf_bytes f) (fst (ss_store ?S))"
    using spec_turns_grow [of "start_spec (pf_bytes f, pf_off f) clients evs" ts] by (simp add: start_spec_def)
  moreover have "\<not> ss_live ?S c" if "length (evs c) < count_list ts (Client c)" for c
    using live_turns [of plain_store "start_spec (pf_bytes f, pf_off f) clients evs" ts c] that by (auto simp: start_spec_def)
  ultimately show ?thesis
    using s' unfolding b by (intro exI [of _ s']) (auto simp: serves_def Let_def)
qed

theorem timer_and_clients_interleave_witness:
  "\<exists>s'. run_turns (host_io plain_ops 0) [Client 4, Tick [49, 10], Client 5]
      (start_service True \<lparr>pf_bytes = [], pf_off = 0\<rparr> {4, 5} (\<lambda>c. [Chunk [97, 10]])) = Some (Inr s') \<and>
     pf_bytes (w_file (sv_world s')) = [97, 10] @ (timer_preamble @ [49, 10]) @ [97, 10] \<and>
     s_sent (w_socks (sv_world s') 4) = [97, 10]"
proof -
  let ?f = "\<lparr>pf_bytes = [], pf_off = 0\<rparr>" and ?evs = "\<lambda>c :: int. [Chunk [97, 10]]"
  let ?ts = "[Client 4, Tick [49, 10], Client 5]"
  let ?S = "foldl (spec_turn plain_store) (start_spec ([], 0) {4, 5} ?evs) ?ts"
  have f: "pf_off ?f = length (pf_bytes ?f)" by simp
  have ev: "\<forall>c. \<forall>e\<in>set (?evs c). event_ok e" by (simp add: BUFFER_SIZE_def)
  have ts: "\<forall>t\<in>set ?ts. turn_ok (start_service True ?f {4, 5} ?evs) t" "4 \<noteq> FILE_FD"
    by (simp_all add: FILE_FD_def start_service_def cmd_ok_def newline_def)
  have S: "fst (ss_store ?S) = [97, 10] @ (timer_preamble @ [49, 10]) @ [97, 10]" "ss_sent ?S 4 = [97, 10]"
    by (simp_all add: start_spec_def Let_def serve_text.simps serve_line_def line_of_def newline_def seek_prefix_eq)
  from timer_and_clients_interleave [OF f ev ts(1), of 0]
  obtain s' where s': "run_turns (host_io plain_ops 0) ?ts (start_service True ?f {4, 5} ?evs) = Some (Inr s')"
    and x: "pf_bytes (w_file (sv_world s')) = fst (ss_store ?S)"
      "\<forall>c. c \<noteq> FILE_FD \<longrightarrow> s_sent (w_socks (sv_world s') c) = ss_sent ?S c"
    unfolding Let_def plain_file.simps by blast
  show ?thesis using s' x(1) x(2) [rule_format, OF ts(2)] unfolding S by blast
qed

text \<open>
  Starting on a file that was left over, which \<^verbatim>\<open>main\<close> opens at its beginning: the first time stamp
  overwrites the start of the old contents and leaves the rest behind it.
\<close>

theorem leftover_file_overwritten:
  assumes "\<not> w_lock w" "pf_off (w_file w) = 0"
  shows "\<exists>w'. timer_step (host_io plain_ops chunk) FILE_FD stamp w = Some (Inr (Inl w')) \<and> \<not> w_lock w' \<and>
    pf_bytes (w_file w') = (timer_preamble @ stamp) @ drop (length (timer_preamble @ stamp)) (pf_bytes (w_file w)) \<and>
    pf_off (w_file w') = length (timer_preamble @ stamp)"
  using assms by (simp add: timer_step_def host_io_def on_file_def plain_ops_def write_at_def)

text \<open>
  The timer thread ends: when the flag \<^verbatim>\<open>should_exit\<close> is set after any number of rounds, it returns at the
  start of the next one, with the state those rounds left.
\<close>

theorem timer_returns:
  assumes "\<forall>i<n. timer_step io file_fd (stamps i) (ws i) = Some (Inr (Inl (ws (Suc i))))" "io_should_exit io (ws n)"
  shows "timer io file_fd stamps (ws 0) = Some (Inr (Thread_Complete, ws n))"
proof -
  let ?b = "\<lambda>(i, w). rbind (timer_step io file_fd (stamps i) w) (\<lambda>r.
       case r of Inl w' \<Rightarrow> Some (Inr (Inl (Suc i, w'))) | Inr e \<Rightarrow> Some (Inr (Inr e)))"
  have "run_iter ?b (n - k, ws (n - k)) = Some (Inr (Thread_Complete, ws n))" if "k \<le> n" for k
    using that
  proof (induction k)
    case 0
    show ?case using assms(2) by (intro run_iter_step) (simp add: timer_step_def)
  next
    case (Suc k)
    then have "n - Suc k < n" "Suc (n - Suc k) = n - k" by simp_all
    then have "run_iter ?b (n - Suc k, ws (n - Suc k)) = run_iter ?b (n - k, ws (n - k))"
      using assms(1) by (intro run_iter_step) simp
    then show ?case using Suc by simp
  qed
  from this [of n] show ?thesis by (simp add: timer_def)
qed

end
