(* ===== verification/Thread_Relation.thy ===== *)
theory Thread_Relation
  imports Socket_Steps Socket_Device Socket_File
begin

text \<open>
  All threads of the server as one state, the executions in which they interleave at their steps, and the
  relation of these states to those of the abstract service of \<open>Socket_Host\<close>, with the conditions under which a
  step keeps it.
\<close>

section \<open>All threads\<close>

record 'w threads =
  th_world :: 'w
  th_client :: "int \<Rightarrow> tstate"
  th_timer :: mstate
  th_exit :: "int option"

fun exit_status :: "thread_end \<Rightarrow> int option" where
  "exit_status Thread_Complete = None"
| "exit_status (Process_Exit status) = Some status"

text \<open>One step of a thread. When a thread ends the process, no other goes on.\<close>

fun th_do :: "'w io \<Rightarrow> turn \<Rightarrow> 'w threads \<Rightarrow> 'w threads run" where
  "th_do io (Client c) s =
     (if th_exit s \<noteq> None then Some (Inr s)
      else rbind (thread_step io FILE_FD c (th_client s c) (th_world s)) (\<lambda>(t, w).
        Some (Inr (s\<lparr>th_world := w, th_client := (th_client s)(c := t),
          th_exit := (case t of T_End e \<Rightarrow> exit_status e | _ \<Rightarrow> None)\<rparr>))))"
| "th_do io (Tick stamp) s =
     (if th_exit s \<noteq> None then Some (Inr s)
      else rbind (timer_thread_step io FILE_FD stamp (th_timer s) (th_world s)) (\<lambda>(m, w).
        Some (Inr (s\<lparr>th_world := w, th_timer := m,
          th_exit := (case m of M_End e \<Rightarrow> exit_status e | _ \<Rightarrow> None)\<rparr>))))"

fun th_run :: "'w io \<Rightarrow> turn list \<Rightarrow> 'w threads \<Rightarrow> 'w threads run" where
  "th_run io [] s = Some (Inr s)"
| "th_run io (t # ts) s = rbind (th_do io t s) (th_run io ts)"

definition start_threads :: "bool \<Rightarrow> 'f \<Rightarrow> int set \<Rightarrow> (int \<Rightarrow> net_event list) \<Rightarrow> 'f world threads" where
  "start_threads timed f clients evs =
     \<lparr>th_world = sv_world (start_service timed f clients evs),
      th_client = \<lambda>c. if c \<in> clients then T_Loop (replicate BUFFER_SIZE 0) else T_End Thread_Complete,
      th_timer = if timed then M_Idle else M_End Thread_Complete, th_exit = None\<rparr>"

text \<open>The line of the timer is a line of at most 62 bytes with its end.\<close>

fun step_allowed :: "turn \<Rightarrow> bool" where
  "step_allowed (Client c) = True"
| "step_allowed (Tick stamp) \<longleftrightarrow> cmd_ok stamp \<and> length stamp < 52"

text \<open>
  A connection takes its turn when it takes the lock, and in a round in which it does not need it; the timer when it
  takes the lock. An execution keeps the turns in their order.
\<close>

fun takes_turn :: "tstate \<Rightarrow> tstate \<Rightarrow> bool" where
  "takes_turn (T_Loop buf) (T_Chunk buf' bytes) = False"
| "takes_turn (T_Loop buf) t' = True"
| "takes_turn (T_Chunk buf bytes) t' = True"
| "takes_turn _ t' = False"

fun takes_tick :: "mstate \<Rightarrow> mstate \<Rightarrow> bool" where
  "takes_tick M_Idle (M_Write line) = True"
| "takes_tick _ m' = False"

fun turn_taken :: "turn \<Rightarrow> 'w threads \<Rightarrow> 'w threads \<Rightarrow> turn list" where
  "turn_taken (Client c) s s' = (if takes_turn (th_client s c) (th_client s' c) then [Client c] else [])"
| "turn_taken (Tick stamp) s s' = (if takes_tick (th_timer s) (th_timer s') then [Tick stamp] else [])"

inductive th_reach :: "'w io \<Rightarrow> 'w threads \<Rightarrow> turn list \<Rightarrow> 'w threads \<Rightarrow> bool" for io s0 where
  th_init: "th_reach io s0 [] s0"
| th_next: "th_reach io s0 ts s \<Longrightarrow> step_allowed t \<Longrightarrow> th_do io t s = Some (Inr s') \<Longrightarrow>
    th_reach io s0 (ts @ turn_taken t s s') s'"

section \<open>The relation to the abstract service\<close>

text \<open>
  \<open>x\<close> is the store with its position, \<open>y\<close> that of the abstract service. They differ only while a thread holds the lock, by
  what this thread has still to do. A chunk that has been read and not yet handled is still pending.
\<close>

fun t_holds :: "tstate \<Rightarrow> bool" where
  "t_holds (T_Lines buf prev) = True"
| "t_holds (T_Unlock buf) = True"
| "t_holds _ = False"

fun m_holds :: "mstate \<Rightarrow> bool" where
  "m_holds (M_Write line) = True"
| "m_holds M_Unlock = True"
| "m_holds _ = False"

definition thread_holds :: "'w threads \<Rightarrow> int option \<Rightarrow> bool" where
  "thread_holds s i = (case i of None \<Rightarrow> m_holds (th_timer s) | Some c \<Rightarrow> t_holds (th_client s c))"

fun client_rel :: "'d store \<Rightarrow> 'd \<times> nat \<Rightarrow> 'd \<times> nat \<Rightarrow> net_event list \<Rightarrow> byte list \<Rightarrow> bool \<Rightarrow> socket \<Rightarrow> tstate \<Rightarrow> bool" where
  "client_rel D x y pend sent live sk (T_Loop buf) \<longleftrightarrow> length buf = BUFFER_SIZE \<and> live \<and>
     sk = \<lparr>s_input = map event_input pend, s_sent = sent, s_open = True\<rparr>"
| "client_rel D x y pend sent live sk (T_Chunk buf bytes) \<longleftrightarrow> length buf = BUFFER_SIZE \<and> live \<and>
     (\<exists>bs es. bytes = Some bs \<and> pend = Chunk bs # es \<and> sk = \<lparr>s_input = map event_input es, s_sent = sent, s_open = True\<rparr>)"
| "client_rel D x y pend sent live sk (T_Lines buf prev) \<longleftrightarrow> length buf = BUFFER_SIZE \<and>
     (\<exists>pre t junk r u. buf = pre @ t @ 0 # junk \<and> prev = length pre \<and> 0 \<notin> set pre \<and> 0 \<notin> set t \<and> length t \<le> 1023 \<and>
        serve_text D x t = (y, r, live) \<and> sent = u @ r \<and> sk = \<lparr>s_input = map event_input pend, s_sent = u, s_open = True\<rparr>)"
| "client_rel D x y pend sent live sk (T_Unlock buf) \<longleftrightarrow> length buf = BUFFER_SIZE \<and> live \<and> x = y \<and>
     sk = \<lparr>s_input = map event_input pend, s_sent = sent, s_open = True\<rparr>"
| "client_rel D x y pend sent live sk (T_End e) \<longleftrightarrow> e = Thread_Complete \<and> \<not> live \<and>
     sk = \<lparr>s_input = map event_input pend, s_sent = sent, s_open = False\<rparr>"

fun timer_rel :: "'d store \<Rightarrow> 'd \<times> nat \<Rightarrow> 'd \<times> nat \<Rightarrow> mstate \<Rightarrow> bool" where
  "timer_rel D x y M_Idle = True"
| "timer_rel D x y (M_Write line) \<longleftrightarrow> step_allowed (Tick line) \<and>
     y = (st_put D (fst x) (timer_preamble @ line), st_next D (snd x) (timer_preamble @ line))"
| "timer_rel D x y M_Unlock \<longleftrightarrow> x = y"
| "timer_rel D x y (M_End e) \<longleftrightarrow> e = Thread_Complete"

abbreviation here :: "('f \<Rightarrow> 'd) \<Rightarrow> ('f \<Rightarrow> nat) \<Rightarrow> 'f world \<Rightarrow> 'd \<times> nat" where
  "here dev pos w \<equiv> (dev (w_file w), pos (w_file w))"

definition client_ok :: "'d store \<Rightarrow> 'd \<times> nat \<Rightarrow> 'd spec_service \<Rightarrow> int \<Rightarrow> socket \<Rightarrow> tstate \<Rightarrow> bool" where
  "client_ok D x S c sk t \<longleftrightarrow> (\<forall>e\<in>set (ss_pending S c). event_ok e) \<and>
     client_rel D x (ss_store S) (ss_pending S c) (ss_sent S c) (ss_live S c) sk t"

definition file_ok :: "'d store \<Rightarrow> ('f \<Rightarrow> bool) \<Rightarrow> ('f \<Rightarrow> 'd) \<Rightarrow> ('f \<Rightarrow> nat) \<Rightarrow> 'f world \<Rightarrow> 'd spec_service \<Rightarrow> bool" where
  "file_ok D good dev pos w S \<longleftrightarrow> good (w_file w) \<and> st_ready D (dev (w_file w)) (pos (w_file w)) \<and>
     (\<not> w_lock w \<longrightarrow> here dev pos w = ss_store S)"

definition threads_rel :: "'d store \<Rightarrow> ('f \<Rightarrow> bool) \<Rightarrow> ('f \<Rightarrow> 'd) \<Rightarrow> ('f \<Rightarrow> nat) \<Rightarrow> 'f world threads \<Rightarrow> 'd spec_service \<Rightarrow> bool" where
  "threads_rel D good dev pos s S \<longleftrightarrow>
     file_ok D good dev pos (th_world s) S \<and> th_exit s = None \<and> th_client s FILE_FD = T_End Thread_Complete \<and>
     (\<forall>c. c \<noteq> FILE_FD \<longrightarrow> client_ok D (here dev pos (th_world s)) S c (w_socks (th_world s) c) (th_client s c)) \<and>
     timer_rel D (here dev pos (th_world s)) (ss_store S) (th_timer s) \<and>
     (w_lock (th_world s) \<longleftrightarrow> (\<exists>i. thread_holds s i)) \<and> (\<forall>i j. thread_holds s i \<longrightarrow> thread_holds s j \<longrightarrow> i = j)"

lemma threads_rel_start:
  assumes "good f" "st_ready D (dev f) (pos f)" "\<forall>c. \<forall>e\<in>set (evs c). event_ok e" "FILE_FD \<notin> clients"
  shows "threads_rel D good dev pos (start_threads timed f clients evs) (start_spec (dev f, pos f) clients evs)"
  using assms
  by (auto simp: threads_rel_def file_ok_def client_ok_def start_threads_def start_service_def start_spec_def thread_holds_def
      split: option.splits)

lemma lines_relI:
  assumes "buf = pre @ t @ 0 # junk" "length buf = BUFFER_SIZE" "prev = length pre" "0 \<notin> set pre" "0 \<notin> set t" "length t \<le> 1023"
    and "serve_text D x t = (y, r, live)" "sent = u @ r" "sk = \<lparr>s_input = map event_input pend, s_sent = u, s_open = True\<rparr>"
  shows "client_rel D x y pend sent live sk (T_Lines buf prev)"
  unfolding client_rel.simps using assms by blast

lemma threads_relD:
  assumes "threads_rel D good dev pos s S"
  shows "file_ok D good dev pos (th_world s) S" "th_exit s = None" "th_client s FILE_FD = T_End Thread_Complete"
    "c \<noteq> FILE_FD \<Longrightarrow> client_ok D (here dev pos (th_world s)) S c (w_socks (th_world s) c) (th_client s c)"
    "timer_rel D (here dev pos (th_world s)) (ss_store S) (th_timer s)"
    "w_lock (th_world s) \<longleftrightarrow> (\<exists>i. thread_holds s i)" "\<forall>i j. thread_holds s i \<longrightarrow> thread_holds s j \<longrightarrow> i = j"
  using assms unfolding threads_rel_def by blast+

text \<open>A thread that does not hold the lock does not depend on the store.\<close>

lemma client_ok_store:
  assumes "client_ok D x S c sk t" "t_holds t \<longrightarrow> x' = x \<and> ss_store S' = ss_store S"
    and "ss_pending S' c = ss_pending S c" "ss_sent S' c = ss_sent S c" "ss_live S' c = ss_live S c"
  shows "client_ok D x' S' c sk t"
  using assms by (cases t) (auto simp: client_ok_def)

lemma timer_rel_store:
  assumes "timer_rel D x y m" "m_holds m \<longrightarrow> x' = x \<and> y' = y"
  shows "timer_rel D x' y' m"
  using assms by (cases m) auto

text \<open>What a step of a connection may change: the file only under the lock, and no other socket.\<close>

definition lock_moves :: "bool \<Rightarrow> bool \<Rightarrow> 'f world \<Rightarrow> 'f world \<Rightarrow> bool" where
  "lock_moves h h' w w' \<longleftrightarrow> (w_lock w' \<longleftrightarrow> h' \<or> w_lock w \<and> \<not> h) \<and> (h' \<longrightarrow> h \<or> \<not> w_lock w)"

lemma one_holder:
  assumes "w_lock w \<longleftrightarrow> (\<exists>i. H i)" "\<forall>i j. H i \<longrightarrow> H j \<longrightarrow> i = j" "lock_moves (H k) (H' k) w w'" "\<forall>i. i \<noteq> k \<longrightarrow> H' i = H i"
  shows "w_lock w' \<longleftrightarrow> (\<exists>i. H' i)" "\<forall>i j. H' i \<longrightarrow> H' j \<longrightarrow> i = j"
  using assms unfolding lock_moves_def by metis+

lemma client_moves:
  assumes R: "threads_rel D good dev pos s S" and c: "c \<noteq> FILE_FD"
    and fo: "file_ok D good dev pos w' S'"
    and mine: "client_ok D (here dev pos w') S' c (w_socks w' c) t'"
    and other: "\<forall>x. x \<noteq> c \<longrightarrow> w_socks w' x = w_socks (th_world s) x \<and> ss_pending S' x = ss_pending S x \<and>
      ss_sent S' x = ss_sent S x \<and> ss_live S' x = ss_live S x"
    and lock: "lock_moves (t_holds (th_client s c)) (t_holds t') (th_world s) w'"
    and store: "w_lock (th_world s) \<and> \<not> t_holds (th_client s c) \<longrightarrow> here dev pos w' = here dev pos (th_world s) \<and> ss_store S' = ss_store S"
  shows "threads_rel D good dev pos (s\<lparr>th_world := w', th_client := (th_client s)(c := t'), th_exit := None\<rparr>) S'"
proof -
  let ?s = "s\<lparr>th_world := w', th_client := (th_client s)(c := t'), th_exit := None\<rparr>"
  have L: "w_lock (th_world s) \<longleftrightarrow> (\<exists>i. thread_holds s i)" and U: "\<forall>i j. thread_holds s i \<longrightarrow> thread_holds s j \<longrightarrow> i = j"
    by (rule threads_relD [OF R])+
  have H: "thread_holds s (Some c) = t_holds (th_client s c)" "thread_holds ?s (Some c) = t_holds t'"
    "\<forall>i. i \<noteq> Some c \<longrightarrow> thread_holds ?s i = thread_holds s i"
    by (auto simp: thread_holds_def split: option.split)
  have keep: "here dev pos w' = here dev pos (th_world s) \<and> ss_store S' = ss_store S" if "thread_holds s i" "i \<noteq> Some c" for i
    using store L U H(1) that by metis
  have "client_ok D (here dev pos w') S' x (w_socks w' x) (th_client s x)" if "x \<noteq> c" "x \<noteq> FILE_FD" for x
    using client_ok_store [OF threads_relD(4) [OF R that(2)], of "here dev pos w'" S'] keep [of "Some x"] other that(1)
    by (simp add: thread_holds_def)
  moreover have "timer_rel D (here dev pos w') (ss_store S') (th_timer s)"
    using timer_rel_store [OF threads_relD(5) [OF R]] keep [of None] by (simp add: thread_holds_def)
  moreover note one_holder [OF L U, of "Some c" "thread_holds ?s" w', unfolded H(1,2), OF lock H(3)]
  ultimately show ?thesis
    unfolding threads_rel_def using threads_relD(3) [OF R] c fo mine by simp
qed

lemma timer_moves:
  assumes R: "threads_rel D good dev pos s S"
    and fo: "file_ok D good dev pos w' S'" and mine: "timer_rel D (here dev pos w') (ss_store S') m'"
    and other: "w_socks w' = w_socks (th_world s)" "ss_pending S' = ss_pending S" "ss_sent S' = ss_sent S" "ss_live S' = ss_live S"
    and lock: "lock_moves (m_holds (th_timer s)) (m_holds m') (th_world s) w'"
    and store: "w_lock (th_world s) \<and> \<not> m_holds (th_timer s) \<longrightarrow> here dev pos w' = here dev pos (th_world s) \<and> ss_store S' = ss_store S"
  shows "threads_rel D good dev pos (s\<lparr>th_world := w', th_timer := m', th_exit := None\<rparr>) S'"
proof -
  let ?s = "s\<lparr>th_world := w', th_timer := m', th_exit := None\<rparr>"
  have L: "w_lock (th_world s) \<longleftrightarrow> (\<exists>i. thread_holds s i)" and U: "\<forall>i j. thread_holds s i \<longrightarrow> thread_holds s j \<longrightarrow> i = j"
    by (rule threads_relD [OF R])+
  have H: "thread_holds s None = m_holds (th_timer s)" "thread_holds ?s None = m_holds m'"
    "\<forall>i. i \<noteq> None \<longrightarrow> thread_holds ?s i = thread_holds s i"
    by (auto simp: thread_holds_def)
  have keep: "here dev pos w' = here dev pos (th_world s) \<and> ss_store S' = ss_store S" if "thread_holds s i" "i \<noteq> None" for i
    using store L U H(1) that by metis
  have "client_ok D (here dev pos w') S' x (w_socks w' x) (th_client s x)" if "x \<noteq> FILE_FD" for x
    using client_ok_store [OF threads_relD(4) [OF R that], of "here dev pos w'" S'] keep [of "Some x"] other
    by (simp add: thread_holds_def)
  moreover note one_holder [OF L U, of None "thread_holds ?s" w', unfolded H(1,2), OF lock H(3)]
  ultimately show ?thesis
    unfolding threads_rel_def using threads_relD(3) [OF R] fo mine by simp
qed

end
