(* ===== verification/Socket_Threads.thy ===== *)
theory Socket_Threads
  imports Thread_Relation
begin

text \<open>
  The threads of the server interleaved at their steps, not only at the rounds of their loops: any number of
  connections and the timer share the file, its position and its lock, and any of them may go next as
  long as it does not wait for the lock. Every such execution is related to turns of the abstract
  service of \<open>Socket_Host\<close>: a thread takes its turn when it takes the lock, and what it has still to do
  until the unlock is already part of the abstract state.
\<close>

section \<open>The steps of a connection\<close>

text \<open>A bound for the steps that a connection still makes; \<open>n\<close> is the number of reads its socket has input for.\<close>

fun t_rank :: "tstate \<Rightarrow> nat \<Rightarrow> nat" where
  "t_rank (T_Loop buf) n = 1030 * n + 1"
| "t_rank (T_Chunk buf bytes) n = 1030 * n + 1029"
| "t_rank (T_Lines buf prev) n = 1030 * n + 2 + (1026 - prev)"
| "t_rank (T_Unlock buf) n = 1030 * n + 2"
| "t_rank (T_End e) n = 0"

definition inputs :: "'f world \<Rightarrow> int \<Rightarrow> nat" where
  "inputs w c = length (s_input (w_socks w c))"

fun m_rank :: "mstate \<Rightarrow> nat" where
  "m_rank (M_Write line) = 2"
| "m_rank M_Unlock = 1"
| "m_rank _ = 0"

definition th_rank :: "int set \<Rightarrow> 'f world threads \<Rightarrow> nat" where
  "th_rank clients s = (\<Sum>c\<in>clients. t_rank (th_client s c) (inputs (th_world s) c)) + m_rank (th_timer s)"

definition client_stepped :: "'d store \<Rightarrow> ('f \<Rightarrow> bool) \<Rightarrow> ('f \<Rightarrow> 'd) \<Rightarrow> ('f \<Rightarrow> nat) \<Rightarrow> int \<Rightarrow> 'f world threads \<Rightarrow> 'd spec_service \<Rightarrow>
    tstate \<times> 'f world \<Rightarrow> bool" where
  "client_stepped D good dev pos c s S = (\<lambda>(t', w').
     threads_rel D good dev pos (s\<lparr>th_world := w', th_client := (th_client s)(c := t'), th_exit := None\<rparr>)
       (if takes_turn (th_client s c) t' then spec_turn D S (Client c) else S) \<and>
     (\<forall>e. t' = T_End e \<longrightarrow> e = Thread_Complete) \<and>
     (\<forall>x. x \<noteq> c \<longrightarrow> w_socks w' x = w_socks (th_world s) x) \<and>
     t_rank t' (inputs w' c) < t_rank (th_client s c) (inputs (th_world s) c))"

text \<open>The store after a turn is only looked at when the thread takes the lock.\<close>

lemma client_steppedI:
  assumes "threads_rel D good dev pos s S" "c \<noteq> FILE_FD" "S' = (if takes_turn (th_client s c) t' then spec_turn D S (Client c) else S)"
    and "file_ok D good dev pos w' S'" "client_ok D (here dev pos w') S' c (w_socks w' c) t'"
    and "\<forall>x. x \<noteq> c \<longrightarrow> w_socks w' x = w_socks (th_world s) x"
    and "lock_moves (t_holds (th_client s c)) (t_holds t') (th_world s) w'"
    and "w_lock (th_world s) \<and> \<not> t_holds (th_client s c) \<longrightarrow> here dev pos w' = here dev pos (th_world s) \<and> ss_store S' = ss_store S"
    and "t_rank t' (inputs w' c) < t_rank (th_client s c) (inputs (th_world s) c)"
  shows "client_stepped D good dev pos c s S (t', w')"
proof -
  have "\<forall>x. x \<noteq> c \<longrightarrow> ss_pending S' x = ss_pending S x \<and> ss_sent S' x = ss_sent S x \<and> ss_live S' x = ss_live S x"
    using assms(3) by (auto split: if_splits list.splits prod.splits)
  then have "threads_rel D good dev pos (s\<lparr>th_world := w', th_client := (th_client s)(c := t'), th_exit := None\<rparr>) S'"
    using assms(6) by (intro client_moves [OF assms(1,2,4,5) _ assms(7,8)]) blast
  moreover have "\<forall>e. t' = T_End e \<longrightarrow> e = Thread_Complete" using assms(5) by (auto simp: client_ok_def)
  ultimately show ?thesis using assms(3,6,9) by (simp add: client_stepped_def)
qed

definition timer_stepped :: "'d store \<Rightarrow> ('f \<Rightarrow> bool) \<Rightarrow> ('f \<Rightarrow> 'd) \<Rightarrow> ('f \<Rightarrow> nat) \<Rightarrow> 'f world threads \<Rightarrow> 'd spec_service \<Rightarrow> byte list \<Rightarrow> mstate \<times> 'f world \<Rightarrow> bool" where
  "timer_stepped D good dev pos s S stamp = (\<lambda>(m', w').
     threads_rel D good dev pos (s\<lparr>th_world := w', th_timer := m', th_exit := None\<rparr>)
       (if takes_tick (th_timer s) m' then spec_turn D S (Tick stamp) else S) \<and>
     (\<forall>e. m' = M_End e \<longrightarrow> e = Thread_Complete) \<and> w_socks w' = w_socks (th_world s) \<and>
     (m_holds (th_timer s) \<longrightarrow> m_rank m' < m_rank (th_timer s)))"

text \<open>A thread that has ended stays so, and a schedule of allowed steps continues an execution.\<close>

lemma ended_stays: "ended (th_client s c) \<Longrightarrow> th_do io t s = Some (Inr s') \<Longrightarrow> ended (th_client s' c)"
proof (induction io t s rule: th_do.induct)
  case (1 io d s)
  show ?case
  proof (cases "c = d")
    case True
    then obtain e where "th_client s d = T_End e" using 1 by (cases "th_client s d") simp_all
    then show ?thesis using 1 True by (auto split: if_splits)
  qed (use 1 in \<open>auto simp: rbind_def split: option.splits sum.splits if_splits\<close>)
qed (auto simp: rbind_def split: option.splits sum.splits if_splits)

lemma th_reach_ended: "th_reach io s0 ts s \<Longrightarrow> ended (th_client s0 c) \<Longrightarrow> ended (th_client s c)"
  by (induction rule: th_reach.induct) (auto intro: ended_stays)

lemma th_run_reach:
  "th_reach io s0 ts s \<Longrightarrow> list_all step_allowed us \<Longrightarrow> th_run io us s = Some (Inr s') \<Longrightarrow> \<exists>vs. th_reach io s0 (ts @ vs) s'"
proof (induction us arbitrary: ts s)
  case Nil
  then show ?case by (intro exI [of _ "[]"]) simp
next
  case (Cons u us)
  then obtain s1 where s1: "th_do io u s = Some (Inr s1)" "th_run io us s1 = Some (Inr s')"
    by (cases "th_do io u s" rule: run_cases) auto
  show ?case using Cons.IH [OF th_next [OF Cons.prems(1) _ s1(1)] _ s1(2)] Cons.prems(2) by auto
qed

text \<open>A schedule that brings all connections to their end and leaves the lock free.\<close>

definition all_ended :: "'f world threads \<Rightarrow> bool" where
  "all_ended s \<longleftrightarrow> (\<forall>c. ended (th_client s c)) \<and> \<not> w_lock (th_world s)"

definition completes :: "'f world io \<Rightarrow> nat \<Rightarrow> 'f world threads \<Rightarrow> bool" where
  "completes io n s \<longleftrightarrow> (\<exists>ts s'. list_all step_allowed ts \<and> th_run io ts s = Some (Inr s') \<and> length ts \<le> n \<and>
     all_ended s')"

lemma completes_step:
  assumes "th_do io t s = Some (Inr s1)" "step_allowed t" "completes io m s1" "m < n"
  shows "completes io n s"
proof -
  obtain ts s' where "list_all step_allowed ts" "th_run io ts s1 = Some (Inr s')" "length ts \<le> m" "all_ended s'"
    using assms(3) unfolding completes_def by blast
  then show ?thesis unfolding completes_def using assms(1,2,4) by (intro exI [of _ "t # ts"] exI [of _ s']) simp
qed

text \<open>The store, the bytes that each client has got and whether its connection is open are those of the abstract service.\<close>

definition served_as :: "'d \<times> nat \<Rightarrow> (int \<Rightarrow> socket) \<Rightarrow> 'd spec_service \<Rightarrow> bool" where
  "served_as x sk S \<longleftrightarrow> x = ss_store S \<and> (\<forall>c. c \<noteq> FILE_FD \<longrightarrow> s_sent (sk c) = ss_sent S c \<and> s_open (sk c) = ss_live S c)"

context file_device
begin

lemma loop_step:
  assumes R: "threads_rel D good dev pos s S" and c: "c \<noteq> FILE_FD" and t: "th_client s c = T_Loop buf"
  shows "\<exists>y. thread_step (host_io F chunk) FILE_FD c (T_Loop buf) (th_world s) = Some (Inr y) \<and> client_stepped D good dev pos c s S y"
proof -
  let ?w = "th_world s" and ?io = "host_io F chunk"
  have cl: "length buf = BUFFER_SIZE" "ss_live S c" "\<forall>e\<in>set (ss_pending S c). event_ok e"
      "w_socks ?w c = \<lparr>s_input = map event_input (ss_pending S c), s_sent = ss_sent S c, s_open = True\<rparr>"
    using threads_relD(4) [OF R c] t by (simp_all add: client_ok_def)
  note fo = threads_relD(1) [OF R, unfolded file_ok_def]
  let ?w1 = "on_sock c (\<lambda>k. k\<lparr>s_input := tl (s_input k)\<rparr>) ?w"
  show ?thesis
  proof (cases "ss_pending S c")
    case Nil
    let ?w2 = "on_sock c (\<lambda>k. k\<lparr>s_open := False\<rparr>) ?w1"
    have "client_stepped D good dev pos c s S (T_End Thread_Complete, ?w2)"
      using fo cl Nil t
      by (intro client_steppedI [OF R c, where S' = "spec_turn D S (Client c)"])
        (simp_all add: file_ok_def client_ok_def on_sock_def lock_moves_def inputs_def)
    then show ?thesis using cl(4) Nil c by (simp add: host_io_def)
  next
    case (Cons e es)
    show ?thesis
    proof (cases e)
      case Again
      have "client_stepped D good dev pos c s S (T_Loop buf, ?w1)"
        using fo cl Cons t Again
        by (intro client_steppedI [OF R c, where S' = "spec_turn D S (Client c)"])
          (simp_all add: file_ok_def client_ok_def on_sock_def lock_moves_def inputs_def serve_text_stop)
      then show ?thesis using cl(4) Cons Again c by (simp add: host_io_def)
    next
      case (Chunk bs)
      have "client_stepped D good dev pos c s S (T_Chunk buf (Some bs), ?w1)"
        using fo cl Cons t Chunk
        by (intro client_steppedI [OF R c, where S' = S])
          (simp_all add: file_ok_def client_ok_def on_sock_def lock_moves_def inputs_def)
      then show ?thesis using cl(3,4) Cons Chunk c by (simp add: host_io_def)
    qed
  qed
qed

lemma chunk_lock_step:
  assumes R: "threads_rel D good dev pos s S" and c: "c \<noteq> FILE_FD" and t: "th_client s c = T_Chunk buf bytes"
    and free: "\<not> w_lock (th_world s)"
  shows "\<exists>y. thread_step (host_io F chunk) FILE_FD c (T_Chunk buf bytes) (th_world s) = Some (Inr y) \<and> client_stepped D good dev pos c s S y"
proof -
  let ?w = "th_world s"
  obtain bs es where cl: "length buf = BUFFER_SIZE" "ss_live S c" "\<forall>e\<in>set (ss_pending S c). event_ok e" "bytes = Some bs"
      "ss_pending S c = Chunk bs # es" "w_socks ?w c = \<lparr>s_input = map event_input es, s_sent = ss_sent S c, s_open = True\<rparr>"
    using threads_relD(4) [OF R c] t by (auto simp: client_ok_def)
  have ev: "event_ok (Chunk bs)" using cl(3,5) by simp
  note fo = threads_relD(1) [OF R, unfolded file_ok_def]
  have lt: "length bs < length buf" using ev cl(1) by simp
  let ?buf = "bs @ 0 # drop (Suc (length bs)) buf" and ?w1 = "?w\<lparr>w_lock := True\<rparr>"
  have st: "store_chunk buf bs = Inr ?buf" "length ?buf = BUFFER_SIZE" using store_chunk_eq [OF lt] lt cl(1) by simp_all
  obtain junk where j: "?buf = event_text (Chunk bs) @ 0 # junk" using text_in_buffer by blast
  obtain y r ok where sv: "serve_text D (ss_store S) (event_text (Chunk bs)) = (y, r, ok)" by (metis prod.exhaust)
  have "client_rel D (here dev pos ?w1) y es (ss_sent S c @ r) ok (w_socks ?w1 c) (T_Lines ?buf 0)"
    by (rule lines_relI [where pre = "[]" and t = "event_text (Chunk bs)" and junk = junk and r = r and u = "ss_sent S c"])
      (use j st(2) event_text_props [of "Chunk bs"] ev sv fo free cl(6) in \<open>simp_all del: event_text.simps\<close>)
  then have "client_stepped D good dev pos c s S (T_Lines ?buf 0, ?w1)"
    using fo cl sv t free
    by (intro client_steppedI [OF R c, where S' = "spec_turn D S (Client c)"])
      (simp_all add: file_ok_def client_ok_def lock_moves_def inputs_def)
  then show ?thesis using cl(4) st(1) free by (simp add: host_io_def)
qed

lemma unlock_step:
  assumes R: "threads_rel D good dev pos s S" and c: "c \<noteq> FILE_FD" and t: "th_client s c = T_Unlock buf"
  shows "\<exists>y. thread_step (host_io F chunk) FILE_FD c (T_Unlock buf) (th_world s) = Some (Inr y) \<and> client_stepped D good dev pos c s S y"
proof -
  let ?w = "(th_world s)\<lparr>w_lock := False\<rparr>"
  have "client_stepped D good dev pos c s S (T_Loop buf, ?w)"
    using threads_relD(1) [OF R] threads_relD(4) [OF R c] t
    by (intro client_steppedI [OF R c, where S' = S]) (auto simp: file_ok_def client_ok_def lock_moves_def inputs_def)
  then show ?thesis by (simp add: host_io_def)
qed

lemma last_line_step:
  assumes R: "threads_rel D good dev pos s S" and c: "c \<noteq> FILE_FD" and t: "th_client s c = T_Lines (pre @ tx @ 0 # junk) (length pre)"
    and tx: "newline \<notin> set tx" "0 \<notin> set tx" "0 \<notin> set pre"
    and cl: "length (pre @ tx @ 0 # junk) = BUFFER_SIZE" "\<forall>e\<in>set (ss_pending S c). event_ok e"
      "serve_text D (here dev pos (th_world s)) tx = (ss_store S, r, ss_live S c)" "ss_sent S c = u @ r"
      "w_socks (th_world s) c = \<lparr>s_input = map event_input (ss_pending S c), s_sent = u, s_open = True\<rparr>"
  shows "\<exists>y. thread_step (host_io F chunk) FILE_FD c (th_client s c) (th_world s) = Some (Inr y) \<and> client_stepped D good dev pos c s S y"
proof -
  let ?buf = "pre @ tx @ 0 # junk"
  have "strchr ?buf (length pre) newline = Inr None" using strchr_terminated [of "pre @ tx" "length pre" junk newline] tx by simp
  then have step: "thread_step (host_io F chunk) FILE_FD c (th_client s c) (th_world s) = Some (Inr (T_Unlock ?buf, th_world s))"
    by (simp add: t chunk_step_def)
  have sv: "here dev pos (th_world s) = ss_store S" "r = []" "ss_live S c" using cl(3) unfolding serve_text_stop [OF tx(1)] by auto
  have lk: "w_lock (th_world s)" using threads_relD(6) [OF R] t by (auto simp: thread_holds_def intro: exI [of _ "Some c"])
  have "client_stepped D good dev pos c s S (T_Unlock ?buf, th_world s)"
    using threads_relD(1) [OF R] cl sv t lk
    by (intro client_steppedI [OF R c, where S' = S]) (simp_all add: file_ok_def client_ok_def lock_moves_def inputs_def BUFFER_SIZE_def)
  then show ?thesis using step by blast
qed

lemma host_view_sock:
  "v_lock (host_view dev pos c w) = w_lock w" "v_input (host_view dev pos c w) = s_input (w_socks w c)"
  "v_open (host_view dev pos c w) = s_open (w_socks w c)"
  by (simp_all add: host_view_def)

lemma host_viewD:
  assumes "host_view dev pos c w' = v" "v_rest v = v_rest (host_view dev pos c w)"
  shows "dev (w_file w') = v_dev v" "pos (w_file w') = v_pos v" "w_lock w' = v_lock v"
    "w_socks w' c = \<lparr>s_input = v_input v, s_sent = v_sent v, s_open = v_open v\<rparr>"
    "\<forall>x. x \<noteq> c \<longrightarrow> w_socks w' x = w_socks w x"
proof -
  show "dev (w_file w') = v_dev v" "pos (w_file w') = v_pos v" "w_lock w' = v_lock v"
    "w_socks w' c = \<lparr>s_input = v_input v, s_sent = v_sent v, s_open = v_open v\<rparr>"
    unfolding assms(1) [symmetric] by (simp_all add: host_view_def)
  show "\<forall>x. x \<noteq> c \<longrightarrow> w_socks w' x = w_socks w x"
    using other_sockets [of c w' w] assms by metis
qed

lemma line_effect:
  assumes g: "good (w_file w)" "st_ready D (dev (w_file w)) (pos (w_file w))" and c: "c \<noteq> FILE_FD"
    and tx: "newline \<in> set tx" "0 \<notin> set tx" "0 \<notin> set pre" "length tx \<le> 1023"
  obtains (hang_up) w1 where "serve_line D (here dev pos w) tx = None"
      "chunk_step (host_io F chunk) FILE_FD c (pre @ tx @ 0 # junk) (length pre, w) = Some (Inr (Inr (Hang_Up, w1)))"
      "good (w_file w1)" "dev (w_file w1) = dev (w_file w)" "pos (w_file w1) = pos (w_file w)" "\<not> w_lock w1"
      "w_socks w1 c = (w_socks w c)\<lparr>s_open := False\<rparr>" "\<forall>x. x \<noteq> c \<longrightarrow> w_socks w1 x = w_socks w x"
  | (goes_on) d p r w1 where "serve_line D (here dev pos w) tx = Some ((d, p), r)" "st_ready D d p"
      "chunk_step (host_io F chunk) FILE_FD c (pre @ tx @ 0 # junk) (length pre, w) = Some (Inr (Inl (length (pre @ line_of tx), w1)))"
      "good (w_file w1)" "dev (w_file w1) = d" "pos (w_file w1) = p" "w_lock w1 = w_lock w"
      "w_socks w1 c = (w_socks w c)\<lparr>s_sent := s_sent (w_socks w c) @ r\<rparr>" "\<forall>x. x \<noteq> c \<longrightarrow> w_socks w1 x = w_socks w x"
proof -
  let ?io = "host_io F chunk" and ?V = "host_view dev pos c" and ?x = "here dev pos w"
  obtain w1 where w1: "chunk_step ?io FILE_FD c (pre @ tx @ 0 # junk) (length pre, w) =
        Some (Inr (if serve_line D ?x tx = None then Inr (Hang_Up, w1) else Inl (length (pre @ line_of tx), w1)))" "good (w_file w1)"
    and v: "case serve_line D ?x tx of None \<Rightarrow> ?V w1 = (?V w)\<lparr>v_lock := False, v_open := False\<rparr>
      | Some ((d, p), r) \<Rightarrow> st_ready D d p \<and> ?V w1 = (?V w)\<lparr>v_dev := d, v_sent := v_sent (?V w) @ r, v_pos := p\<rparr>"
    using line_device.chunk_step_served [OF client_device [OF c], of w tx pre chunk junk] g tx by (auto simp: host_view_sel)
  show thesis
  proof (cases "serve_line D ?x tx")
    case None
    then have v': "?V w1 = (?V w)\<lparr>v_lock := False, v_open := False\<rparr>" using v by simp
    have "v_rest ((?V w)\<lparr>v_lock := False, v_open := False\<rparr>) = v_rest (?V w)" by simp
    note e = host_viewD [OF v' this]
    show thesis by (rule hang_up [OF None _ w1(2)]) (use w1(1) None e in \<open>simp_all add: host_view_sel host_view_sock\<close>)
  next
    case (Some yr)
    then obtain d p r where s: "serve_line D ?x tx = Some ((d, p), r)" by (metis prod.exhaust)
    then have v': "?V w1 = (?V w)\<lparr>v_dev := d, v_sent := v_sent (?V w) @ r, v_pos := p\<rparr>" "st_ready D d p" using v by simp_all
    have "v_rest ((?V w)\<lparr>v_dev := d, v_sent := v_sent (?V w) @ r, v_pos := p\<rparr>) = v_rest (?V w)" by simp
    note e = host_viewD [OF v'(1) this]
    show thesis by (rule goes_on [OF s v'(2) _ w1(2)]) (use w1(1) s e in \<open>simp_all add: host_view_sel host_view_sock\<close>)
  qed
qed

lemma line_step:
  assumes R: "threads_rel D good dev pos s S" and c: "c \<noteq> FILE_FD" and t: "th_client s c = T_Lines (pre @ tx @ 0 # junk) (length pre)"
    and tx: "newline \<in> set tx" "0 \<notin> set tx" "0 \<notin> set pre" "length tx \<le> 1023"
    and cl: "length (pre @ tx @ 0 # junk) = BUFFER_SIZE" "\<forall>e\<in>set (ss_pending S c). event_ok e"
      "serve_text D (here dev pos (th_world s)) tx = (ss_store S, r, ss_live S c)" "ss_sent S c = u @ r"
      "w_socks (th_world s) c = \<lparr>s_input = map event_input (ss_pending S c), s_sent = u, s_open = True\<rparr>"
  shows "\<exists>y. thread_step (host_io F chunk) FILE_FD c (th_client s c) (th_world s) = Some (Inr y) \<and> client_stepped D good dev pos c s S y"
proof -
  let ?w = "th_world s" and ?l = "line_of tx" and ?buf = "pre @ tx @ 0 # junk" and ?x = "here dev pos (th_world s)"
  have lk: "w_lock ?w" using threads_relD(6) [OF R] t by (auto simp: thread_holds_def intro: exI [of _ "Some c"])
  have g: "good (w_file ?w)" "st_ready D (dev (w_file ?w)) (pos (w_file ?w))" using threads_relD(1) [OF R] by (simp_all add: file_ok_def)
  note st = serve_text.simps [of D ?x tx]
  from g c tx show ?thesis
  proof (cases rule: line_effect [where chunk = chunk and junk = junk])
    case (hang_up w1)
    then have sv: "?x = ss_store S" "r = []" "\<not> ss_live S c" using cl(3) st tx(1) by auto
    have "client_stepped D good dev pos c s S (T_End Thread_Complete, w1)"
      using hang_up(3-) g cl sv t lk
      by (intro client_steppedI [OF R c, where S' = S]) (simp_all add: file_ok_def client_ok_def lock_moves_def)
    then show ?thesis using hang_up(2) t by simp
  next
    case (goes_on d p r1 w1)
    then obtain r2 where sv: "serve_text D (d, p) (drop (length ?l) tx) = (ss_store S, r2, ss_live S c)" "r = r1 @ r2"
      using cl(3) tx(1) st by (auto split: prod.splits)
    have z: "0 \<notin> set (pre @ ?l)" "0 \<notin> set (drop (length ?l) tx)" "length (drop (length ?l) tx) \<le> 1023"
      using tx(2,3,4) line_of_split(3) [OF tx(1)] in_set_dropD [of 0 "length ?l" tx] by auto
    have b: "?buf = (pre @ ?l) @ drop (length ?l) tx @ 0 # junk" using line_of_split(1) [OF tx(1)] by (metis append_assoc)
    have rk: "t_rank (T_Lines ?buf (length (pre @ ?l))) n < t_rank (T_Lines ?buf (length pre)) n" for n
      using cl(1) arg_cong [OF b, of length] by (simp add: BUFFER_SIZE_def line_of_def)
    have sk: "w_socks w1 c = \<lparr>s_input = map event_input (ss_pending S c), s_sent = u @ r1, s_open = True\<rparr>"
      using goes_on(8) cl(5) by simp
    have "client_rel D (d, p) (ss_store S) (ss_pending S c) (ss_sent S c) (ss_live S c) (w_socks w1 c) (T_Lines ?buf (length (pre @ ?l)))"
      using cl(4) sv(2) by (intro lines_relI [OF b cl(1) refl z sv(1) _ sk]) simp
    then have "client_stepped D good dev pos c s S (T_Lines ?buf (length (pre @ ?l)), w1)"
      using goes_on(2,4-7,9) sk cl(2,5) t lk rk
      by (intro client_steppedI [OF R c, where S' = S])
        (simp_all add: file_ok_def client_ok_def lock_moves_def inputs_def del: client_rel.simps t_rank.simps)
    then show ?thesis using goes_on(3) t by simp
  qed
qed

text \<open>A connection waits for the lock, or makes a step that is part of a turn of the abstract service.\<close>

lemma client_thread_step:
  assumes R: "threads_rel D good dev pos s S" and c: "c \<noteq> FILE_FD" and live: "\<not> ended (th_client s c)"
  shows "(w_lock (th_world s) \<and> \<not> t_holds (th_client s c) \<and>
      thread_step (host_io F chunk) FILE_FD c (th_client s c) (th_world s) = Some (Inl Would_Block)) \<or>
    (\<exists>y. thread_step (host_io F chunk) FILE_FD c (th_client s c) (th_world s) = Some (Inr y) \<and> client_stepped D good dev pos c s S y)"
proof (cases "th_client s c")
  case (T_Loop buf)
  then show ?thesis using loop_step [OF R c T_Loop, of chunk] by simp
next
  case (T_Chunk buf bytes)
  then show ?thesis
    using chunk_lock_step [OF R c T_Chunk, of chunk] by (cases "w_lock (th_world s)") (simp_all add: host_io_def)
next
  case (T_Lines buf prev)
  then obtain pre tx junk r u where b: "buf = pre @ tx @ 0 # junk" "prev = length pre" "0 \<notin> set pre" "0 \<notin> set tx" "length tx \<le> 1023"
    and cl: "length buf = BUFFER_SIZE" "\<forall>e\<in>set (ss_pending S c). event_ok e"
      "serve_text D (here dev pos (th_world s)) tx = (ss_store S, r, ss_live S c)" "ss_sent S c = u @ r"
      "w_socks (th_world s) c = \<lparr>s_input = map event_input (ss_pending S c), s_sent = u, s_open = True\<rparr>"
    using threads_relD(4) [OF R c] by (auto simp: client_ok_def)
  note t = T_Lines [unfolded b(1,2)] and len = cl(1) [unfolded b(1)]
  show ?thesis
    using line_step [OF R c t _ b(4,3,5) len cl(2-5), of chunk] last_line_step [OF R c t _ b(4,3) len cl(2-5), of chunk]
    by (cases "newline \<in> set tx") blast+
next
  case (T_Unlock buf)
  then show ?thesis using unlock_step [OF R c T_Unlock, of chunk] by simp
qed (use live in simp)

text \<open>The same for the timer.\<close>

lemma timer_line: "step_allowed (Tick line) \<Longrightarrow> cmd_ok (timer_preamble @ line)" "step_allowed (Tick line) \<Longrightarrow> length (timer_preamble @ line) \<le> 1023"
  by (auto simp: cmd_ok_iff timer_preamble_def bytes_of_def newline_def)

lemma timer_write_step:
  assumes R: "threads_rel D good dev pos s S" and m: "th_timer s = M_Write line"
  shows "\<exists>w'. timer_thread_step (host_io F chunk) FILE_FD stamp (M_Write line) (th_world s) = Some (Inr (M_Unlock, w')) \<and>
    threads_rel D good dev pos (s\<lparr>th_world := w', th_timer := M_Unlock, th_exit := None\<rparr>) S \<and> w_socks w' = w_socks (th_world s)"
proof -
  let ?w = "th_world s" and ?l = "timer_preamble @ line"
  have fo: "good (w_file ?w)" "st_ready D (dev (w_file ?w)) (pos (w_file ?w))" using threads_relD(1) [OF R] by (simp_all add: file_ok_def)
  have l: "step_allowed (Tick line)" "ss_store S = (st_put D (dev (w_file ?w)) ?l, st_next D (pos (w_file ?w)) ?l)"
    using threads_relD(5) [OF R] m by simp_all
  have lk: "w_lock ?w" using threads_relD(6) [OF R] m by (auto simp: thread_holds_def intro: exI [of _ None])
  obtain f' where f': "fo_write F ?l (w_file ?w) = Some (Inr (Inr (length ?l), f'))" "good f'" "dev f' = st_put D (dev (w_file ?w)) ?l"
      "pos f' = st_next D (pos (w_file ?w)) ?l"
    using fo_write [OF fo timer_line [OF l(1)]] by blast
  have "threads_rel D good dev pos (s\<lparr>th_world := ?w\<lparr>w_file := f'\<rparr>, th_timer := M_Unlock, th_exit := None\<rparr>) S"
    using f'(2-4) l(2) lk m ready_next [OF fo(2) timer_line(1) [OF l(1)]]
    by (intro timer_moves [OF R]) (simp_all add: file_ok_def lock_moves_def)
  then show ?thesis using f'(1) by (simp add: host_io_def on_file_def)
qed

lemma timer_step_sim:
  assumes R: "threads_rel D good dev pos s S" and a: "step_allowed (Tick stamp)"
  shows "(w_lock (th_world s) \<and> \<not> m_holds (th_timer s) \<and>
      timer_thread_step (host_io F chunk) FILE_FD stamp (th_timer s) (th_world s) = Some (Inl Would_Block)) \<or>
    (\<exists>y. timer_thread_step (host_io F chunk) FILE_FD stamp (th_timer s) (th_world s) = Some (Inr y) \<and> timer_stepped D good dev pos s S stamp y)"
proof (cases "th_timer s")
  case M_Idle
  show ?thesis
  proof (cases "w_lock (th_world s)")
    case True
    then show ?thesis using M_Idle by (simp add: host_io_def)
  next
    case False
    have "timer_stepped D good dev pos s S stamp (M_Write stamp, (th_world s)\<lparr>w_lock := True\<rparr>)"
      using threads_relD(1) [OF R] M_Idle False a unfolding timer_stepped_def
      by (auto intro!: timer_moves [OF R] simp: file_ok_def lock_moves_def Let_def)
    then show ?thesis using M_Idle False by (simp add: host_io_def)
  qed
next
  case (M_Write line)
  then show ?thesis using timer_write_step [OF R M_Write, of chunk stamp] by (auto simp: timer_stepped_def)
next
  case M_Unlock
  have "timer_stepped D good dev pos s S stamp (M_Idle, (th_world s)\<lparr>w_lock := False\<rparr>)"
    using threads_relD(1,5) [OF R] M_Unlock unfolding timer_stepped_def
    by (auto intro!: timer_moves [OF R] simp: file_ok_def lock_moves_def)
  then show ?thesis using M_Unlock by (simp add: host_io_def)
next
  case (M_End e)
  have "s\<lparr>th_world := th_world s, th_timer := M_End e, th_exit := None\<rparr> = s" using threads_relD(2) [OF R] M_End by simp
  then have "timer_stepped D good dev pos s S stamp (M_End e, th_world s)"
    using R M_End threads_relD(5) [OF R] by (simp add: timer_stepped_def)
  then show ?thesis using M_End by simp
qed

section \<open>All interleavings\<close>

lemma client_do_stepped:
  assumes R: "threads_rel D good dev pos s S" and y: "thread_step io FILE_FD c (th_client s c) (th_world s) = Some (Inr (t', w'))"
    and st: "client_stepped D good dev pos c s S (t', w')"
  defines "s' \<equiv> s\<lparr>th_world := w', th_client := (th_client s)(c := t'), th_exit := None\<rparr>"
  shows "th_do io (Client c) s = Some (Inr s')" "threads_rel D good dev pos s' (foldl (spec_turn D) S (turn_taken (Client c) s s'))"
proof -
  have "\<forall>e. t' = T_End e \<longrightarrow> e = Thread_Complete" using st unfolding client_stepped_def by blast
  then have "(case t' of T_End e \<Rightarrow> exit_status e | _ \<Rightarrow> None) = None" by (cases t') simp_all
  then show "th_do io (Client c) s = Some (Inr s')" using y threads_relD(2) [OF R] by (simp add: s'_def)
  show "threads_rel D good dev pos s' (foldl (spec_turn D) S (turn_taken (Client c) s s'))"
    using st by (simp add: client_stepped_def s'_def del: spec_turn.simps split: if_splits)
qed

lemma timer_do_stepped:
  assumes R: "threads_rel D good dev pos s S" and y: "timer_thread_step io FILE_FD stamp (th_timer s) (th_world s) = Some (Inr (m', w'))"
    and st: "timer_stepped D good dev pos s S stamp (m', w')"
  defines "s' \<equiv> s\<lparr>th_world := w', th_timer := m', th_exit := None\<rparr>"
  shows "th_do io (Tick stamp) s = Some (Inr s')" "threads_rel D good dev pos s' (foldl (spec_turn D) S (turn_taken (Tick stamp) s s'))"
proof -
  have "\<forall>e. m' = M_End e \<longrightarrow> e = Thread_Complete" using st unfolding timer_stepped_def by blast
  then have "(case m' of M_End e \<Rightarrow> exit_status e | _ \<Rightarrow> None) = None" by (cases m') simp_all
  then show "th_do io (Tick stamp) s = Some (Inr s')" using y threads_relD(2) [OF R] by (simp add: s'_def)
  show "threads_rel D good dev pos s' (foldl (spec_turn D) S (turn_taken (Tick stamp) s s'))"
    using st by (simp add: timer_stepped_def s'_def del: spec_turn.simps split: if_splits)
qed

lemma ended_do:
  assumes R: "threads_rel D good dev pos s S" and e: "ended (th_client s c)"
  shows "th_do io (Client c) s = Some (Inr s)" "turn_taken (Client c) s s = []"
proof -
  obtain x where x: "th_client s c = T_End x" using e by (cases "th_client s c") simp_all
  have t: "th_client s c = T_End Thread_Complete"
  proof (cases "c = FILE_FD")
    case False
    then show ?thesis using threads_relD(4) [OF R False] x by (simp add: client_ok_def)
  qed (simp add: threads_relD(3) [OF R])
  then have "(th_client s)(c := T_End Thread_Complete) = th_client s" by (simp add: fun_upd_idem_iff)
  then show "th_do io (Client c) s = Some (Inr s)" using t threads_relD(2) [OF R] by simp
  show "turn_taken (Client c) s s = []" using t by simp
qed

lemma th_do_sim:
  assumes R: "threads_rel D good dev pos s S" and a: "step_allowed t"
  shows "(w_lock (th_world s) \<and> th_do (host_io F chunk) t s = Some (Inl Would_Block)) \<or>
    (\<exists>s'. th_do (host_io F chunk) t s = Some (Inr s') \<and> threads_rel D good dev pos s' (foldl (spec_turn D) S (turn_taken t s s')))"
proof (cases t)
  case (Client c)
  show ?thesis
  proof (cases "ended (th_client s c)")
    case True
    then show ?thesis using ended_do [OF R True] Client R by auto
  next
    case False
    then have c: "c \<noteq> FILE_FD" using threads_relD(3) [OF R] by auto
    show ?thesis
      using client_thread_step [OF R c False, of chunk] client_do_stepped [OF R] threads_relD(2) [OF R] Client by fastforce
  qed
next
  case (Tick stamp)
  then show ?thesis
    using timer_step_sim [OF R, of stamp chunk] timer_do_stepped [OF R] threads_relD(2) [OF R] a by fastforce
qed

lemma th_reach_rel:
  assumes "th_reach (host_io F chunk) s0 ts s" "threads_rel D good dev pos s0 S0"
  shows "threads_rel D good dev pos s (foldl (spec_turn D) S0 ts)"
  using assms(1)
proof induction
  case th_init
  then show ?case using assms(2) by simp
next
  case (th_next ts s t s')
  then show ?case using th_do_sim [OF th_next.IH th_next.hyps(2), of chunk] by auto
qed

text \<open>As long as a connection is open, some thread can go on, and its connection comes closer to its end.\<close>

lemma client_progress:
  assumes R: "threads_rel D good dev pos s S" and c: "c \<in> clients" "finite clients" "FILE_FD \<notin> clients" "\<not> ended (th_client s c)"
    and free: "\<not> w_lock (th_world s) \<or> t_holds (th_client s c)"
  shows "\<exists>s'. th_do (host_io F chunk) (Client c) s = Some (Inr s') \<and>
    threads_rel D good dev pos s' (foldl (spec_turn D) S (turn_taken (Client c) s s')) \<and> th_rank clients s' < th_rank clients s \<and>
    (\<forall>x. x \<noteq> c \<longrightarrow> th_client s' x = th_client s x)"
proof -
  have nf: "c \<noteq> FILE_FD" using c by blast
  obtain t' w' where y: "thread_step (host_io F chunk) FILE_FD c (th_client s c) (th_world s) = Some (Inr (t', w'))"
      and st: "client_stepped D good dev pos c s S (t', w')"
    using client_thread_step [OF R nf c(4), of chunk] free by auto
  let ?s = "s\<lparr>th_world := w', th_client := (th_client s)(c := t'), th_exit := None\<rparr>"
  have o: "\<forall>x. x \<noteq> c \<longrightarrow> w_socks w' x = w_socks (th_world s) x" and rk: "t_rank t' (inputs w' c) < t_rank (th_client s c) (inputs (th_world s) c)"
    using st unfolding client_stepped_def by blast+
  have "th_rank clients ?s < th_rank clients s"
    unfolding th_rank_def using o rk c(1,2)
    by (auto intro!: sum_strict_mono_ex1 simp: inputs_def)
  then show ?thesis using client_do_stepped [OF R y st] by (intro exI [of _ ?s]) simp
qed

lemma timer_progress:
  assumes R: "threads_rel D good dev pos s S" and m: "m_holds (th_timer s)"
  shows "\<exists>s'. th_do (host_io F chunk) (Tick [newline]) s = Some (Inr s') \<and>
    threads_rel D good dev pos s' (foldl (spec_turn D) S (turn_taken (Tick [newline]) s s')) \<and> th_rank clients s' < th_rank clients s \<and>
    th_client s' = th_client s"
proof -
  have a: "step_allowed (Tick [newline])" by (simp add: cmd_ok_def)
  obtain m' w' where y: "timer_thread_step (host_io F chunk) FILE_FD [newline] (th_timer s) (th_world s) = Some (Inr (m', w'))"
      and st: "timer_stepped D good dev pos s S [newline] (m', w')"
    using timer_step_sim [OF R a, of chunk] m by auto
  let ?s = "s\<lparr>th_world := w', th_timer := m', th_exit := None\<rparr>"
  have "w_socks w' = w_socks (th_world s)" "m_rank m' < m_rank (th_timer s)"
    using st m unfolding timer_stepped_def by blast+
  then have "th_rank clients ?s < th_rank clients s" by (simp add: th_rank_def inputs_def)
  then show ?thesis using timer_do_stepped [OF R y st] by (intro exI [of _ ?s]) simp
qed

lemma threads_complete:
  assumes "threads_rel D good dev pos s S" "finite clients" "FILE_FD \<notin> clients" "\<forall>c. c \<notin> clients \<longrightarrow> ended (th_client s c)"
  shows "completes (host_io F chunk) (th_rank clients s) s"
  using assms
proof (induction "th_rank clients s" arbitrary: s S rule: less_induct)
  case less
  note R = less.prems(1)
  have one: ?case if c: "\<not> ended (th_client s c)" "\<not> w_lock (th_world s) \<or> t_holds (th_client s c)" for c
  proof -
    have "c \<in> clients" using c(1) less.prems(4) by blast
    then obtain s1 where s1: "th_do (host_io F chunk) (Client c) s = Some (Inr s1)"
        "threads_rel D good dev pos s1 (foldl (spec_turn D) S (turn_taken (Client c) s s1))"
        "th_rank clients s1 < th_rank clients s" "\<forall>x. x \<noteq> c \<longrightarrow> th_client s1 x = th_client s x"
      using client_progress [OF R _ less.prems(2,3) c, of chunk] by blast
    have "\<forall>x. x \<notin> clients \<longrightarrow> ended (th_client s1 x)" using s1(4) less.prems(4) \<open>c \<in> clients\<close> by metis
    then show ?thesis
      using completes_step [OF s1(1) _ less.hyps [OF s1(3,2) less.prems(2,3)] s1(3)] by simp
  qed
  show ?case
  proof (cases "w_lock (th_world s)")
    case True
    then obtain i where i: "thread_holds s i" using threads_relD(6) [OF R] by blast
    show ?thesis
    proof (cases i)
      case None
      then obtain s1 where s1: "th_do (host_io F chunk) (Tick [newline]) s = Some (Inr s1)"
          "threads_rel D good dev pos s1 (foldl (spec_turn D) S (turn_taken (Tick [newline]) s s1))"
          "th_rank clients s1 < th_rank clients s" "th_client s1 = th_client s"
        using timer_progress [OF R, of chunk clients] i unfolding thread_holds_def by auto
      then show ?thesis
        using completes_step [OF s1(1) _ less.hyps [OF s1(3,2) less.prems(2,3)] s1(3)] less.prems(4)
        by (simp add: cmd_ok_def)
    next
      case (Some c)
      then have "t_holds (th_client s c)" using i by (simp add: thread_holds_def)
      then show ?thesis using one [of c] by (cases "th_client s c") simp_all
    qed
  next
    case False
    show ?thesis
    proof (cases "\<forall>c. ended (th_client s c)")
      case True
      then show ?thesis unfolding completes_def all_ended_def using False by (intro exI [of _ "[]"]) simp
    qed (use one False in blast)
  qed
qed

text \<open>Whenever the lock is free, the server is where the turns lead the abstract service.\<close>

lemma threads_free:
  assumes R: "threads_rel D good dev pos s S" and lk: "\<not> w_lock (th_world s)"
  shows "good (w_file (th_world s)) \<and> served_as (here dev pos (th_world s)) (w_socks (th_world s)) S"
proof -
  have "s_sent (w_socks (th_world s) c) = ss_sent S c \<and> s_open (w_socks (th_world s) c) = ss_live S c" if "c \<noteq> FILE_FD" for c
  proof -
    have "\<not> t_holds (th_client s c)" using threads_relD(6) [OF R] lk by (auto simp: thread_holds_def dest: spec [of _ "Some c"])
    then show ?thesis using threads_relD(4) [OF R that] by (cases "th_client s c") (auto simp: client_ok_def)
  qed
  then show ?thesis using threads_relD(1) [OF R] lk by (simp add: file_ok_def served_as_def)
qed

text \<open>Any execution from the start.\<close>

lemma threads_ok:
  assumes f: "good f" "st_ready D (dev f) (pos f)" and evs: "\<forall>c. \<forall>e\<in>set (evs c). event_ok e"
    and cl: "finite clients" "FILE_FD \<notin> clients"
    and reach: "th_reach (host_io F chunk) (start_threads timed f clients evs) ts s"
  shows "step_allowed t \<Longrightarrow> w_lock (th_world s) \<and> th_do (host_io F chunk) t s = Some (Inl Would_Block) \<or>
      (\<exists>s'. th_do (host_io F chunk) t s = Some (Inr s'))"
    and "thread_holds s i \<Longrightarrow> thread_holds s j \<Longrightarrow> i = j"
    and "\<not> w_lock (th_world s) \<Longrightarrow> good (w_file (th_world s)) \<and>
      served_as (here dev pos (th_world s)) (w_socks (th_world s)) (foldl (spec_turn D) (start_spec (dev f, pos f) clients evs) ts)"
    and "\<exists>us vs s'. length us \<le> th_rank clients s \<and> th_run (host_io F chunk) us s = Some (Inr s') \<and>
      th_reach (host_io F chunk) (start_threads timed f clients evs) (ts @ vs) s' \<and> all_ended s' \<and>
      (\<forall>c\<in>clients. \<not> s_open (w_socks (th_world s') c))"
proof -
  note rel = th_reach_rel [OF _ threads_rel_start [where good = good and dev = dev and pos = pos, OF f evs cl(2)]]
  note R = rel [OF reach]
  show "w_lock (th_world s) \<and> th_do (host_io F chunk) t s = Some (Inl Would_Block) \<or> (\<exists>s'. th_do (host_io F chunk) t s = Some (Inr s'))"
    if "step_allowed t"
    using th_do_sim [OF R that, of chunk] by blast
  show "i = j" if "thread_holds s i" "thread_holds s j" using threads_relD(7) [OF R] that by blast
  show "good (w_file (th_world s)) \<and>
      served_as (here dev pos (th_world s)) (w_socks (th_world s)) (foldl (spec_turn D) (start_spec (dev f, pos f) clients evs) ts)"
    if "\<not> w_lock (th_world s)"
    by (rule threads_free [OF R that])
  have "completes (host_io F chunk) (th_rank clients s) s"
    using th_reach_ended [OF reach] by (intro threads_complete [OF R cl]) (simp add: start_threads_def)
  then obtain us s' where us: "list_all step_allowed us" "th_run (host_io F chunk) us s = Some (Inr s')" "length us \<le> th_rank clients s" "all_ended s'"
    unfolding completes_def by blast
  obtain vs where vs: "th_reach (host_io F chunk) (start_threads timed f clients evs) (ts @ vs) s'"
    using th_run_reach [OF reach us(1,2)] by blast
  have "\<not> s_open (w_socks (th_world s') c)" if "c \<in> clients" for c
  proof -
    have "c \<noteq> FILE_FD" using that cl(2) by blast
    note k = threads_relD(4) [OF rel [OF vs] this]
    have "ended (th_client s' c)" using us(4) by (simp add: all_ended_def)
    then show ?thesis using k by (cases "th_client s' c") (simp_all add: client_ok_def)
  qed
  then show "\<exists>us vs s'. length us \<le> th_rank clients s \<and> th_run (host_io F chunk) us s = Some (Inr s') \<and>
      th_reach (host_io F chunk) (start_threads timed f clients evs) (ts @ vs) s' \<and> all_ended s' \<and>
      (\<forall>c\<in>clients. \<not> s_open (w_socks (th_world s') c))"
    using us vs by blast
qed

end

section \<open>The threads on the driver\<close>

text \<open>
  C21. The threads of any number of connections on the driver, interleaved at every lock, line and unlock, from a device in a
  good state whose last command is complete and with whatever bytes the clients send. In every state an
  execution reaches, a thread that goes on neither faults nor blocks, except that it waits for the file
  lock while another holds it; no two threads are between the lock and the unlock. Whenever the lock is
  free, device, file position, the bytes each client has got and its open or closed connection are what
  whole turns in the order of the locks make of them, one chunk of one connection at a time. And from every such
  state at most \<open>th_rank\<close> more steps end all connections with the lock free: there is no deadlock.
\<close>

theorem threads_on_driver:
  assumes "calm K" "ioc_ok A" "rewinds L" "good_driver f" "a_rest (driver_dev f) = []"
    and "\<forall>c. \<forall>e\<in>set (evs c). event_ok e" "finite clients" "FILE_FD \<notin> clients"
    and "th_reach (host_io (driver_ops K A L) chunk) (start_threads False f clients evs) ts s"
  shows "(step_allowed t \<longrightarrow> (w_lock (th_world s) \<and> th_do (host_io (driver_ops K A L) chunk) t s = Some (Inl Would_Block)) \<or>
       (\<exists>s'. th_do (host_io (driver_ops K A L) chunk) t s = Some (Inr s'))) \<and>
    (thread_holds s i \<and> thread_holds s j \<longrightarrow> i = j) \<and>
    (\<not> w_lock (th_world s) \<longrightarrow> good_driver (w_file (th_world s)) \<and>
       served_as (driver_dev (w_file (th_world s)), driver_pos (w_file (th_world s))) (w_socks (th_world s))
         (foldl (spec_turn driver_store) (start_spec (driver_dev f, driver_pos f) clients evs) ts)) \<and>
    (\<exists>us vs s'. length us \<le> th_rank clients s \<and> th_run (host_io (driver_ops K A L) chunk) us s = Some (Inr s') \<and>
       th_reach (host_io (driver_ops K A L) chunk) (start_threads False f clients evs) (ts @ vs) s' \<and> all_ended s' \<and>
       (\<forall>c\<in>clients. \<not> s_open (w_socks (th_world s') c)))"
proof -
  have "st_ready driver_store (driver_dev f) (driver_pos f)" using assms(5) by simp
  note ok = file_device.threads_ok [OF driver_file_device [OF assms(1-3)] assms(4) this assms(6-9)]
  show ?thesis using ok(1,4) ok(2) [of i j] ok(3) by blast
qed

theorem threads_on_driver_witness:
  "\<exists>ts s. th_reach (host_io (driver_ops first_fit linux_ioc zero_seek) 0)
      (start_threads False fresh_driver {4, 5} (\<lambda>c. if c = 4 then [Chunk [97, 10]] else [Chunk [98, 10], Again])) ts s \<and>
     all_ended s \<and> \<not> s_open (w_socks (th_world s) 4) \<and> good_driver (w_file (th_world s)) \<and>
     served_as (driver_dev (w_file (th_world s)), driver_pos (w_file (th_world s))) (w_socks (th_world s))
       (foldl (spec_turn driver_store) (start_spec (\<lparr>a_cmds = [], a_rest = []\<rparr>, driver_pos fresh_driver) {4, 5}
          (\<lambda>c. if c = 4 then [Chunk [97, 10]] else [Chunk [98, 10], Again])) ts)"
proof -
  let ?evs = "\<lambda>c. if c = 4 then [Chunk [97, 10]] else [Chunk [98 :: byte, 10], Again]"
  have ev: "\<forall>c. \<forall>e\<in>set (?evs c). event_ok e" by (simp add: BUFFER_SIZE_def)
  have cl: "finite {4, 5 :: int}" "FILE_FD \<notin> {4, 5}" by (simp_all add: FILE_FD_def)
  have r: "a_rest (driver_dev fresh_driver) = []" by (simp add: fresh_driver(2))
  note served = threads_on_driver [OF calm_first_fit linux_ioc_ok rewinds_zero_seek fresh_driver(1) r ev cl]
  obtain vs s' where s': "th_reach (host_io (driver_ops first_fit linux_ioc zero_seek) 0) (start_threads False fresh_driver {4, 5} ?evs) vs s'"
      "all_ended s'" "\<forall>c\<in>{4, 5}. \<not> s_open (w_socks (th_world s') c)"
    using served [where chunk = 0 and t = "Client 4" and i = None and j = None, OF th_init] by auto
  show ?thesis
    using s' served [OF s'(1)] by (intro exI [of _ vs] exI [of _ s']) (simp add: fresh_driver(2) all_ended_def)
qed

section \<open>The threads and the timer on a regular file\<close>

text \<open>
  C22. The timer thread and the threads of any number of connections on a regular file whose position is at its end,
  interleaved at every lock, line, write and unlock. In every state an execution reaches, a thread that goes on neither faults nor
  blocks, except that it waits for the lock while another thread holds it, and no two are between the
  lock and the unlock. Whenever the lock is free, the file is what it was, followed by the time stamps
  and the data lines in the order of the locks, no byte overwritten and the position at its end, and each client has
  got the file as of its turns. From every such state at most \<open>th_rank\<close> more steps end all connections with the lock free.
\<close>

theorem threads_and_timer_on_file:
  assumes "pf_off f = length (pf_bytes f)" "\<forall>c. \<forall>e\<in>set (evs c). event_ok e" "finite clients" "FILE_FD \<notin> clients"
    and "th_reach (host_io plain_ops chunk) (start_threads True f clients evs) ts s"
  shows "(step_allowed t \<longrightarrow> (w_lock (th_world s) \<and> th_do (host_io plain_ops chunk) t s = Some (Inl Would_Block)) \<or>
       (\<exists>s'. th_do (host_io plain_ops chunk) t s = Some (Inr s'))) \<and>
    (thread_holds s i \<and> thread_holds s j \<longrightarrow> i = j) \<and>
    (\<not> w_lock (th_world s) \<longrightarrow> prefix (pf_bytes f) (pf_bytes (w_file (th_world s))) \<and>
       pf_off (w_file (th_world s)) = length (pf_bytes (w_file (th_world s))) \<and>
       served_as (pf_bytes (w_file (th_world s)), pf_off (w_file (th_world s))) (w_socks (th_world s))
         (foldl (spec_turn plain_store) (start_spec (pf_bytes f, pf_off f) clients evs) ts)) \<and>
    (\<exists>us vs s'. length us \<le> th_rank clients s \<and> th_run (host_io plain_ops chunk) us s = Some (Inr s') \<and>
       th_reach (host_io plain_ops chunk) (start_threads True f clients evs) (ts @ vs) s' \<and> all_ended s' \<and>
       (\<forall>c\<in>clients. \<not> s_open (w_socks (th_world s') c)))"
proof -
  have r: "st_ready plain_store (pf_bytes f) (pf_off f)" using assms(1) by simp
  note ok = plain.threads_ok [OF _ r assms(2-5), simplified]
  let ?S = "foldl (spec_turn plain_store) (start_spec (pf_bytes f, pf_off f) clients evs) ts"
  have g: "prefix (pf_bytes f) (fst (ss_store ?S))"
    using spec_turns_grow [of "start_spec (pf_bytes f, pf_off f) clients evs" ts] by (simp add: start_spec_def)
  have "th_reach (host_io plain_ops chunk) (start_threads True f clients evs) ts s \<Longrightarrow> file_ok plain_store (\<lambda>f. True) pf_bytes pf_off (th_world s) ?S"
    by (rule threads_relD(1) [OF plain.th_reach_rel], assumption, rule threads_rel_start) (use assms(2,4) r in simp_all)
  then have e: "pf_off (w_file (th_world s)) = length (pf_bytes (w_file (th_world s)))"
    using assms(5) by (simp add: file_ok_def)
  have "prefix (pf_bytes f) (pf_bytes (w_file (th_world s)))" if "\<not> w_lock (th_world s)"
    using ok(3) [OF that] g unfolding served_as_def by (metis fst_conv)
  then show ?thesis using ok(1,4) ok(2) [of i j] ok(3) e by blast
qed

theorem threads_and_timer_on_file_witness:
  "\<exists>ts s. th_reach (host_io plain_ops 0) (start_threads True \<lparr>pf_bytes = [98, 10], pf_off = 2\<rparr> {4, 5} (\<lambda>c. [Chunk [97, 10]])) ts s \<and>
     all_ended s \<and> \<not> s_open (w_socks (th_world s) 5) \<and> prefix [98, 10] (pf_bytes (w_file (th_world s)))"
proof -
  let ?f = "\<lparr>pf_bytes = [98, 10], pf_off = 2\<rparr>" and ?evs = "\<lambda>c :: int. [Chunk [97, 10]]"
  have ev: "\<forall>c. \<forall>e\<in>set (?evs c). event_ok e" by (simp add: BUFFER_SIZE_def)
  have cl: "finite {4, 5 :: int}" "FILE_FD \<notin> {4, 5}" "pf_off ?f = length (pf_bytes ?f)" by (simp_all add: FILE_FD_def)
  note served = threads_and_timer_on_file [OF cl(3) ev cl(1,2)]
  obtain vs s' where s': "th_reach (host_io plain_ops 0) (start_threads True ?f {4, 5} ?evs) vs s'"
      "all_ended s'" "\<forall>c\<in>{4, 5}. \<not> s_open (w_socks (th_world s') c)"
    using served [where chunk = 0 and t = "Client 4" and i = None and j = None, OF th_init] by auto
  show ?thesis
    using s' served [OF s'(1)] by (intro exI [of _ vs] exI [of _ s']) (simp add: all_ended_def)
qed

end
