(* ===== verification/Socket_Server.thy ===== *)
theory Socket_Server
  imports Queue_Slist C_Strings Socket_Client
begin

text \<open>
  The process around the connections: options, start-up, the accept loop, the list of connections
  and the exit of \<^verbatim>\<open>server/aesdsocket.c\<close>.

  The state holds the global variables, and whether the server is built for the driver
  (\<^verbatim>\<open>USE_AESD_CHAR_DEVICE\<close>). A \<^verbatim>\<open>struct connection\<close> lives in memory at an address; its
  list link is kept in the map \<open>conn_next\<close> that the list macros work on, with the same live
  addresses. What the process does to the outside is a trace of effects, the last first. The
  answers of the operating system are arguments. Log output is left out.
\<close>

section \<open>State\<close>

datatype effect =
    Close int
  | Remove_File string
  | Join nat
  | Cancel_Timer "nat option"
  | Exit int

record connection =
  conn_fd :: int
  thread_id :: nat
  thread_complete :: bool

record server =
  char_device :: bool
  server_fd :: int
  file_fd :: int
  should_exit :: bool
  timer_thread :: "nat option"
  connections :: ref
  conn_mem :: "nat \<Rightarrow> connection option"
  conn_next :: links
  connections_lock :: bool
  effects :: "effect list"

definition EXIT_SUCCESS :: int where
  "EXIT_SUCCESS = 0"

definition EXIT_FAILURE :: int where
  "EXIT_FAILURE = 1"

definition file_path :: "bool \<Rightarrow> string" where
  "file_path use_char_device = (if use_char_device then ''/dev/aesdchar'' else ''/tmp/aesdsocket'')"

definition emit :: "effect \<Rightarrow> server \<Rightarrow> server" where
  "emit e s = s\<lparr>effects := e # effects s\<rparr>"

definition free_conn :: "nat \<Rightarrow> server \<Rightarrow> server checked" where
  "free_conn a s =
     (if conn_mem s a = None then Inl Bad_Free
      else Inr (s\<lparr>conn_mem := (conn_mem s)(a := None), conn_next := (conn_next s)(a := None)\<rparr>))"

definition load_conn :: "nat \<Rightarrow> server \<Rightarrow> connection checked" where
  "load_conn a s = (case conn_mem s a of None \<Rightarrow> Inl Bad_Access | Some c \<Rightarrow> Inr c)"

definition lock_connections :: "server \<Rightarrow> server checked" where
  "lock_connections s = (if connections_lock s then Inl Would_Block else Inr (s\<lparr>connections_lock := True\<rparr>))"

definition unlock_connections :: "server \<Rightarrow> server" where
  "unlock_connections s = s\<lparr>connections_lock := False\<rparr>"

section \<open>Options\<close>

type_synonym in_port_t = "16 word"

record options =
  port :: in_port_t
  daemonize :: bool

text \<open>
  The options are the successive results of \<^verbatim>\<open>getopt\<close>, each with the argument it points to. The
  result is the exit status when the process ends.
\<close>

definition printUsage :: int where
  "printUsage = EXIT_FAILURE"

fun parseArgs :: "(char \<times> byte list) list \<Rightarrow> options \<Rightarrow> int + options" where
  "parseArgs [] opts = Inr opts"
| "parseArgs ((opt, optarg) # rest) opts =
     (if opt = CHR ''p'' then parseArgs rest (opts\<lparr>port := word_of_int (strtol optarg)\<rparr>)
      else if opt = CHR ''d'' then parseArgs rest (opts\<lparr>daemonize := True\<rparr>)
      else if opt = CHR ''?'' \<or> opt = CHR ''h'' then Inl EXIT_FAILURE
      else Inl printUsage)"

section \<open>The list of connections\<close>

definition set_complete :: "nat \<Rightarrow> server \<Rightarrow> server checked" where
  "set_complete a s = cbind (load_conn a s) (\<lambda>c.
     Inr (s\<lparr>conn_mem := (conn_mem s)(a \<mapsto> c\<lparr>thread_complete := True\<rparr>)\<rparr>))"

definition mark_all_threads_complete :: "server \<Rightarrow> server run" where
  "mark_all_threads_complete s =
     rbind (Some (lock_connections s)) (\<lambda>s1.
     rbind (SLIST_FOREACH conn_next (\<lambda>a t. Some (set_complete a t)) (connections s1) s1) (\<lambda>s2.
     Some (Inr (unlock_connections s2))))"

text \<open>The body of the loop that collects the threads: a complete one is joined, removed and freed.\<close>

definition collect_body :: "nat \<Rightarrow> server \<Rightarrow> server run" where
  "collect_body a s =
     rbind (Some (load_conn a s)) (\<lambda>c.
       if thread_complete c
       then let s1 = emit (Join (thread_id c)) s
            in rbind (SLIST_REMOVE (connections s1) (Some a) (conn_next s1)) (\<lambda>(head, nx).
                 Some (free_conn a (s1\<lparr>connections := head, conn_next := nx\<rparr>)))
       else Some (Inr s))"

definition collect_complete_threads :: "server \<Rightarrow> server run" where
  "collect_complete_threads s =
     rbind (Some (lock_connections s)) (\<lambda>s1.
     rbind (SLIST_FOREACH conn_next collect_body (connections s1) s1) (\<lambda>s2.
     Some (Inr (unlock_connections s2))))"

section \<open>Leaving\<close>

definition cleanUpAndExit :: "int \<Rightarrow> server \<Rightarrow> server run" where
  "cleanUpAndExit status s =
     (let s1 = (if server_fd s > 0 then (emit (Close (server_fd s)) s)\<lparr>server_fd := - 1\<rparr> else s);
          s2 = (if file_fd s1 > 0
                then (emit (Remove_File (file_path (char_device s1))) (emit (Close (file_fd s1)) s1))\<lparr>file_fd := - 1\<rparr> else s1)
      in rbind (collect_complete_threads (s2\<lparr>should_exit := True\<rparr>)) (\<lambda>s3.
         Some (Inr (emit (Exit status) (emit (Cancel_Timer (timer_thread s3)) s3)))))"

definition signal_handler :: "int \<Rightarrow> server \<Rightarrow> server run" where
  "signal_handler signal s = cleanUpAndExit EXIT_SUCCESS s"

section \<open>Becoming a daemon\<close>

text \<open>
  The results of the two \<^verbatim>\<open>fork\<close> calls and of \<^verbatim>\<open>setsid\<close> are arguments, negative for a failure, zero in
  a child and positive in a parent. \<open>Daemon\<close> says that this process goes on.
\<close>

datatype daemon_end = Daemon | Ended

definition deamonize :: "int \<Rightarrow> int \<Rightarrow> int \<Rightarrow> server \<Rightarrow> (daemon_end \<times> server) run" where
  "deamonize fork1 sid fork2 s =
     (let fail = rbind (cleanUpAndExit EXIT_FAILURE s) (\<lambda>s'. Some (Inr (Ended, s')));
          parent = Some (Inr (Ended, emit (Exit EXIT_SUCCESS) s))
      in if fork1 < 0 then fail
         else if fork1 > 0 then parent
         else if sid < 0 then fail
         else if fork2 < 0 then fail
         else if fork2 > 0 then parent
         else Some (Inr (Daemon, emit (Close 2) (emit (Close 1) (emit (Close 0) s)))))"

section \<open>The accept loop\<close>

text \<open>
  One round: \<open>accepted_fd\<close> is the result of \<^verbatim>\<open>accept\<close>, \<open>mem\<close> the address \<^verbatim>\<open>malloc\<close> returns and \<open>tid\<close> the
  new thread, or nothing when \<^verbatim>\<open>pthread_create\<close> fails.
\<close>

definition accept_round :: "int \<Rightarrow> nat option \<Rightarrow> nat option \<Rightarrow> server \<Rightarrow> server run" where
  "accept_round accepted_fd mem tid s =
     (if accepted_fd < 0 then Some (Inr s)
      else case mem of
        None \<Rightarrow> Some (Inl Null_Deref)
      | Some a \<Rightarrow>
          let s1 = s\<lparr>conn_mem := (conn_mem s)(a \<mapsto> \<lparr>conn_fd = accepted_fd, thread_id = 0, thread_complete = False\<rparr>),
                     conn_next := (conn_next s)(a \<mapsto> None)\<rparr>
          in case tid of
               None \<Rightarrow> rbind (Some (free_conn a s1)) (\<lambda>s2. Some (Inr (emit (Close accepted_fd) s2)))
             | Some t \<Rightarrow>
                 let s2 = s1\<lparr>conn_mem := (conn_mem s1)(a \<mapsto>
                            \<lparr>conn_fd = accepted_fd, thread_id = t, thread_complete = False\<rparr>)\<rparr>
                 in rbind (Some (lock_connections s2)) (\<lambda>s3.
                    rbind (Some (SLIST_INSERT_HEAD (connections s3) (Some a) (conn_next s3))) (\<lambda>(head, nx).
                    collect_complete_threads (unlock_connections (s3\<lparr>connections := head, conn_next := nx\<rparr>)))))"

text \<open>The loop over the answers of the system, which ends when \<^verbatim>\<open>should_exit\<close> is set.\<close>

fun accept_loop :: "(int \<times> nat option \<times> nat option) list \<Rightarrow> server \<Rightarrow> server run" where
  "accept_loop [] s = (if should_exit s then cleanUpAndExit EXIT_SUCCESS s else Some (Inr s))"
| "accept_loop ((fd, mem, tid) # rest) s =
     (if should_exit s then cleanUpAndExit EXIT_SUCCESS s
      else rbind (accept_round fd mem tid s) (accept_loop rest))"

section \<open>Start-up\<close>

text \<open>
  The results of the system calls of \<^verbatim>\<open>main\<close> up to the accept loop. The listening socket is stored in
  a local variable of \<^verbatim>\<open>main\<close> that has the name of the global one, so the global \<open>server_fd\<close> of the
  state is not assigned; \<open>Serving\<close> holds the local variable. The timer thread, whose identifier is
  \<open>r_timer\<close> or nothing when it cannot be created, exists only in the build without the driver.
\<close>

record startup =
  r_open :: int
  r_socket :: int
  r_setsockopt :: int
  r_bind :: int
  r_listen :: int
  r_fork1 :: int
  r_setsid :: int
  r_fork2 :: int
  r_timer :: "nat option"

datatype start_end = Serving int | Stopped

definition init_server :: "bool \<Rightarrow> server" where
  "init_server use_char_device = \<lparr>char_device = use_char_device, server_fd = 0, file_fd = 0, should_exit = False, timer_thread = None, connections = None, conn_mem = Map.empty,
     conn_next = Map.empty, connections_lock = False, effects = []\<rparr>"

definition start_main :: "bool \<Rightarrow> startup \<Rightarrow> (char \<times> byte list) list \<Rightarrow> (start_end \<times> server) run" where
  "start_main use_char_device r args =
     (let die = (\<lambda>s. rbind (cleanUpAndExit EXIT_FAILURE s) (\<lambda>s'. Some (Inr (Stopped, s'))))
      in case parseArgs args \<lparr>port = 9000, daemonize = False\<rparr> of
           Inl status \<Rightarrow> Some (Inr (Stopped, emit (Exit status) (init_server use_char_device)))
         | Inr opts \<Rightarrow>
             let s1 = (init_server use_char_device)\<lparr>file_fd := r_open r\<rparr>
             in if r_open r < 0 then die s1
                else if r_socket r < 0 then die s1
                else if r_setsockopt r < 0 then die s1
                else if r_bind r < 0 then die s1
                else if r_listen r < 0 then die s1
                else rbind (if daemonize opts then deamonize (r_fork1 r) (r_setsid r) (r_fork2 r) s1
                            else Some (Inr (Daemon, s1))) (\<lambda>(d, s2).
                     case d of
                       Ended \<Rightarrow> Some (Inr (Stopped, s2))
                     | Daemon \<Rightarrow>
                         let s3 = s2\<lparr>connections := SLIST_INIT\<rparr>
                         in Some (Inr (Serving (r_socket r),
                              if use_char_device then s3 else s3\<lparr>timer_thread := r_timer r\<rparr>))))"

end
