(* ===== verification/Server_Properties.thy ===== *)
theory Server_Properties
  imports Socket_Server
begin

text \<open>
  The list of connections over all histories of the server: the invariant \<open>srv_inv\<close>, what collecting
  the threads does when none and when some are complete, and the step relation of the accept loop
  and of the threads that finish.
\<close>

section \<open>Invariant\<close>

definition srv_inv :: "server \<Rightarrow> nat list \<Rightarrow> bool" where
  "srv_inv s xs \<longleftrightarrow> chain (conn_next s) (connections s) xs \<and> dom (conn_mem s) = dom (conn_next s) \<and>
     \<not> connections_lock s"

definition is_complete :: "server \<Rightarrow> nat \<Rightarrow> bool" where
  "is_complete s a \<longleftrightarrow> (case conn_mem s a of None \<Rightarrow> False | Some c \<Rightarrow> thread_complete c)"

lemma srv_inv_live: "srv_inv s xs \<Longrightarrow> a \<in> set xs \<Longrightarrow> \<exists>c. conn_mem s a = Some c"
  using chain_live [of "conn_next s" "connections s" xs a] unfolding srv_inv_def by blast

lemma lock_unlock: "\<not> connections_lock s \<Longrightarrow> unlock_connections (s\<lparr>connections_lock := True\<rparr>) = s"
  by (simp add: unlock_connections_def)

lemma collect_body_idle:
  "conn_mem s a = Some c \<Longrightarrow> \<not> is_complete s a \<Longrightarrow> collect_body a s = Some (Inr s)"
  by (simp add: collect_body_def load_conn_def is_complete_def)

text \<open>With no complete thread, collecting changes nothing.\<close>

lemma collect_idle:
  assumes inv: "srv_inv s xs" and idle: "\<forall>a\<in>set xs. \<not> is_complete s a"
  shows "collect_complete_threads s = Some (Inr s)"
proof -
  let ?s = "s\<lparr>connections_lock := True\<rparr>"
  have "SLIST_FOREACH conn_next collect_body (connections ?s) ?s = Some (Inr (fold (\<lambda>a t. t) xs ?s))"
  proof (rule SLIST_FOREACH_visits [where I = "\<lambda>t. t = ?s"])
    show "chain (conn_next ?s) (connections ?s) xs" using inv by (simp add: srv_inv_def)
    fix a t
    assume a: "a \<in> set xs" "t = ?s"
    obtain c where "conn_mem s a = Some c" using srv_inv_live [OF inv a(1)] by blast
    then have "collect_body a t = Some (Inr t)"
      using a idle by (intro collect_body_idle) (auto simp: is_complete_def)
    with a show "\<exists>s'. collect_body a t = Some (Inr s') \<and> s' = t \<and> s' = ?s \<and> (\<forall>b\<in>set xs. conn_next s' b = conn_next t b)"
      by simp
  qed simp
  moreover have "fold (\<lambda>a t. t) xs ?s = ?s" by (induction xs) simp_all
  ultimately show ?thesis
    using inv by (simp add: collect_complete_threads_def lock_connections_def srv_inv_def lock_unlock)
qed

text \<open>An iteration whose body frees the current element reads freed memory.\<close>

lemma SLIST_FOREACH_freed:
  assumes "chain (lk s) head (us @ y # vs)"
    and "\<And>a. a \<in> set us \<Longrightarrow> body a s = Some (Inr s)"
    and "body y s = Some (Inr s')" "lk s' y = None"
  shows "SLIST_FOREACH lk body head s = Some (Inl Bad_Access)"
proof -
  let ?b = "\<lambda>(var, s). case var of None \<Rightarrow> Some (Inr (Inr s))
      | Some a \<Rightarrow> rbind (body a s) (\<lambda>s'. rbind (Some (SLIST_NEXT (lk s') var)) (\<lambda>n. Some (Inr (Inl (n, s')))))"
  have "run_iter ?b (r, s) = Some (Inl Bad_Access)"
    if "chain (lk s) r (ws @ y # vs)" "set ws \<subseteq> set us" for r ws
    using that
  proof (induction ws arbitrary: r)
    case Nil
    then show ?case using assms(3,4) by (intro run_iter_step) (auto simp: SLIST_NEXT_def)
  next
    case (Cons w ws)
    then obtain n where n: "r = Some w" "lk s w = Some n" "chain (lk s) n (ws @ y # vs)" by auto
    have "run_iter ?b (r, s) = run_iter ?b (n, s)"
      using n assms(2) [of w] Cons.prems(2) by (intro run_iter_step) (simp add: link_simps)
    then show ?case using Cons.IH [OF n(3)] Cons.prems(2) by simp
  qed
  from this [of head us] assms(1) show ?thesis unfolding SLIST_FOREACH_def SLIST_FIRST_def by simp
qed

lemma first_complete:
  assumes "a \<in> set xs" "P a"
  obtains us y vs where "xs = us @ y # vs" "P y" "\<forall>u\<in>set us. \<not> P u"
  using split_list_first_prop [of xs P] assms by blast

lemma collect_body_complete:
  assumes c: "chain (conn_next s) (connections s) xs" and a: "a \<in> set xs" "conn_mem s a = Some c" "is_complete s a"
  shows "\<exists>s'. collect_body a s = Some (Inr s') \<and> conn_next s' a = None \<and>
    chain (conn_next s') (connections s') (remove1 a xs)"
proof -
  let ?s1 = "emit (Join (thread_id c)) s"
  obtain head nx where r: "SLIST_REMOVE (connections s) (Some a) (conn_next s) = Some (Inr (head, nx))"
      "chain nx head (remove1 a xs)"
    using SLIST_REMOVE_chain [OF c a(1)] by blast
  have "a \<notin> set (remove1 a xs)" using chain_distinct [OF c] by simp
  then have "chain (nx(a := None)) head (remove1 a xs)" using r(2) by (simp add: chain_frame)
  then show ?thesis
    using a r by (simp add: collect_body_def load_conn_def is_complete_def emit_def free_conn_def)
qed

lemma collect_complete:
  assumes inv: "srv_inv s xs" and a: "a \<in> set xs" "is_complete s a"
  shows "collect_complete_threads s = Some (Inl Bad_Access)"
proof -
  let ?s = "s\<lparr>connections_lock := True\<rparr>"
  obtain us y vs where xs: "xs = us @ y # vs" "is_complete s y" "\<forall>u\<in>set us. \<not> is_complete s u"
    using a by (rule first_complete)
  have ch: "chain (conn_next ?s) (connections ?s) xs" using inv by (simp add: srv_inv_def)
  have ic: "is_complete ?s b = is_complete s b" for b by (simp add: is_complete_def)
  obtain c where "conn_mem ?s y = Some c" using srv_inv_live [OF inv] xs(1) by force
  then obtain s' where s': "collect_body y ?s = Some (Inr s')" "conn_next s' y = None"
    using collect_body_complete [OF ch _ _ xs(2) [folded ic]] xs(1) by auto
  have "SLIST_FOREACH conn_next collect_body (connections ?s) ?s = Some (Inl Bad_Access)"
  proof (rule SLIST_FOREACH_freed [of conn_next ?s _ us y vs collect_body s'])
    show "chain (conn_next ?s) (connections ?s) (us @ y # vs)" using ch xs(1) by simp
    show "collect_body y ?s = Some (Inr s')" "conn_next s' y = None" by (rule s')+
    fix u
    assume u: "u \<in> set us"
    then obtain d where "conn_mem ?s u = Some d" using srv_inv_live [OF inv, of u] xs(1) by auto
    then show "collect_body u ?s = Some (Inr ?s)" using u xs(3) ic by (intro collect_body_idle) auto
  qed
  then show ?thesis using inv by (simp add: collect_complete_threads_def lock_connections_def srv_inv_def)
qed

section \<open>One accepted connection\<close>

definition with_conn :: "nat \<Rightarrow> int \<Rightarrow> nat \<Rightarrow> server \<Rightarrow> server" where
  "with_conn a fd t s = s\<lparr>connections := Some a,
     conn_mem := (conn_mem s)(a \<mapsto> \<lparr>conn_fd = fd, thread_id = t, thread_complete = False\<rparr>),
     conn_next := (conn_next s)(a \<mapsto> connections s)\<rparr>"

lemma with_conn_inv:
  assumes "srv_inv s xs" "conn_mem s a = None"
  shows "srv_inv (with_conn a fd t s) (a # xs)" "\<not> is_complete (with_conn a fd t s) a"
    "b \<noteq> a \<Longrightarrow> is_complete (with_conn a fd t s) b = is_complete s b"
proof -
  have "a \<notin> set xs" using srv_inv_live [OF assms(1)] assms(2) by force
  then show "srv_inv (with_conn a fd t s) (a # xs)"
    using assms by (auto simp: srv_inv_def with_conn_def chain_frame)
qed (auto simp: is_complete_def with_conn_def)

lemma accept_round_unfold:
  assumes "srv_inv s xs" "conn_mem s a = None" "0 \<le> fd"
  shows "accept_round fd (Some a) (Some t) s = collect_complete_threads (with_conn a fd t s)"
    "accept_round fd (Some a) None s = Some (Inr (emit (Close fd) s))"
proof -
  have "conn_next s a = None" using assms(1,2) unfolding srv_inv_def by blast
  then show "accept_round fd (Some a) (Some t) s = collect_complete_threads (with_conn a fd t s)"
    "accept_round fd (Some a) None s = Some (Inr (emit (Close fd) s))"
    using assms by (cases s; simp add: accept_round_def lock_connections_def srv_inv_def SLIST_INSERT_HEAD_def link_simps
        unlock_connections_def with_conn_def free_conn_def emit_def fun_upd_idem)+
qed

section \<open>Marking and finishing\<close>

lemma set_complete_eq:
  assumes "conn_mem s a = Some c"
  shows "set_complete a s = Inr (s\<lparr>conn_mem := (conn_mem s)(a \<mapsto> c\<lparr>thread_complete := True\<rparr>)\<rparr>)"
  using assms by (simp add: set_complete_def load_conn_def)

definition marked :: "nat \<Rightarrow> server \<Rightarrow> server" where
  "marked a s = s\<lparr>conn_mem := (conn_mem s)(a := map_option (thread_complete_update (\<lambda>_. True)) (conn_mem s a))\<rparr>"

lemma marked_simps [simp]:
  "conn_next (marked a s) = conn_next s" "connections (marked a s) = connections s"
  "connections_lock (marked a s) = connections_lock s" "dom (conn_mem (marked a s)) = dom (conn_mem s)"
  "effects (marked a s) = effects s" "server_fd (marked a s) = server_fd s" "file_fd (marked a s) = file_fd s"
  "should_exit (marked a s) = should_exit s" "char_device (marked a s) = char_device s"
  "timer_thread (marked a s) = timer_thread s"
  by (auto simp: marked_def)

lemma marked_inv: "srv_inv s xs \<Longrightarrow> srv_inv (marked a s) xs"
  by (simp add: srv_inv_def)

lemma fold_marked:
  "conn_mem (fold marked xs s) b =
     (if b \<in> set xs then map_option (thread_complete_update (\<lambda>_. True)) (conn_mem s b) else conn_mem s b)"
proof (induction xs arbitrary: s)
  case (Cons x xs)
  have m: "conn_mem (marked x s) b =
      (if b = x then map_option (thread_complete_update (\<lambda>_. True)) (conn_mem s b) else conn_mem s b)"
    by (simp add: marked_def)
  show ?case unfolding fold.simps o_apply Cons m by (cases "conn_mem s b") auto
qed simp

lemma fold_marked_other [simp]:
  "conn_next (fold marked xs s) = conn_next s" "connections (fold marked xs s) = connections s"
  "connections_lock (fold marked xs s) = connections_lock s" "dom (conn_mem (fold marked xs s)) = dom (conn_mem s)"
  "effects (fold marked xs s) = effects s"
  by (induction xs arbitrary: s) simp_all

lemma mark_all_eq:
  assumes inv: "srv_inv s xs"
  shows "mark_all_threads_complete s = Some (Inr (unlock_connections (fold marked xs (s\<lparr>connections_lock := True\<rparr>))))"
proof -
  let ?s = "s\<lparr>connections_lock := True\<rparr>"
  have "SLIST_FOREACH conn_next (\<lambda>a t. Some (set_complete a t)) (connections ?s) ?s = Some (Inr (fold marked xs ?s))"
  proof (rule SLIST_FOREACH_visits [where I = "\<lambda>t. dom (conn_mem t) = dom (conn_mem s)"])
    show "chain (conn_next ?s) (connections ?s) xs" using inv by (simp add: srv_inv_def)
    fix a and t :: server
    assume a: "a \<in> set xs" "dom (conn_mem t) = dom (conn_mem s)"
    then obtain c where "conn_mem t a = Some c" using srv_inv_live [OF inv a(1)] by blast
    then have "set_complete a t = Inr (marked a t)" by (simp add: set_complete_eq marked_def)
    then show "\<exists>s'. Some (set_complete a t) = Some (Inr s') \<and> s' = marked a t \<and> dom (conn_mem s') = dom (conn_mem s) \<and>
        (\<forall>b\<in>set xs. conn_next s' b = conn_next t b)" using a by simp
  qed simp
  then show ?thesis
    using inv by (simp add: mark_all_threads_complete_def lock_connections_def srv_inv_def)
qed

section \<open>Histories\<close>

text \<open>
  The server after start-up: rounds of the accept loop, in which the system answers as it likes but
  memory it hands out is not in use, and threads of the list that finish.
\<close>

inductive srv_step :: "server \<Rightarrow> server \<Rightarrow> bool" where
  accepted: "(\<And>a. mem = Some a \<Longrightarrow> conn_mem s a = None) \<Longrightarrow>
    accept_round fd mem tid s = Some (Inr s') \<Longrightarrow> srv_step s s'"
| finished: "set_complete a s = Inr s' \<Longrightarrow> srv_step s s'"

inductive srv_reach :: "server \<Rightarrow> bool" where
  started: "start_main b r args = Some (Inr (Serving sock, s)) \<Longrightarrow> srv_reach s"
| stepped: "srv_reach s \<Longrightarrow> srv_step s s' \<Longrightarrow> srv_reach s'"

definition srv_good :: "server \<Rightarrow> bool" where
  "srv_good s \<longleftrightarrow> (\<exists>xs. srv_inv s xs \<and> dom (conn_mem s) = set xs) \<and> server_fd s = 0 \<and> 0 \<le> file_fd s \<and>
     (char_device s \<longrightarrow> timer_thread s = None)"

lemma cleanUp_start:
  assumes "server_fd s = 0" "connections s = None" "\<not> connections_lock s" "conn_mem s = Map.empty" "conn_next s = Map.empty"
  shows "\<exists>s'. cleanUpAndExit status s = Some (Inr s') \<and> Exit status \<in> set (effects s')"
proof -
  define t where "t = (if file_fd s > 0 then (emit (Remove_File (file_path (char_device s))) (emit (Close (file_fd s)) s))\<lparr>file_fd := - 1\<rparr> else s)
    \<lparr>should_exit := True\<rparr>"
  have "srv_inv t []" using assms by (simp add: t_def srv_inv_def emit_def)
  then have "collect_complete_threads t = Some (Inr t)" by (rule collect_idle) simp
  moreover have "cleanUpAndExit status s = rbind (collect_complete_threads t) (\<lambda>s3. Some (Inr (emit (Exit status) (emit (Cancel_Timer (timer_thread s3)) s3))))"
    using assms(1) by (simp add: cleanUpAndExit_def t_def Let_def)
  ultimately show ?thesis by (simp add: emit_def)
qed

lemma start_main_serving:
  assumes "start_main b r args = Some (Inr (Serving sock, s))"
  shows "srv_inv s [] \<and> conn_mem s = Map.empty \<and> server_fd s = 0 \<and> file_fd s = r_open r \<and> 0 \<le> r_open r \<and> sock = r_socket r \<and>
    char_device s = b \<and> timer_thread s = (if b then None else r_timer r)"
  using assms
  by (auto simp: start_main_def deamonize_def Let_def rbind_Inr_iff srv_inv_def init_server_def emit_def SLIST_INIT_def
      split: sum.splits if_splits daemon_end.splits)

lemma srv_step_good:
  assumes "srv_step s s'" "srv_good s"
  shows "srv_good s'"
  using assms
proof (induction rule: srv_step.induct)
  case (accepted mem s fd tid s')
  obtain xs where xs: "srv_inv s xs" "dom (conn_mem s) = set xs" "server_fd s = 0" "0 \<le> file_fd s" "char_device s \<longrightarrow> timer_thread s = None"
    using accepted.prems by (auto simp: srv_good_def)
  show ?case
  proof (cases "fd < 0")
    case True
    then show ?thesis using accepted by (simp add: accept_round_def)
  next
    case fd: False
    then obtain a where a: "mem = Some a" "conn_mem s a = None"
      using accepted.hyps by (cases mem) (auto simp: accept_round_def)
    show ?thesis
    proof (cases tid)
      case None
      then have "s' = emit (Close fd) s" using accept_round_unfold(2) [OF xs(1) a(2)] accepted.hyps(2) a(1) fd by simp
      then show ?thesis using xs unfolding srv_good_def by (intro conjI exI [of _ xs]) (auto simp: emit_def srv_inv_def)
    next
      case (Some t)
      let ?s = "with_conn a fd t s"
      note w = with_conn_inv [OF xs(1) a(2), where fd = fd and t = t]
      have run: "collect_complete_threads ?s = Some (Inr s')"
        using accept_round_unfold(1) [OF xs(1) a(2)] accepted.hyps(2) a(1) fd Some by simp
      have "\<forall>b\<in>set (a # xs). \<not> is_complete ?s b"
      proof (rule ccontr)
        assume "\<not> (\<forall>b\<in>set (a # xs). \<not> is_complete ?s b)"
        then obtain b where "b \<in> set (a # xs)" "is_complete ?s b" by blast
        then show False using collect_complete [OF w(1)] run by simp
      qed
      then have "s' = ?s" using collect_idle [OF w(1)] run by simp
      then show ?thesis using w(1) xs unfolding srv_good_def by (auto simp: with_conn_def)
    qed
  qed
next
  case (finished a s s')
  then obtain c where "conn_mem s a = Some c" by (auto simp: set_complete_def load_conn_def split: option.splits)
  then have "s' = marked a s" using finished.hyps by (simp add: set_complete_eq marked_def)
  then show ?case using finished.prems marked_inv [of s] by (auto simp: srv_good_def)
qed

lemma srv_reach_good: "srv_reach s \<Longrightarrow> srv_good s"
proof (induction rule: srv_reach.induct)
  case (started b r args sock s)
  then show ?case using start_main_serving [OF started] by (auto simp: srv_good_def)
qed (rule srv_step_good)

section \<open>Properties\<close>

text \<open>
  C26. In every state the server gets into, by any answers of the system and in any order of finishing
  threads, the list of connections is well formed: its links end, no connection is in it twice,
  every connection in it is allocated, and every allocated connection is in it, so that none is
  lost. The lock of the list is free between the rounds. The global variable of the listening
  socket is never set.
\<close>

theorem server_invariant:
  assumes "srv_reach s"
  shows "\<exists>xs. chain (conn_next s) (connections s) xs \<and> distinct xs \<and> dom (conn_mem s) = set xs \<and>
    dom (conn_next s) = set xs \<and> \<not> connections_lock s \<and> server_fd s = 0"
proof -
  obtain xs where "srv_inv s xs" "dom (conn_mem s) = set xs" "server_fd s = 0"
    using srv_reach_good [OF assms] by (auto simp: srv_good_def)
  then show ?thesis
    using chain_distinct [of "conn_next s" "connections s" xs] by (intro exI [of _ xs]) (auto simp: srv_inv_def)
qed

definition good_start :: startup where
  "good_start = \<lparr>r_open = 3, r_socket = 4, r_setsockopt = 0, r_bind = 0, r_listen = 0, r_fork1 = 0, r_setsid = 0, r_fork2 = 0, r_timer = None\<rparr>"

definition served_one :: server where
  "served_one = with_conn 7 5 1 ((init_server True)\<lparr>file_fd := 3\<rparr>)"

lemma served_one_reach: "srv_reach served_one"
proof -
  let ?s = "(init_server True)\<lparr>file_fd := 3\<rparr>"
  have "start_main True good_start [] = Some (Inr (Serving 4, ?s))"
    by (simp add: start_main_def good_start_def init_server_def SLIST_INIT_def)
  then have r: "srv_reach ?s" by (rule started)
  have i: "srv_inv ?s []" "conn_mem ?s 7 = None" by (simp_all add: srv_inv_def init_server_def)
  have "collect_complete_threads (with_conn 7 5 1 ?s) = Some (Inr (with_conn 7 5 1 ?s))"
    using with_conn_inv(1,2) [OF i] by (intro collect_idle) auto
  then have "accept_round 5 (Some 7) (Some 1) ?s = Some (Inr served_one)"
    using accept_round_unfold(1) [OF i] by (simp add: served_one_def)
  then show ?thesis using r i(2) by (intro stepped [OF r] accepted) auto
qed

theorem server_invariant_witness:
  "srv_reach served_one \<and> (\<exists>xs. chain (conn_next served_one) (connections served_one) xs \<and> dom (conn_mem served_one) = set xs)"
  using server_invariant [OF served_one_reach] served_one_reach by blast

text \<open>
  A new connection. When no thread of the list has finished, an accepted connection is recorded
  with its descriptor and thread and put at the head of the list, and the other connections stay
  as they are. When its thread cannot be created, the connection is freed, its descriptor closed
  and the list is unchanged.
\<close>

theorem accept_adds_connection:
  assumes "srv_inv s xs" "conn_mem s a = None" "0 \<le> fd" "\<forall>b\<in>set xs. \<not> is_complete s b"
  shows "(\<exists>s'. accept_round fd (Some a) (Some t) s = Some (Inr s') \<and> srv_inv s' (a # xs) \<and>
      conn_mem s' = (conn_mem s)(a \<mapsto> \<lparr>conn_fd = fd, thread_id = t, thread_complete = False\<rparr>) \<and>
      effects s' = effects s) \<and>
    accept_round fd (Some a) None s = Some (Inr (emit (Close fd) s))"
proof -
  let ?s = "with_conn a fd t s"
  note w = with_conn_inv [OF assms(1,2), where fd = fd and t = t]
  have "\<forall>b\<in>set (a # xs). \<not> is_complete ?s b" using w(2,3) assms(4) by fastforce
  then have "collect_complete_threads ?s = Some (Inr ?s)" by (rule collect_idle [OF w(1)])
  then show ?thesis
    using accept_round_unfold [OF assms(1-3)] w(1) by (simp add: with_conn_def)
qed

theorem accept_adds_connection_witness:
  "\<exists>s'. accept_round 5 (Some 7) (Some 1) (init_server True) = Some (Inr s') \<and> srv_inv s' [7]"
  using accept_adds_connection [of "init_server True" "[]" 7 5 1] by (auto simp: srv_inv_def init_server_def)

text \<open>
  Collecting finished threads reads freed memory. Whenever a thread of the list has finished, the
  loop that joins and frees it takes the link to the next connection from the memory it has just
  freed. So does every round of the accept loop that accepts a connection.
\<close>

theorem collect_use_after_free:
  assumes "srv_inv s xs" "a \<in> set xs" "is_complete s a"
  shows "collect_complete_threads s = Some (Inl Bad_Access) \<and>
    (\<forall>b fd t. conn_mem s b = None \<longrightarrow> 0 \<le> fd \<longrightarrow> accept_round fd (Some b) (Some t) s = Some (Inl Bad_Access))"
proof -
  have "accept_round fd (Some b) (Some t) s = Some (Inl Bad_Access)" if b: "conn_mem s b = None" "0 \<le> fd" for b fd t
  proof -
    note w = with_conn_inv [OF assms(1) b(1), where fd = fd and t = t]
    have "a \<noteq> b" using srv_inv_live [OF assms(1,2)] b(1) by auto
    then have "collect_complete_threads (with_conn b fd t s) = Some (Inl Bad_Access)"
      using w(3) assms(2,3) by (intro collect_complete [OF w(1), of a]) auto
    then show ?thesis using accept_round_unfold(1) [OF assms(1) b] by simp
  qed
  then show ?thesis using collect_complete [OF assms] by blast
qed

theorem collect_use_after_free_witness:
  "\<exists>s'. srv_step served_one s' \<and> collect_complete_threads s' = Some (Inl Bad_Access)"
proof -
  have c: "set_complete 7 served_one = Inr (marked 7 served_one)"
    by (simp add: set_complete_def load_conn_def marked_def served_one_def with_conn_def)
  have "srv_inv (marked 7 served_one) [7]" "is_complete (marked 7 served_one) 7"
    by (simp_all add: srv_inv_def is_complete_def marked_def served_one_def with_conn_def init_server_def)
  then have "collect_complete_threads (marked 7 served_one) = Some (Inl Bad_Access)"
    using collect_use_after_free [of "marked 7 served_one" "[7]" 7] by simp
  then show ?thesis using finished [OF c] by blast
qed

text \<open>
  Marking all threads: every connection of the list, and no other, is marked as complete; nothing
  else of a connection changes, the list is the same and its lock is free.
\<close>

theorem mark_all_marks_list:
  assumes "srv_inv s xs"
  shows "\<exists>s'. mark_all_threads_complete s = Some (Inr s') \<and> srv_inv s' xs \<and> effects s' = effects s \<and>
    (\<forall>a. conn_mem s' a = (if a \<in> set xs then map_option (thread_complete_update (\<lambda>_. True)) (conn_mem s a) else conn_mem s a))"
  using mark_all_eq [OF assms] assms
  by (intro exI [of _ "unlock_connections (fold marked xs (s\<lparr>connections_lock := True\<rparr>))"])
    (simp add: unlock_connections_def srv_inv_def fold_marked)

theorem mark_all_marks_list_witness:
  "\<exists>s'. mark_all_threads_complete served_one = Some (Inr s') \<and>
     conn_mem s' 7 = Some \<lparr>conn_fd = 5, thread_id = 1, thread_complete = True\<rparr>"
proof -
  have i: "srv_inv served_one [7]" by (simp add: srv_inv_def served_one_def with_conn_def init_server_def)
  show ?thesis
    using mark_all_marks_list [OF i] by (auto simp: served_one_def with_conn_def)
qed



text \<open>
  A signal that arrives while the main thread works on the list of connections blocks for ever:
  the handler runs in the thread that holds the lock of the list and takes it again.
\<close>

theorem signal_self_deadlock:
  assumes "connections_lock s"
  shows "signal_handler signal s = Some (Inl Would_Block)"
  using assms by (simp add: signal_handler_def cleanUpAndExit_def collect_complete_threads_def lock_connections_def Let_def emit_def)

theorem signal_self_deadlock_witness:
  "signal_handler 15 ((init_server True)\<lparr>connections_lock := True\<rparr>) = Some (Inl Would_Block)"
  by (rule signal_self_deadlock) simp

section \<open>Start-up\<close>

text \<open>
  C36. The port. A decimal port argument is read back exactly when it is below 65536; a larger number
  is taken modulo 65536 and no error is reported. The last option given wins.
\<close>

theorem port_option:
  assumes "n < 2 ^ 63"
  shows "parseArgs (args @ [(CHR ''p'', dec_digits n)]) opts =
      (case parseArgs args opts of Inl status \<Rightarrow> Inl status | Inr opts' \<Rightarrow> Inr (opts'\<lparr>port := of_nat n\<rparr>)) \<and>
    unat (of_nat n :: in_port_t) = n mod 65536"
proof
  have "scan_long (dec_digits n) = Some (int n, [])" using scan_long_digits [OF assms, of "[]"] by simp
  then have "strtol (dec_digits n) = int n" by (simp add: strtol_def)
  then show "parseArgs (args @ [(CHR ''p'', dec_digits n)]) opts =
      (case parseArgs args opts of Inl status \<Rightarrow> Inl status | Inr opts' \<Rightarrow> Inr (opts'\<lparr>port := of_nat n\<rparr>))"
    by (induction args opts rule: parseArgs.induct) auto
  show "unat (of_nat n :: in_port_t) = n mod 65536" by (simp add: unsigned_of_nat take_bit_eq_mod)
qed

theorem port_option_witness:
  "parseArgs [(CHR ''d'', []), (CHR ''p'', dec_digits 74536)] \<lparr>port = 9000, daemonize = False\<rparr> =
     Inr \<lparr>port = 9000, daemonize = True\<rparr>"
  using port_option [of 74536 "[(CHR ''d'', [])]" "\<lparr>port = 9000, daemonize = False\<rparr>"] by simp

lemma parseArgs_error: "parseArgs args opts = Inl status \<Longrightarrow> status = 1"
  by (induction args opts rule: parseArgs.induct) (auto simp: printUsage_def EXIT_FAILURE_def split: if_splits)

lemma start_die:
  obtains s' where "cleanUpAndExit EXIT_FAILURE ((init_server b)\<lparr>file_fd := x\<rparr>) = Some (Inr s')" "Exit 1 \<in> set (effects s')"
  using cleanUp_start [of "(init_server b)\<lparr>file_fd := x\<rparr>" EXIT_FAILURE] by (auto simp: init_server_def EXIT_FAILURE_def)

lemma deamonize_start:
  fixes b :: bool and x :: int
  defines "s \<equiv> (init_server b)\<lparr>file_fd := x\<rparr>"
  shows "(fork1 = 0 \<and> 0 \<le> sid \<and> fork2 = 0 \<and> (\<exists>s'. deamonize fork1 sid fork2 s = Some (Inr (Daemon, s')) \<and> srv_inv s' [])) \<or>
    (\<not> (fork1 = 0 \<and> 0 \<le> sid \<and> fork2 = 0) \<and> (\<exists>s'. deamonize fork1 sid fork2 s = Some (Inr (Ended, s')) \<and> (Exit 0 \<in> set (effects s') \<or> Exit 1 \<in> set (effects s'))))"
proof -
  obtain s' where "cleanUpAndExit EXIT_FAILURE s = Some (Inr s')" "Exit 1 \<in> set (effects s')"
    unfolding s_def by (rule start_die)
  then show ?thesis
    by (auto simp: deamonize_def Let_def s_def init_server_def emit_def srv_inv_def EXIT_SUCCESS_def)
qed

definition start_ok :: "startup \<Rightarrow> (char \<times> byte list) list \<Rightarrow> bool" where
  "start_ok r args \<longleftrightarrow>
     (case parseArgs args \<lparr>port = 9000, daemonize = False\<rparr> of
        Inl _ \<Rightarrow> False
      | Inr opts \<Rightarrow> 0 \<le> r_open r \<and> 0 \<le> r_socket r \<and> 0 \<le> r_setsockopt r \<and> 0 \<le> r_bind r \<and> 0 \<le> r_listen r \<and>
          (daemonize opts \<longrightarrow> r_fork1 r = 0 \<and> 0 \<le> r_setsid r \<and> r_fork2 r = 0))"

lemma start_main_cases:
  "\<exists>e s. start_main b r args = Some (Inr (e, s)) \<and>
    (if start_ok r args then e = Serving (r_socket r) \<and> srv_inv s []
     else e = Stopped \<and> (Exit 0 \<in> set (effects s) \<or> Exit 1 \<in> set (effects s)))"
proof (cases "parseArgs args \<lparr>port = 9000, daemonize = False\<rparr>")
  case (Inl status)
  then show ?thesis using parseArgs_error [OF Inl] by (simp add: start_main_def emit_def start_ok_def)
next
  case (Inr opts)
  let ?s = "(init_server b)\<lparr>file_fd := r_open r\<rparr>"
  obtain s' where die: "cleanUpAndExit EXIT_FAILURE ?s = Some (Inr s')" "Exit 1 \<in> set (effects s')" by (rule start_die)
  show ?thesis
  proof (cases "0 \<le> r_open r \<and> 0 \<le> r_socket r \<and> 0 \<le> r_setsockopt r \<and> 0 \<le> r_bind r \<and> 0 \<le> r_listen r")
    case False
    then have "start_main b r args = Some (Inr (Stopped, s'))"
      using Inr die(1) by (auto simp: start_main_def Let_def)
    moreover have "\<not> start_ok r args" using False Inr by (auto simp: start_ok_def)
    ultimately show ?thesis using die(2) by simp
  next
    case ok: True
    then have run: "start_main b r args = rbind (if daemonize opts then deamonize (r_fork1 r) (r_setsid r) (r_fork2 r) ?s
          else Some (Inr (Daemon, ?s))) (\<lambda>(d, s2).
        case d of Ended \<Rightarrow> Some (Inr (Stopped, s2))
        | Daemon \<Rightarrow> Some (Inr (Serving (r_socket r), if b then s2\<lparr>connections := SLIST_INIT\<rparr>
            else s2\<lparr>connections := SLIST_INIT, timer_thread := r_timer r\<rparr>)))"
      using Inr by (auto simp: start_main_def Let_def cong: daemon_end.case_cong)
    have init: "srv_inv (u\<lparr>connections := SLIST_INIT\<rparr>) []" "srv_inv (u\<lparr>connections := SLIST_INIT, timer_thread := x\<rparr>) []"
      if "srv_inv u []" for u x
      using that by (simp_all add: srv_inv_def SLIST_INIT_def)
    have "srv_inv ?s []" by (simp add: srv_inv_def init_server_def)
    then show ?thesis
      using deamonize_start [of "r_fork1 r" "r_setsid r" "r_fork2 r" "r_open r" b] ok Inr init unfolding run
      by (cases "daemonize opts") (auto simp: start_ok_def)
  qed
qed


end
