(* ===== verification/Socket_System.thy ===== *)
theory Socket_System
  imports Socket_Device Server_Properties
begin

text \<open>
  The whole server of \<^verbatim>\<open>server/aesdsocket.c\<close>: the main thread with its list of connections together with
  the threads that serve them. A step is a round of the accept loop, which starts the thread of the
  new connection, or a turn of a connection's thread, which marks its connection as complete when it
  ends. The reachable states satisfy the invariants of both parts, linked by the flag
  \<^verbatim>\<open>thread_complete\<close> and the descriptor in each \<^verbatim>\<open>struct connection\<close>.
\<close>

section \<open>The system\<close>

record 'f system =
  y_server :: server
  y_service :: "'f world service"

text \<open>\<open>evs\<close> is what will arrive at the new socket.\<close>

definition new_thread :: "int \<Rightarrow> net_event list \<Rightarrow> 'f world service \<Rightarrow> 'f world service" where
  "new_thread fd evs v =
     v\<lparr>sv_world := on_sock fd (\<lambda>_. \<lparr>s_input = map event_input evs, s_sent = [], s_open = True\<rparr>) (sv_world v),
       sv_buf := (sv_buf v)(fd := replicate BUFFER_SIZE 0), sv_ended := (sv_ended v)(fd := False)\<rparr>"

definition sys_accept :: "int \<Rightarrow> nat \<Rightarrow> nat \<Rightarrow> net_event list \<Rightarrow> 'f system \<Rightarrow> 'f system run" where
  "sys_accept fd a tid evs y =
     rbind (accept_round fd (Some a) (Some tid) (y_server y)) (\<lambda>s.
       Some (Inr \<lparr>y_server = s, y_service = new_thread fd evs (y_service y)\<rparr>))"

text \<open>The thread whose \<^verbatim>\<open>struct connection\<close> is at \<open>a\<close> takes a turn.\<close>

definition sys_turn :: "'f world io \<Rightarrow> nat \<Rightarrow> 'f system \<Rightarrow> 'f system run" where
  "sys_turn io a y =
     rbind (Some (load_conn a (y_server y))) (\<lambda>c.
     rbind (take_turn io (Client (conn_fd c)) (y_service y)) (\<lambda>v.
       if sv_ended v (conn_fd c)
       then rbind (Some (set_complete a (y_server y))) (\<lambda>s. Some (Inr \<lparr>y_server = s, y_service = v\<rparr>))
       else Some (Inr (y\<lparr>y_service := v\<rparr>))))"

text \<open>
  The memory for a new connection is not in use, its descriptor is not the one of the file or of a
  connection that is being served.
\<close>

definition may_accept :: "int \<Rightarrow> nat \<Rightarrow> net_event list \<Rightarrow> 'f system \<Rightarrow> bool" where
  "may_accept fd a evs y \<longleftrightarrow> 0 \<le> fd \<and> fd \<noteq> FILE_FD \<and> sv_ended (y_service y) fd \<and> conn_mem (y_server y) a = None \<and>
     (\<forall>e\<in>set evs. event_ok e)"

inductive sys_reach :: "'f world io \<Rightarrow> 'f \<Rightarrow> 'f system \<Rightarrow> bool" for io f where
  sys_start: "start_main True r args = Some (Inr (Serving sock, s)) \<Longrightarrow>
    sys_reach io f \<lparr>y_server = s, y_service = start_service False f {} (\<lambda>c. [])\<rparr>"
| sys_accepted: "sys_reach io f y \<Longrightarrow> may_accept fd a evs y \<Longrightarrow> sys_accept fd a tid evs y = Some (Inr y') \<Longrightarrow> sys_reach io f y'"
| sys_turned: "sys_reach io f y \<Longrightarrow> sys_turn io a y = Some (Inr y') \<Longrightarrow> sys_reach io f y'"

section \<open>The invariant\<close>

definition linked :: "server \<Rightarrow> 'f world service \<Rightarrow> bool" where
  "linked s v \<longleftrightarrow>
     (\<forall>a c. conn_mem s a = Some c \<longrightarrow> conn_fd c \<noteq> FILE_FD \<and> thread_complete c = sv_ended v (conn_fd c)) \<and>
     (\<forall>a b c d. conn_mem s a = Some c \<longrightarrow> conn_mem s b = Some d \<longrightarrow> conn_fd c = conn_fd d \<longrightarrow> a = b)"

lemma linkedD:
  assumes "linked s v" "conn_mem s a = Some c"
  shows "conn_fd c \<noteq> FILE_FD" "thread_complete c = sv_ended v (conn_fd c)"
    "conn_mem s b = Some d \<Longrightarrow> conn_fd c = conn_fd d \<Longrightarrow> a = b"
  using assms unfolding linked_def by blast+

lemma serves_new_thread:
  assumes "serves D good dev pos v S" "\<forall>e\<in>set evs. event_ok e" "fd \<noteq> FILE_FD"
  shows "serves D good dev pos (new_thread fd evs v)
    (S\<lparr>ss_pending := (ss_pending S)(fd := evs), ss_sent := (ss_sent S)(fd := []), ss_live := (ss_live S)(fd := True)\<rparr>)"
  using assms by (simp add: serves_def new_thread_def on_sock_def)

lemma linked_new_thread:
  assumes l: "linked s v" and fd: "fd \<noteq> FILE_FD" "sv_ended v fd" and idle: "\<forall>b. \<not> is_complete s b"
  shows "linked (with_conn a fd t s) (new_thread fd evs v)"
proof -
  have "conn_fd c \<noteq> fd" if "conn_mem s b = Some c" for b c
    using linkedD(2) [OF l that] idle fd(2) that by (auto simp: is_complete_def split: option.splits)
  then show ?thesis
    using l fd(1) by (auto simp: linked_def with_conn_def new_thread_def)
qed

lemma linked_turn:
  assumes l: "linked s v" and c: "conn_mem s a = Some c" "sv_ended w (conn_fd c)"
    and other: "\<And>x. x \<noteq> conn_fd c \<Longrightarrow> x \<noteq> FILE_FD \<Longrightarrow> sv_ended w x = sv_ended v x"
  shows "linked (marked a s) w"
proof -
  have "conn_fd d \<noteq> conn_fd c" if "conn_mem s b = Some d" "b \<noteq> a" for b d
    using linkedD(3) [OF l c(1) that(1)] that(2) by metis
  then show ?thesis
    using l c other unfolding linked_def marked_def
    by (auto simp: split: if_splits)
qed

definition sys_good :: "'d store \<Rightarrow> ('f \<Rightarrow> bool) \<Rightarrow> ('f \<Rightarrow> 'd) \<Rightarrow> ('f \<Rightarrow> nat) \<Rightarrow> 'f system \<Rightarrow> bool" where
  "sys_good D good dev pos y \<longleftrightarrow>
     (\<exists>xs. srv_inv (y_server y) xs \<and> dom (conn_mem (y_server y)) = set xs) \<and>
     (\<exists>S. serves D good dev pos (y_service y) S) \<and> linked (y_server y) (y_service y)"

text \<open>
  An accepted connection: its thread is started when no thread of the list has finished; otherwise
  collecting the finished ones reads freed memory.
\<close>

lemma sys_accept_eq:
  assumes good: "sys_good D good dev pos y" and ok: "may_accept fd a evs y"
  shows "sys_accept fd a tid evs y =
    (if \<exists>b. is_complete (y_server y) b then Some (Inl Bad_Access)
     else Some (Inr \<lparr>y_server = with_conn a fd tid (y_server y), y_service = new_thread fd evs (y_service y)\<rparr>))"
proof -
  let ?s = "y_server y" and ?t = "with_conn a fd tid (y_server y)"
  obtain xs where xs: "srv_inv ?s xs" "dom (conn_mem ?s) = set xs" using good by (auto simp: sys_good_def)
  have fd: "conn_mem ?s a = None" "0 \<le> fd" using ok by (simp_all add: may_accept_def)
  note w = with_conn_inv [OF xs(1) fd(1), where fd = fd and t = tid]
  have run: "accept_round fd (Some a) (Some tid) ?s = collect_complete_threads ?t"
    by (rule accept_round_unfold(1) [OF xs(1) fd])
  show ?thesis
  proof (cases "\<exists>b. is_complete ?s b")
    case True
    then obtain b where b: "is_complete ?s b" "conn_mem ?s b \<noteq> None" by (auto simp: is_complete_def split: option.splits)
    then have "b \<in> set xs" "b \<noteq> a" using xs(2) fd(1) by auto
    then have "collect_complete_threads ?t = Some (Inl Bad_Access)"
      using collect_complete [OF w(1), of b] w(3) b(1) by simp
    then show ?thesis using True run by (simp add: sys_accept_def)
  next
    case False
    then have "\<forall>b\<in>set (a # xs). \<not> is_complete ?t b" using w(2,3) by metis
    then have "collect_complete_threads ?t = Some (Inr ?t)" by (rule collect_idle [OF w(1)])
    then show ?thesis using False run by (simp add: sys_accept_def)
  qed
qed

lemma sys_accept_good:
  assumes good: "sys_good D good dev pos y" and ok: "may_accept fd a evs y" and run: "sys_accept fd a tid evs y = Some (Inr y')"
  shows "sys_good D good dev pos y'"
proof -
  let ?s = "y_server y" and ?v = "y_service y"
  have idle: "\<forall>b. \<not> is_complete ?s b"
    and y': "y' = \<lparr>y_server = with_conn a fd tid ?s, y_service = new_thread fd evs ?v\<rparr>"
    using sys_accept_eq [OF good ok, of tid] run by (auto split: if_splits)
  obtain xs S where xs: "srv_inv ?s xs" "dom (conn_mem ?s) = set xs" "serves D good dev pos ?v S" "linked ?s ?v"
    using good by (auto simp: sys_good_def)
  have m: "conn_mem ?s a = None" "fd \<noteq> FILE_FD" "sv_ended ?v fd" "\<forall>e\<in>set evs. event_ok e"
    using ok by (simp_all add: may_accept_def)
  have "dom (conn_mem (with_conn a fd tid ?s)) = set (a # xs)" using xs(2) by (simp add: with_conn_def)
  then show ?thesis
    unfolding y' sys_good_def system.simps
    using with_conn_inv(1) [OF xs(1) m(1)] serves_new_thread [OF xs(3) m(4,2)] linked_new_thread [OF xs(4) m(2,3) idle]
    by blast
qed

lemma spec_turn_live: "x \<noteq> c \<Longrightarrow> ss_live (spec_turn D S (Client c)) x = ss_live S x"
  by (auto split: list.split prod.split)

context file_device
begin

lemma sys_turn_good:
  assumes good: "sys_good D good dev pos y" and c: "conn_mem (y_server y) a = Some c"
  shows "\<exists>y'. sys_turn (host_io F chunk) a y = Some (Inr y') \<and> sys_good D good dev pos y'"
proof -
  let ?s = "y_server y" and ?v = "y_service y"
  obtain xs S where xs: "srv_inv ?s xs" "dom (conn_mem ?s) = set xs" "serves D good dev pos ?v S" "linked ?s ?v"
    using good by (auto simp: sys_good_def)
  note l = linkedD [OF xs(4) c]
  obtain v where v: "take_turn (host_io F chunk) (Client (conn_fd c)) ?v = Some (Inr v)"
      "serves D good dev pos v (spec_turn D S (Client (conn_fd c)))"
    using client_turn [OF xs(3) l(1)] by blast
  have other: "sv_ended v x = sv_ended ?v x" if "x \<noteq> conn_fd c" "x \<noteq> FILE_FD" for x
    using serves_view(10) [OF v(2) that(2)] serves_view(10) [OF xs(3) that(2)] unfolding spec_turn_live [OF that(1)] by simp
  have load: "load_conn a ?s = Inr c" using c by (simp add: load_conn_def)
  show ?thesis
  proof (cases "sv_ended v (conn_fd c)")
    case True
    have "set_complete a ?s = Inr (marked a ?s)" using c by (simp add: set_complete_eq marked_def)
    then have "sys_turn (host_io F chunk) a y = Some (Inr \<lparr>y_server = marked a ?s, y_service = v\<rparr>)"
      using v(1) True load by (simp add: sys_turn_def)
    moreover have "linked (marked a ?s) v" by (rule linked_turn [OF xs(4) c True other])
    ultimately show ?thesis
      using v(2) marked_inv [OF xs(1)] xs(2) by (auto simp: sys_good_def)
  next
    case False
    have "sv_ended ?v (conn_fd c) \<Longrightarrow> sv_ended v (conn_fd c)"
      using serves_view(10) [OF v(2) l(1)] serves_view(10) [OF xs(3) l(1)] by simp
    then have "linked ?s v" using xs(4) other False unfolding linked_def by metis
    moreover have "sys_turn (host_io F chunk) a y = Some (Inr (y\<lparr>y_service := v\<rparr>))"
      using v(1) False load by (simp add: sys_turn_def)
    ultimately show ?thesis using v(2) xs(1,2) by (auto simp: sys_good_def)
  qed
qed

lemma sys_reach_good:
  assumes "sys_reach (host_io F chunk) f y" "good f" "st_ready D (dev f) (pos f)"
  shows "sys_good D good dev pos y"
  using assms(1)
proof (induction rule: sys_reach.induct)
  case (sys_start r args sock s)
  have "serves D good dev pos (start_service False f {} (\<lambda>c. [])) (start_spec (dev f, pos f) {} (\<lambda>c. []))"
    using assms(2,3) by (intro serves_start) simp_all
  then show ?case
    using start_main_serving [OF sys_start] by (auto simp: sys_good_def linked_def)
next
  case (sys_accepted y fd a evs tid y')
  show ?case by (rule sys_accept_good [OF sys_accepted.IH sys_accepted.hyps(2,3)])
next
  case (sys_turned y a y')
  then obtain c where "conn_mem (y_server y) a = Some c"
    by (cases "conn_mem (y_server y) a") (auto simp: sys_turn_def load_conn_def)
  then obtain y2 where "sys_turn (host_io F chunk) a y = Some (Inr y2)" "sys_good D good dev pos y2"
    using sys_turn_good [OF sys_turned.IH] by blast
  then show ?case using sys_turned.hyps(2) by simp
qed

end

section \<open>Properties\<close>


definition first_state :: "driver_file system" where
  "first_state = \<lparr>y_server = (init_server True)\<lparr>file_fd := 3\<rparr>, y_service = start_service False fresh_driver {} (\<lambda>c. [])\<rparr>"

lemma first_state_reach: "sys_reach io fresh_driver first_state"
proof -
  have "start_main True good_start [] = Some (Inr (Serving 4, (init_server True)\<lparr>file_fd := 3\<rparr>))"
    by (simp add: start_main_def good_start_def init_server_def SLIST_INIT_def)
  then show ?thesis unfolding first_state_def by (rule sys_start)
qed


end
