(* ===== verification/System_Calls.thy ===== *)
theory System_Calls
  imports Aesd_Prelude
begin

text \<open>
  Running commands: \<^verbatim>\<open>examples/systemcalls/systemcalls.c\<close>. After a \<^verbatim>\<open>fork\<close> the same code runs in two
  processes; a definition describes one of them, told apart by the result of \<^verbatim>\<open>fork\<close>, and its result
  is how this process leaves the function: it returns, exits, or becomes another program. The
  answers of the operating system are the fields of \<open>exec_env\<close>. The functions \<open>exec_parent\<close> and
  \<open>redirect_parent\<close> put the two processes together: the child's end is the status the parent
  waits for.
\<close>

section \<open>Wait status\<close>

type_synonym wait_status = "32 word"

definition WIFEXITED :: "wait_status \<Rightarrow> bool" where
  "WIFEXITED status \<longleftrightarrow> take_bit 7 status = 0"

definition WEXITSTATUS :: "wait_status \<Rightarrow> wait_status" where
  "WEXITSTATUS status = take_bit 8 (drop_bit 8 status)"

datatype prog_end = Exited nat | Killed nat

definition status_of :: "prog_end \<Rightarrow> wait_status" where
  "status_of e = (case e of Exited n \<Rightarrow> of_nat (256 * (n mod 256)) | Killed sig \<Rightarrow> of_nat sig)"

section \<open>The functions\<close>

record exec_env =
  e_fork :: int
  e_execv_fails :: bool
  e_waitpid :: int
  e_status :: wait_status
  e_open :: int
  e_dup2 :: int

datatype proc_end = Returns bool | Exits nat | Becomes "string list"

definition do_system :: "(string \<Rightarrow> int) \<Rightarrow> string \<Rightarrow> bool" where
  "do_system system cmd \<longleftrightarrow> system cmd = 0"

text \<open>The array of arguments, without its terminating null pointer; there must be \<open>count\<close> of them.\<close>

definition build_command :: "nat \<Rightarrow> string list \<Rightarrow> string list checked" where
  "build_command count args = (if count \<le> length args then Inr (take count args) else Inl Out_Of_Bounds)"

text \<open>The part of both functions behind the child's branch.\<close>

definition wait_result :: "exec_env \<Rightarrow> proc_end" where
  "wait_result env =
     (if e_waitpid env = - 1 then Returns False
      else if WIFEXITED (e_status env) then Returns (WEXITSTATUS (e_status env) = 0)
      else Returns True)"

text \<open>\<^verbatim>\<open>execv\<close> of no program, which is what a count of 0 leads to, fails.\<close>

definition exec_child :: "exec_env \<Rightarrow> string list \<Rightarrow> proc_end" where
  "exec_child env command = (if command = [] \<or> e_execv_fails env then Exits 1 else Becomes command)"

definition do_exec :: "exec_env \<Rightarrow> nat \<Rightarrow> string list \<Rightarrow> proc_end checked" where
  "do_exec env count args =
     cbind (build_command count args) (\<lambda>command. Inr (
       if e_fork env = - 1 then Returns False
       else if e_fork env = 0 then exec_child env command
       else wait_result env))"

text \<open>With the descriptors that this process has opened and not closed.\<close>

definition do_exec_redirect :: "exec_env \<Rightarrow> nat \<Rightarrow> string list \<Rightarrow> (proc_end \<times> int set) checked" where
  "do_exec_redirect env count args =
     cbind (build_command count args) (\<lambda>command. Inr (
       if e_open env < 0 then (Returns False, {})
       else (if e_fork env = - 1 then Returns False
             else if e_fork env = 0
             then (if e_dup2 env < 0 then Returns False else exec_child env command)
             else wait_result env, {e_open env})))"

section \<open>Parent and child together\<close>

definition end_of :: "(string list \<Rightarrow> prog_end) \<Rightarrow> proc_end \<Rightarrow> prog_end option" where
  "end_of prog e = (case e of Returns _ \<Rightarrow> None | Exits n \<Rightarrow> Some (Exited n) | Becomes command \<Rightarrow> Some (prog command))"

text \<open>
  The parent's result when \<^verbatim>\<open>fork\<close> and \<^verbatim>\<open>waitpid\<close> work, as long as the child ends: \<open>prog\<close> says how a
  program that is run ends.
\<close>

definition exec_parent :: "(string list \<Rightarrow> prog_end) \<Rightarrow> int \<Rightarrow> exec_env \<Rightarrow> nat \<Rightarrow> string list \<Rightarrow> proc_end option checked" where
  "exec_parent prog pid env count args =
     cbind (do_exec (env\<lparr>e_fork := 0\<rparr>) count args) (\<lambda>child.
       case end_of prog child of
         None \<Rightarrow> Inr None
       | Some e \<Rightarrow> cbind (do_exec (env\<lparr>e_fork := pid, e_waitpid := pid, e_status := status_of e\<rparr>) count args)
           (\<lambda>r. Inr (Some r)))"

lemma unat_take_bit: "unat (take_bit k (w :: wait_status)) = unat w mod 2 ^ k"
  by (rule trans [OF unsigned_take_bit_eq take_bit_eq_mod])

lemma unat_drop_bit: "unat (drop_bit k (w :: wait_status)) = unat w div 2 ^ k"
  by (simp only: unsigned_drop_bit_eq drop_bit_eq_div [where 'a = nat] take_bit_eq_mod [where 'a = nat])
    (simp add: mod_less [OF unsigned_less [of w, where 'a = nat, simplified]])

lemma status_exited:
  "WIFEXITED (status_of (Exited n))" "WEXITSTATUS (status_of (Exited n)) = 0 \<longleftrightarrow> n mod 256 = 0"
proof -
  let ?v = "256 * (n mod 256)"
  have lt: "?v < 2 ^ 32" by (simp add: less_le_trans [OF mod_less_divisor])
  then have u: "unat (of_nat ?v :: wait_status) = ?v" by (intro unat_of_nat_lt) simp
  have "unat (take_bit 7 (of_nat ?v :: wait_status)) = ?v mod 128"
    unfolding unat_take_bit u by simp
  also have "\<dots> = 0" by (simp add: mod_mult_left_eq [symmetric] mod_eq_0_iff_dvd dvd_mult2)
  finally show "WIFEXITED (status_of (Exited n))" by (simp add: WIFEXITED_def status_of_def unat_eq_0)
  have "unat (take_bit 8 (drop_bit 8 (of_nat ?v :: wait_status))) = ?v div 256 mod 256"
    unfolding unat_take_bit unat_drop_bit u by simp
  also have "\<dots> = n mod 256" by simp
  finally show "WEXITSTATUS (status_of (Exited n)) = 0 \<longleftrightarrow> n mod 256 = 0"
    by (simp add: WEXITSTATUS_def status_of_def flip: unat_eq_0)
qed

lemma status_killed:
  assumes "0 < sig" "sig < 127"
  shows "\<not> WIFEXITED (status_of (Killed sig))"
proof -
  have u: "unat (of_nat sig :: wait_status) = sig" using assms by (intro unat_of_nat_lt) simp
  have "unat (take_bit 7 (of_nat sig :: wait_status)) = sig mod 128"
    unfolding unat_take_bit u by simp
  then show ?thesis using assms by (auto simp: WIFEXITED_def status_of_def)
qed

section \<open>Properties\<close>

text \<open>
  C37. What \<^verbatim>\<open>do_exec\<close> reports. When the process is created and waited for, the parent returns true
  exactly when the command was started with exactly the given arguments and either ended with
  status 0 or was killed by a signal. A command that cannot be started, or for which there is no
  argument, gives false.
\<close>

theorem do_exec_result:
  assumes "0 < pid" "count \<le> length args" "\<And>c sig. prog c = Killed sig \<Longrightarrow> 0 < sig \<and> sig < 127"
  shows "exec_parent prog pid env count args = Inr (Some (Returns (
    0 < count \<and> \<not> e_execv_fails env \<and>
    (case prog (take count args) of Exited n \<Rightarrow> n mod 256 = 0 | Killed sig \<Rightarrow> True))))"
proof (cases "take count args = [] \<or> e_execv_fails env")
  case True
  then have "exec_parent prog pid env count args = Inr (Some (wait_result
      (env\<lparr>e_fork := pid, e_waitpid := pid, e_status := status_of (Exited 1)\<rparr>)))"
    using assms(1,2) by (auto simp: exec_parent_def do_exec_def build_command_def exec_child_def end_of_def)
  then show ?thesis
    using True assms(1,2) status_exited [of 1] by (auto simp: wait_result_def)
next
  case False
  then have run: "exec_parent prog pid env count args = Inr (Some (wait_result
      (env\<lparr>e_fork := pid, e_waitpid := pid, e_status := status_of (prog (take count args))\<rparr>)))"
    using assms(1,2) by (auto simp: exec_parent_def do_exec_def build_command_def exec_child_def end_of_def)
  show ?thesis
  proof (cases "prog (take count args)")
    case (Exited n)
    then show ?thesis unfolding run using False assms(1) status_exited [of n] by (auto simp: wait_result_def)
  next
    case (Killed sig)
    then show ?thesis
      unfolding run using False assms(1) status_killed [of sig] assms(3) [OF Killed] by (auto simp: wait_result_def)
  qed
qed

definition quiet_env :: exec_env where
  "quiet_env = \<lparr>e_fork = 0, e_execv_fails = False, e_waitpid = 0, e_status = 0, e_open = 3, e_dup2 = 1\<rparr>"

theorem do_exec_result_witness:
  "exec_parent (\<lambda>c. Killed 9) 42 quiet_env 1 [''/bin/ls''] = Inr (Some (Returns True))"
  using do_exec_result [of 42 1 "[''/bin/ls'']" "\<lambda>c. Killed 9" quiet_env] by (simp add: quiet_env_def)



end
