(* ===== verification/Threading.thy ===== *)
theory Threading
  imports Aesd_Prelude
begin

text \<open>
  Threads that take a mutex: \<^verbatim>\<open>examples/threading/threading.c\<close>. The state holds every allocated
  \<^verbatim>\<open>struct thread_data\<close>, the place of the thread that works on it, and the owner of every mutex. A
  thread advances from one call of the library to the next; the steps of different threads
  interleave in any order.
\<close>

section \<open>State\<close>

type_synonym int32 = "32 word"

record thread_data =
  wait_to_obtain_ms :: int32
  wait_to_release_ms :: int32
  mutex :: nat
  thread_complete_success :: bool

text \<open>Where a thread is: before its first statement, at the lock, at the unlock, behind it, returned.\<close>

datatype place = At_Start | At_Lock | At_Unlock | At_End | Returned

record tsys =
  tdata :: "nat \<Rightarrow> thread_data option"
  place_of :: "nat \<Rightarrow> place option"
  owner :: "nat \<Rightarrow> nat option"
  sleeps :: "(nat \<times> int32) list"

definition usleep_arg :: "int32 \<Rightarrow> int32" where
  "usleep_arg ms = ms * 1000"

section \<open>The thread\<close>

definition move :: "nat \<Rightarrow> place \<Rightarrow> tsys \<Rightarrow> tsys" where
  "move d p s = s\<lparr>place_of := (place_of s)(d \<mapsto> p)\<rparr>"

definition set_success :: "nat \<Rightarrow> bool \<Rightarrow> tsys \<Rightarrow> tsys" where
  "set_success d b s = s\<lparr>tdata := (tdata s)(d := map_option (thread_complete_success_update (\<lambda>_. b)) (tdata s d))\<rparr>"

text \<open>
  The next step of the thread on \<open>d\<close>, or nothing when it waits for the mutex, has returned or does
  not exist.
\<close>

definition threadfunc :: "nat \<Rightarrow> tsys \<Rightarrow> tsys option" where
  "threadfunc d s =
     (case (tdata s d, place_of s d) of
        (Some data, Some p) \<Rightarrow>
          (case p of
             At_Start \<Rightarrow>
               Some (move d At_Lock ((set_success d False s)\<lparr>sleeps := (d, usleep_arg (wait_to_obtain_ms data)) # sleeps s\<rparr>))
           | At_Lock \<Rightarrow>
               if owner s (mutex data) = None
               then Some (move d At_Unlock (s\<lparr>owner := (owner s)(mutex data \<mapsto> d),
                      sleeps := (d, usleep_arg (wait_to_release_ms data)) # sleeps s\<rparr>))
               else None
           | At_Unlock \<Rightarrow> Some (move d At_End (s\<lparr>owner := (owner s)(mutex data := None)\<rparr>))
           | At_End \<Rightarrow> Some (move d Returned (set_success d True s))
           | Returned \<Rightarrow> None)
      | _ \<Rightarrow> None)"

section \<open>Starting a thread\<close>

text \<open>
  \<open>mem\<close> is what \<^verbatim>\<open>malloc\<close> returns, whose contents before the assignments are \<open>junk\<close>; \<open>created\<close> says
  whether \<^verbatim>\<open>pthread_create\<close> succeeds.
\<close>

definition start_thread_obtaining_mutex ::
  "nat option \<Rightarrow> bool \<Rightarrow> bool \<Rightarrow> nat \<Rightarrow> int32 \<Rightarrow> int32 \<Rightarrow> tsys \<Rightarrow> (bool \<times> tsys) checked" where
  "start_thread_obtaining_mutex mem junk created m obtain_ms release_ms s =
     (case mem of
        None \<Rightarrow> Inl Null_Deref
      | Some d \<Rightarrow>
          let s1 = s\<lparr>tdata := (tdata s)(d \<mapsto> \<lparr>wait_to_obtain_ms = obtain_ms, wait_to_release_ms = release_ms,
                       mutex = m, thread_complete_success = junk\<rparr>)\<rparr>
          in if created then Inr (True, move d At_Start s1)
             else Inr (False, s1\<lparr>tdata := (tdata s1)(d := None)\<rparr>))"

section \<open>Histories\<close>

inductive tstep :: "tsys \<Rightarrow> tsys \<Rightarrow> bool" where
  t_start: "(\<And>d. mem = Some d \<Longrightarrow> tdata s d = None \<and> place_of s d = None) \<Longrightarrow>
    start_thread_obtaining_mutex mem junk created m obtain_ms release_ms s = Inr (r, s') \<Longrightarrow> tstep s s'"
| t_run: "threadfunc d s = Some s' \<Longrightarrow> tstep s s'"

inductive treach :: "tsys \<Rightarrow> bool" where
  t_init: "treach \<lparr>tdata = Map.empty, place_of = Map.empty, owner = Map.empty, sleeps = []\<rparr>"
| t_step: "treach s \<Longrightarrow> tstep s s' \<Longrightarrow> treach s'"

definition tinv :: "tsys \<Rightarrow> bool" where
  "tinv s \<longleftrightarrow> dom (place_of s) = dom (tdata s) \<and>
     (\<forall>m d. owner s m = Some d \<longleftrightarrow> (\<exists>data. tdata s d = Some data \<and> mutex data = m \<and> place_of s d = Some At_Unlock)) \<and>
     (\<forall>d data. tdata s d = Some data \<longrightarrow> place_of s d = Some Returned \<longrightarrow> thread_complete_success data) \<and>
     (\<forall>d data. tdata s d = Some data \<longrightarrow> place_of s d \<in> Some ` {At_Lock, At_Unlock, At_End} \<longrightarrow> \<not> thread_complete_success data)"

lemma set_success_simps [simp]:
  "place_of (set_success d b s) = place_of s" "owner (set_success d b s) = owner s" "sleeps (set_success d b s) = sleeps s"
  "tdata (set_success d b s) e =
     (if e = d then map_option (thread_complete_success_update (\<lambda>_. b)) (tdata s d) else tdata s e)"
  by (simp_all add: set_success_def)

lemma move_simps [simp]:
  "tdata (move d p s) = tdata s" "owner (move d p s) = owner s" "sleeps (move d p s) = sleeps s"
  "place_of (move d p s) = (place_of s)(d \<mapsto> p)"
  by (simp_all add: move_def)

lemma tinvD:
  assumes "tinv s"
  shows "dom (place_of s) = dom (tdata s)"
    "owner s m = Some d \<longleftrightarrow> (\<exists>data. tdata s d = Some data \<and> mutex data = m \<and> place_of s d = Some At_Unlock)"
    "tdata s d = Some data \<Longrightarrow> place_of s d = Some Returned \<Longrightarrow> thread_complete_success data"
    "tdata s d = Some data \<Longrightarrow> place_of s d \<in> Some ` {At_Lock, At_Unlock, At_End} \<Longrightarrow> \<not> thread_complete_success data"
  using assms unfolding tinv_def by blast+

lemma threadfunc_cases:
  assumes "threadfunc d s = Some s'"
  obtains data where "tdata s d = Some data" "place_of s d = Some At_Start"
      "s' = move d At_Lock ((set_success d False s)\<lparr>sleeps := (d, usleep_arg (wait_to_obtain_ms data)) # sleeps s\<rparr>)"
  | data where "tdata s d = Some data" "place_of s d = Some At_Lock" "owner s (mutex data) = None"
      "s' = move d At_Unlock (s\<lparr>owner := (owner s)(mutex data \<mapsto> d),
         sleeps := (d, usleep_arg (wait_to_release_ms data)) # sleeps s\<rparr>)"
  | data where "tdata s d = Some data" "place_of s d = Some At_Unlock"
      "s' = move d At_End (s\<lparr>owner := (owner s)(mutex data := None)\<rparr>)"
  | data where "tdata s d = Some data" "place_of s d = Some At_End" "s' = move d Returned (set_success d True s)"
  using assms by (auto simp: threadfunc_def split: option.splits place.splits if_splits)

lemma tinv_intro:
  assumes "dom (place_of s) = dom (tdata s)"
    and "\<And>m d. owner s m = Some d \<longleftrightarrow> (\<exists>data. tdata s d = Some data \<and> mutex data = m \<and> place_of s d = Some At_Unlock)"
    and "\<And>d data. tdata s d = Some data \<Longrightarrow> place_of s d = Some Returned \<Longrightarrow> thread_complete_success data"
    and "\<And>d data. tdata s d = Some data \<Longrightarrow> place_of s d \<in> Some ` {At_Lock, At_Unlock, At_End} \<Longrightarrow> \<not> thread_complete_success data"
  shows "tinv s"
  using assms unfolding tinv_def by blast

text \<open>A step of one thread: only its data and its place change, and the owner of its mutex with them.\<close>

lemma tinv_thread_step:
  assumes inv: "tinv s" and d: "tdata s d = Some data" "place_of s d = Some q"
    and s': "tdata s' = (tdata s)(d \<mapsto> data')" "mutex data' = mutex data" "place_of s' = (place_of s)(d \<mapsto> p)"
    and own: "owner s' = (if p = At_Unlock then (owner s)(mutex data \<mapsto> d)
      else if q = At_Unlock then (owner s)(mutex data := None) else owner s)"
    and free: "p = At_Unlock \<Longrightarrow> q \<noteq> At_Unlock \<and> owner s (mutex data) = None"
    and ok: "p = Returned \<Longrightarrow> thread_complete_success data'"
      "p \<in> {At_Lock, At_Unlock, At_End} \<Longrightarrow> \<not> thread_complete_success data'"
  shows "tinv s'"
proof (rule tinv_intro)
  note i = tinvD [OF inv]
  show "dom (place_of s') = dom (tdata s')" using i(1) s' by simp
  have held: "owner s (mutex data) = Some d" if "q = At_Unlock" using i(2) [of "mutex data" d] d that by auto
  show "owner s' m = Some e \<longleftrightarrow> (\<exists>x. tdata s' e = Some x \<and> mutex x = m \<and> place_of s' e = Some At_Unlock)" for m e
    using i(2) [of m e] d s' own free held by (cases "e = d") auto
  show "thread_complete_success x" if "tdata s' e = Some x" "place_of s' e = Some Returned" for e x
    using that i(3) [of e x] s' ok(1) by (cases "e = d") auto
  show "\<not> thread_complete_success x" if "tdata s' e = Some x" "place_of s' e \<in> Some ` {At_Lock, At_Unlock, At_End}" for e x
    using that i(4) [of e x] s' ok(2) by (cases "e = d") auto
qed

lemma set_success_tdata:
  "tdata s d = Some data \<Longrightarrow> tdata (set_success d b s) = (tdata s)(d \<mapsto> data\<lparr>thread_complete_success := b\<rparr>)"
  by (auto simp: set_success_def)

lemma threadfunc_tinv:
  assumes inv: "tinv s" and run: "threadfunc d s = Some s'"
  shows "tinv s'"
  using run
proof (cases rule: threadfunc_cases)
  case (1 data)
  then show ?thesis
    by (intro tinv_thread_step [OF inv 1(1,2), of s' "data\<lparr>thread_complete_success := False\<rparr>" At_Lock])
      (simp_all add: set_success_tdata)
next
  case (2 data)
  then show ?thesis
    using tinvD(4) [OF inv 2(1)] by (intro tinv_thread_step [OF inv 2(1,2), of s' data At_Unlock]) auto
next
  case (3 data)
  then show ?thesis
    using tinvD(4) [OF inv 3(1)] by (intro tinv_thread_step [OF inv 3(1,2), of s' data At_End]) auto
next
  case (4 data)
  then show ?thesis
    by (intro tinv_thread_step [OF inv 4(1,2), of s' "data\<lparr>thread_complete_success := True\<rparr>" Returned])
      (simp_all add: set_success_tdata)
qed

lemma start_tinv:
  assumes inv: "tinv s" and fresh: "\<And>d. mem = Some d \<Longrightarrow> tdata s d = None \<and> place_of s d = None"
    and run: "start_thread_obtaining_mutex mem junk created m obtain_ms release_ms s = Inr (r, s')"
  shows "tinv s'"
proof -
  obtain d where d: "mem = Some d" "tdata s d = None" "place_of s d = None"
    using run fresh by (cases mem) (auto simp: start_thread_obtaining_mutex_def)
  note i = tinvD [OF inv]
  show ?thesis
  proof (cases created)
    case True
    let ?x = "\<lparr>wait_to_obtain_ms = obtain_ms, wait_to_release_ms = release_ms, mutex = m, thread_complete_success = junk\<rparr>"
    have s': "tdata s' = (tdata s)(d \<mapsto> ?x)" "place_of s' = (place_of s)(d \<mapsto> At_Start)" "owner s' = owner s"
      using run d True by (auto simp: start_thread_obtaining_mutex_def Let_def)
    show ?thesis
    proof (rule tinv_intro)
      show "dom (place_of s') = dom (tdata s')" using i(1) s' by simp
      show "owner s' k = Some e \<longleftrightarrow> (\<exists>x. tdata s' e = Some x \<and> mutex x = k \<and> place_of s' e = Some At_Unlock)" for k e
        using i(2) [of k e] d s' by (cases "e = d") auto
      show "thread_complete_success x" if "tdata s' e = Some x" "place_of s' e = Some Returned" for e x
        using that i(3) [of e x] s' by (cases "e = d") auto
      show "\<not> thread_complete_success x" if "tdata s' e = Some x" "place_of s' e \<in> Some ` {At_Lock, At_Unlock, At_End}" for e x
        using that i(4) [of e x] s' by (cases "e = d") auto
    qed
  next
    case False
    then have "s' = s" using run d by (auto simp: start_thread_obtaining_mutex_def Let_def fun_upd_idem)
    then show ?thesis using inv by simp
  qed
qed

lemma treach_tinv: "treach s \<Longrightarrow> tinv s"
proof (induction rule: treach.induct)
  case (t_step s s')
  from t_step(2,3) show ?case
    by (induction rule: tstep.induct) (auto intro: start_tinv threadfunc_tinv)
qed (simp add: tinv_def)

section \<open>Properties\<close>

text \<open>
  C39. Mutual exclusion over all interleavings: in every state that any number of started threads can
  get into, of the threads that use one mutex at most one is between its lock and its unlock, and
  it is the owner of the mutex. A thread that has returned reports success, and one that has begun
  and not returned does not.
\<close>

theorem mutual_exclusion:
  assumes "treach s" "tdata s d = Some x" "tdata s e = Some y" "mutex x = mutex y"
    and "place_of s d = Some At_Unlock" "place_of s e = Some At_Unlock"
  shows "d = e \<and> owner s (mutex x) = Some d \<and> \<not> thread_complete_success x"
proof -
  note i = tinvD [OF treach_tinv [OF assms(1)]]
  have "owner s (mutex x) = Some d" "owner s (mutex x) = Some e"
    using i(2) [of "mutex x" d] i(2) [of "mutex x" e] assms by auto
  moreover have "\<not> thread_complete_success x" using i(4) [of d x] assms by auto
  ultimately show ?thesis by simp
qed

definition one_thread :: "place \<Rightarrow> tsys \<Rightarrow> bool" where
  "one_thread p s \<longleftrightarrow> treach s \<and> (\<exists>x. tdata s 7 = Some x \<and> mutex x = 1) \<and> place_of s 7 = Some p \<and>
     owner s = (if p = At_Unlock then [1 \<mapsto> 7] else Map.empty)"

lemma one_thread_run: "\<exists>s. one_thread p s"
proof -
  let ?x = "\<lparr>wait_to_obtain_ms = 5, wait_to_release_ms = 6, mutex = 1, thread_complete_success = False\<rparr>"
  let ?s0 = "\<lparr>tdata = [7 \<mapsto> ?x], place_of = [7 \<mapsto> At_Start], owner = Map.empty, sleeps = []\<rparr>"
  have "tstep \<lparr>tdata = Map.empty, place_of = Map.empty, owner = Map.empty, sleeps = []\<rparr> ?s0"
    by (rule t_start [of "Some 7" _ False True 1 5 6 True]) (simp_all add: start_thread_obtaining_mutex_def Let_def move_def)
  then have 0: "one_thread At_Start ?s0" using t_step [OF t_init] by (simp add: one_thread_def)
  have next_place: "\<exists>t. one_thread q t"
    if s: "one_thread p s" and pq: "(p, q) \<in> {(At_Start, At_Lock), (At_Lock, At_Unlock), (At_Unlock, At_End), (At_End, Returned)}" for p q s
  proof -
    obtain x where x: "treach s" "tdata s 7 = Some x" "mutex x = 1" "place_of s 7 = Some p"
        "owner s = (if p = At_Unlock then [1 \<mapsto> 7] else Map.empty)"
      using s by (auto simp: one_thread_def)
    obtain t where "threadfunc 7 s = Some t" using x pq by (auto simp: threadfunc_def)
    moreover from this have "one_thread q t"
      using x pq t_step [OF x(1) t_run, of 7 t] by (auto simp: one_thread_def threadfunc_def)
    ultimately show ?thesis by blast
  qed
  obtain s1 where 1: "one_thread At_Lock s1" using next_place [OF 0] by blast
  obtain s2 where 2: "one_thread At_Unlock s2" using next_place [OF 1] by blast
  obtain s3 where 3: "one_thread At_End s3" using next_place [OF 2] by blast
  obtain s4 where 4: "one_thread Returned s4" using next_place [OF 3] by blast
  show ?thesis using 0 1 2 3 4 by (cases p) blast+
qed

theorem mutual_exclusion_witness:
  "\<exists>s x. treach s \<and> tdata s 7 = Some x \<and> place_of s 7 = Some At_Unlock \<and> owner s (mutex x) = Some 7"
proof -
  obtain s where s: "one_thread At_Unlock s" using one_thread_run by blast
  then obtain x where x: "treach s" "tdata s 7 = Some x" "place_of s 7 = Some At_Unlock" by (auto simp: one_thread_def)
  show ?thesis using mutual_exclusion [OF x(1,2,2) refl x(3,3)] x by blast
qed

text \<open>
  C39. A thread runs to its end. From its start, with its mutex free, the thread on \<open>d\<close> takes four steps,
  sleeps for the two given times in the given order, holds the mutex in between, returns with
  success, and leaves the mutex free and all other threads as they were.
\<close>

theorem thread_completes:
  assumes "tdata s d = Some x" "place_of s d = Some At_Start" "owner s (mutex x) = None"
  shows "\<exists>s1 s2 s3 s4. threadfunc d s = Some s1 \<and> threadfunc d s1 = Some s2 \<and> owner s2 (mutex x) = Some d \<and>
    threadfunc d s2 = Some s3 \<and> threadfunc d s3 = Some s4 \<and> threadfunc d s4 = None \<and>
    place_of s4 = (place_of s)(d \<mapsto> Returned) \<and> tdata s4 = (tdata s)(d \<mapsto> x\<lparr>thread_complete_success := True\<rparr>) \<and>
    owner s4 = owner s \<and>
    sleeps s4 = (d, usleep_arg (wait_to_release_ms x)) # (d, usleep_arg (wait_to_obtain_ms x)) # sleeps s"
  using assms by (simp add: threadfunc_def set_success_tdata fun_upd_idem)

theorem thread_completes_witness:
  "\<exists>s s1. place_of s 7 = Some At_Start \<and> threadfunc 7 s = Some s1"
proof -
  obtain s where s: "one_thread At_Start s" using one_thread_run by blast
  then obtain x where x: "tdata s 7 = Some x" "place_of s 7 = Some At_Start" "owner s (mutex x) = None"
    by (auto simp: one_thread_def)
  show ?thesis using thread_completes [OF x] x(2) by blast
qed

text \<open>
  The sleeping times are exact up to 2147483 milliseconds; the multiplication is done in 32 bits
  and wraps above that: a wait of 4294968 milliseconds, more than an hour, sleeps for less than a
  millisecond.
\<close>

theorem usleep_range:
  "(unat ms \<le> 2147483 \<longrightarrow> unat (usleep_arg ms) = unat ms * 1000) \<and> unat (usleep_arg 4294968) < 1000"
proof
  show "unat ms \<le> 2147483 \<longrightarrow> unat (usleep_arg ms) = unat ms * 1000"
  proof
    assume "unat ms \<le> 2147483"
    then have "unat (of_nat (unat ms * 1000) :: int32) = unat ms * 1000" by (intro unat_of_nat_lt) simp
    then show "unat (usleep_arg ms) = unat ms * 1000" by (simp add: usleep_arg_def)
  qed
qed (simp add: usleep_arg_def)

theorem usleep_range_witness: "unat (usleep_arg 20) = 20000"
  using usleep_range [of 20] by simp

end
