(* ===== verification/Writer.thy ===== *)
theory Writer
  imports Aesd_Prelude
begin

text \<open>
  The file writer \<^verbatim>\<open>finder-app/writer.c\<close>. The results of \<^verbatim>\<open>open\<close>, \<^verbatim>\<open>write\<close> and \<^verbatim>\<open>close\<close> are
  arguments; the result of the program is its exit status and the contents of the file after it,
  or nothing when the file was not opened. Messages are left out.
\<close>

record writer_env =
  wr_open :: int
  wr_write :: int
  wr_close :: int

text \<open>What the file holds after a write that returned \<open>n\<close>: opening it has emptied it.\<close>

definition file_after :: "int \<Rightarrow> byte list \<Rightarrow> byte list" where
  "file_after n txt = take (nat n) txt"

text \<open>\<^verbatim>\<open>argv\<close> includes the name of the program. The number of bytes is kept in a \<^verbatim>\<open>size_t\<close>.\<close>

definition writer_main :: "writer_env \<Rightarrow> byte list list \<Rightarrow> int \<times> byte list option" where
  "writer_main env argv =
     (if length argv < 3 then (1, None)
      else
        let txt = argv ! 2;
            fd = wr_open env
        in if fd < 0 then (1, None)
           else
             let bytes = (word_of_int (wr_write env) :: size_t);
                 contents = Some (file_after (wr_write env) txt)
             in if bytes < 0 then (1, contents)
                else if wr_close env < 0 then (1, contents)
                else (0, contents))"

text \<open>
  C40. The status of the writer. It is 0 exactly when there are two arguments, the file can be opened
  and the close succeeds; then a complete write has left exactly the text in the file, without a
  newline. The result of the write is stored in an unsigned variable before it is compared with 0,
  so a failed or a short write is never reported: the file is then empty or holds a prefix.
\<close>

theorem writer_status:
  "(fst (writer_main env argv) = 0 \<longleftrightarrow> 3 \<le> length argv \<and> 0 \<le> wr_open env \<and> 0 \<le> wr_close env) \<and>
   (fst (writer_main env argv) = 0 \<longrightarrow>
      (\<exists>c rest. snd (writer_main env argv) = Some c \<and> argv ! 2 = c @ rest \<and>
        (wr_write env < 0 \<longrightarrow> c = []) \<and> (wr_write env = int (length (argv ! 2)) \<longrightarrow> rest = [])))"
proof -
  have "argv ! 2 = file_after n (argv ! 2) @ drop (nat n) (argv ! 2)" for n by (simp add: file_after_def)
  moreover have "n < 0 \<Longrightarrow> file_after n (argv ! 2) = []" for n by (simp add: file_after_def)
  ultimately show ?thesis by (auto simp: writer_main_def Let_def intro!: exI [of _ "drop (nat (wr_write env)) (argv ! 2)"])
qed

theorem writer_status_witness:
  "writer_main \<lparr>wr_open = 3, wr_write = - 1, wr_close = 0\<rparr> [[119], [102], [104, 105]] = (0, Some [])"
  using writer_status [of "\<lparr>wr_open = 3, wr_write = - 1, wr_close = 0\<rparr>" "[[119], [102], [104, 105]]"]
  by (auto simp: prod_eq_iff)

section \<open>The self-test functions\<close>

text \<open>\<^verbatim>\<open>examples/autotest-validate\<close>: constants for the set-up of the automated tests.\<close>

definition this_function_returns_true :: bool where
  "this_function_returns_true = True"

definition this_function_returns_false :: bool where
  "this_function_returns_false = False"

definition my_username :: string where
  "my_username = ''joshheyse''"

definition validate_main :: "string list" where
  "validate_main =
     [''this_function_returns_true returned '' @ (if this_function_returns_true then ''true'' else ''false''),
      ''this_function_returns_false returned '' @ (if this_function_returns_false then ''true'' else ''false'')]"

end
