(* ===== verification/Spec2Isabelle.thy ===== *)
theory Spec2Isabelle
  imports Driver_Concurrency Ring_Type Queue_Properties Socket_Properties Socket_Threads Socket_System System_Calls Threading Writer
begin

text \<open>
  Verification of the assignments repository: a Linux character driver that keeps the last ten
  commands written to it, a socket server that stores lines in it and sends the contents back, the
  list macros the server uses, and three small programs.

  \<^bold>\<open>How the parts interact.\<close> Clients connect to the server (\<^verbatim>\<open>server/aesdsocket.c\<close>); a thread per connection
  reads chunks, writes each complete line to the device file, or seeks in it when the line is a seek
  command, and copies the file to the socket. The device file is served by the driver
  (\<^verbatim>\<open>aesd-char-driver/main.c\<close>) over the ring of ten entries (\<^verbatim>\<open>aesd-circular-buffer.c\<close>). The server keeps its
  connections in a list of \<^verbatim>\<open>server/queue.h\<close>, collects finished threads after every accept, writes a time
  stamp from a timer thread when it is built without the driver, and cleans up on a signal. The programs
  in \<^verbatim>\<open>examples\<close> and \<^verbatim>\<open>finder-app/writer.c\<close> stand alone.

  \<^bold>\<open>Conventions.\<close> Memory faults, blocking for ever and results are values of the type \<open>checked\<close>; a run that may
  also not end is an \<open>option\<close> of it (\<open>run\<close>), and the loops of the source are \<open>run_loop\<close> and \<open>run_iter\<close>, defined as
  partial functions: not returning is \<open>None\<close>. Every theorem about a loop states that it returns. Integers
  of the source keep their width as words (\<^verbatim>\<open>size_t\<close>, \<^verbatim>\<open>loff_t\<close> 64 bits, ring offsets 8 bits, port 16 bits). Code that is
  not in the repository is an argument: the kernel's choices are a \<open>kenv\<close> (allocation, user copies,
  interrupted locks; \<open>kenv_ok\<close> is what is assumed of it, with allocations below \<open>kmalloc_limit\<close> = 2^32 bytes,
  more than the largest allocation \<^verbatim>\<open>kmalloc\<close> serves, so that sizes do not wrap), the system calls of the server an \<open>io\<close>, \<^verbatim>\<open>fixed_size_llseek\<close> an
  \<open>llseek_fn\<close>, the numbers that the \<^verbatim>\<open>_IO\<close> macros produce an \<open>ioc_abi\<close>, and the answers of \<^verbatim>\<open>getopt\<close>, \<^verbatim>\<open>fork\<close>,
  \<^verbatim>\<open>execv\<close>, \<^verbatim>\<open>waitpid\<close>, \<^verbatim>\<open>open\<close> and the like fields of records.

  \<^bold>\<open>The driver.\<close>
  \<^item> \<open>Aesd_Prelude\<close>: faults, runs and loops, the last elements of a list, word and list lemmas.
  \<^item> \<open>Circular_Buffer\<close>: \<^verbatim>\<open>aesd-circular-buffer.c\<close> and \<^verbatim>\<open>.h\<close>, statement by statement. The ring refines a list of at most
    ten entries (locale \<open>bounded_log\<close>); searching an offset is locating it in the concatenated entries.
  \<^item> \<open>Kernel_Memory\<close>: blocks, pointers with offsets, \<^verbatim>\<open>kmalloc\<close>, \<^verbatim>\<open>kfree_const\<close>, \<^verbatim>\<open>memcpy\<close>, \<^verbatim>\<open>memchr\<close>, \<^verbatim>\<open>kmemdup\<close> and
    the user copies, with use after free, double free and out-of-bounds access as faults.
  \<^item> \<open>Char_Driver\<close>: all file operations and module functions of \<^verbatim>\<open>main.c\<close>.
  \<^item> \<open>Driver_Invariant\<close>, \<open>Driver_Loop\<close>, \<open>Driver_Write\<close>, \<open>Driver_Spec\<close>, \<open>Driver_Control\<close>, \<open>Driver_History\<close>: the ownership
    invariant, every outcome of every operation under any behaviour of the kernel, the abstract device
    (\<open>dev_abs\<close>: the commands and the unfinished command) and the states reachable by any operations.
  \<^item> \<open>Driver_Properties\<close>: refinement of the abstract device by reads and writes, safety, leaks, error paths,
    seeking, unloading.
  \<^item> \<open>Ring_Type\<close>: the well-formed buffers as a type, on which the functions of the circular buffer are total.
  \<^item> \<open>Driver_Steps\<close>: every call that uses the device as the sequence of its steps, shown equal to the whole call when
    it runs alone.
  \<^item> \<open>Driver_Calls\<close>, \<open>Driver_Concurrency\<close>: one step of a call among others, and the interleavings of any number of writes, reads and seeks. With complete commands the calls
    take effect one after the other in the order in which they take the lock, and every call answers as at its place in that
    order; a command that was left unfinished is freed twice by two writes that overlap.

  \<^bold>\<open>The list macros.\<close>
  \<^item> \<open>Object_List\<close>: the interfaces \<open>object_list\<close> (insert at the head, remove) and \<open>object_queue\<close> (also insert at the
    end, remove the first), with the behaviour of every sequence of operations.
  \<^item> \<open>Queue_Slist\<close>, \<open>Queue_Stailq\<close>, \<open>Queue_List\<close>, \<open>Queue_Tailq\<close>: all macros of the four list kinds of \<^verbatim>\<open>queue.h\<close> over
    explicit memory, each related to an operation on a sequence, and the interpretations of the interfaces.
    \<open>Queue_Cells\<close> is the memory of the last three, in which links have addresses, with the lemmas on storing
    through such an address, on what an operation leaves alone, and on iteration.
  \<^item> \<open>Queue_Properties\<close>: what the iterations see after any sequence of operations, and that the header's own
    consistency checks hold.

  \<^bold>\<open>The server.\<close>
  \<^item> \<open>C_Strings\<close>: \<^verbatim>\<open>strchr\<close>, \<^verbatim>\<open>strncmp\<close>, \<^verbatim>\<open>sscanf\<close> of two unsigned numbers and \<^verbatim>\<open>strtol\<close>, on buffers.
  \<^item> \<open>Socket_Client\<close>: \<^verbatim>\<open>write_buffer\<close>, \<^verbatim>\<open>handle_client_connection\<close> with its buffers, lock and loops, and the \<^verbatim>\<open>timer\<close> thread.
  \<^item> \<open>Socket_Spec\<close>: the abstract file (\<open>store\<close>) and what any bytes from a client do to it and send back (\<open>serve_text\<close>).
  \<^item> \<open>Socket_Contract\<close>: what the threads rely on, as interfaces: a \<open>line_store\<close> is the abstract behaviour of the file,
    \<open>socket_out\<close> a socket that can be written, \<open>line_device\<close> the system calls of a thread. The lemmas say that the handler
    serves a line, a chunk, a round and a whole connection as specified, and what a round of the timer does.
  \<^item> \<open>Socket_Host\<close>: the threads of one process, which share a file, its position and its lock and have a socket each.
    A thread takes a turn for each round of its loop; every sequence of turns of any threads is related to an
    abstract service (interface \<open>file_device\<close>).
  \<^item> \<open>Socket_Device\<close> provides these interfaces on the driver: a whole connection end to end, and any interleaving of
    several connections. \<open>Socket_File\<close> provides them on a regular file, for the build without the driver, with the timer.
  \<^item> \<open>Socket_Steps\<close>: the threads in steps between which another may run (waiting for the lock, each line, the write of the
    timer, the unlock), shown equal to the whole threads when they run alone.
  \<^item> \<open>Thread_Relation\<close>, \<open>Socket_Threads\<close>: any number of threads interleaved at these steps, on the driver and on a regular file. Every
    execution is one of the abstract service, with a turn for each time the lock is taken (\<open>threads_rel\<close>, a simulation that
    accounts for what the holder of the lock has still to do), and from every state all connections can be brought to
    their end (\<open>th_rank\<close> bounds the steps: 1030 for each read of a socket, one for each byte of the buffer and a few more).
  \<^item> \<open>Socket_Properties\<close>: rejected seeks, lost clients, read errors, the seek command.
  \<^item> \<open>Socket_Server\<close>, \<open>Server_Properties\<close>: options, start-up, daemon, the accept loop with the list of connections,
    collection of threads, signals and exit, for both builds; the invariant of all reachable states.
  \<^item> \<open>Socket_System\<close>: the main thread and the threads of the connections together. In every reachable state every
    thread can go on; a connection is accepted exactly as long as no thread of the list has finished.
  \<^item> This theory: the two builds of the server agree while the driver has room for all lines.

  \<^bold>\<open>The other programs.\<close> \<open>System_Calls\<close> (\<^verbatim>\<open>examples/systemcalls\<close>), \<open>Threading\<close> (\<^verbatim>\<open>examples/threading\<close>: threads that
  interleave at the calls of the library) and \<open>Writer\<close> (\<^verbatim>\<open>finder-app/writer.c\<close>), each with its properties.

  \<^bold>\<open>Not modelled.\<close> Debug and log output; the tracing macros of \<^verbatim>\<open>queue.h\<close> and its variants for C++ classes, which are
  empty or unused in this build; \<^verbatim>\<open>aesd_circular_buffer_destroy\<close>, which is declared and never defined; the table
  \<^verbatim>\<open>aesd_fops\<close>, which only names the operations; shell scripts, build files and the unit tests. The threads
  of the server interleave at their locks, lines and unlocks; the system calls that serve one line are one step, since they
  run under the file lock and use only what it protects and the thread's own socket. The theorems about
  connections hold for all bytes a client may send, in all reads; what happens after an error of a read or a write of
  the socket is in \<open>Socket_Properties\<close>.
\<close>

section \<open>The two builds of the server\<close>

text \<open>
  The stores agree while the driver has room for all lines that are still to come from the
  connections \<open>cs\<close>, as long as no line is a seek command.
\<close>

definition lines_left :: "int set \<Rightarrow> (int \<Rightarrow> net_event list) \<Rightarrow> nat" where
  "lines_left cs evs = (\<Sum>c\<in>cs. \<Sum>e\<leftarrow>evs c. count_list (event_text e) newline)"

fun no_seek :: "byte list \<Rightarrow> bool" where
  "no_seek [] \<longleftrightarrow> True"
| "no_seek (b # bs) \<longleftrightarrow> take 18 (b # bs) \<noteq> seek_prefix \<and> no_seek bs"

definition same_store :: "nat \<Rightarrow> dev_abs \<times> nat \<Rightarrow> byte list \<times> nat \<Rightarrow> bool" where
  "same_store n x y \<longleftrightarrow> a_rest (fst x) = [] \<and> spec_data (fst x) = fst y \<and> length (a_cmds (fst x)) + n \<le> 10"

lemma spec_write_room:
  assumes "same_store (Suc n) x y" "cmd_ok l"
  shows "same_store n (spec_write (fst x) l, p) (fst y @ l, q)"
  using assms by (auto simp: same_store_def spec_write_cmd spec_data_def lastn_def)

lemma no_seek_drop: "no_seek t \<Longrightarrow> no_seek (drop k t)"
  by (induction t arbitrary: k) (auto simp: drop_Cons split: nat.split)

lemma no_seek_line:
  assumes "no_seek t" "newline \<in> set t"
  shows "take 18 (line_of t) \<noteq> seek_prefix"
proof
  assume s: "take 18 (line_of t) = seek_prefix"
  then have "18 \<le> length (line_of t)" using seek_prefix_props(1) by (metis length_take min.absorb_iff2)
  then have "take 18 t = seek_prefix" using s line_of_split(1) [OF assms(2)] by (metis append_eq_conv_conj le_Suc_ex take_add
      take_append diff_is_0_eq' take0 append_Nil2)
  then show False using assms seek_prefix_props(2) by (cases t) auto
qed

lemma count_line:
  assumes "newline \<in> set t"
  shows "count_list t newline = Suc (count_list (drop (length (line_of t)) t) newline)"
proof -
  have "count_list (line_of t) newline = 1" by (auto simp: line_of_def count_list_0_iff dest: set_takeWhileD)
  then show ?thesis using arg_cong [OF line_of_split(1) [OF assms], of "\<lambda>u. count_list u newline"] by simp
qed

lemma serve_text_same:
  assumes "same_store (count_list t newline + n) x y" "no_seek t"
  shows "\<exists>x' y' r. serve_text driver_store x t = (x', r, True) \<and> serve_text plain_store y t = (y', r, True) \<and> same_store n x' y'"
  using assms
proof (induction "length t" arbitrary: t x y rule: less_induct)
  case less
  show ?case
  proof (cases "newline \<in> set t")
    case False
    then show ?thesis using less.prems(1) by (auto simp: serve_text_stop count_list_0_iff [THEN iffD2])
  next
    case True
    let ?l = "line_of t" and ?t = "drop (length (line_of t)) t"
    let ?x = "(spec_write (fst x) ?l, length (spec_data (spec_write (fst x) ?l)))" and ?y = "(fst y @ ?l, length (fst y @ ?l))"
    have "same_store (Suc (count_list ?t newline + n)) x y" using less.prems(1) count_line [OF True] by simp
    then have s: "same_store (count_list ?t newline + n) ?x ?y" by (rule spec_write_room) (rule line_of_split(2) [OF True])
    have lt: "length ?t < length t" using True by (auto simp: line_of_def intro!: diff_less length_pos_if_in_set)
    obtain x' y' r where r: "serve_text driver_store ?x ?t = (x', r, True)" "serve_text plain_store ?y ?t = (y', r, True)"
        "same_store n x' y'"
      using less.hyps [OF lt s no_seek_drop [OF less.prems(2)]] by blast
    have "serve_line driver_store x t = Some (?x, fst y @ ?l)" "serve_line plain_store y t = Some (?y, fst y @ ?l)"
      using no_seek_line [OF less.prems(2) True] s by (simp_all add: serve_line_def Let_def same_store_def)
    then show ?thesis
      using r True unfolding serve_text.simps [of driver_store x t] serve_text.simps [of plain_store y t] by simp
  qed
qed

lemma lines_left_turn:
  assumes "finite cs" "c \<in> cs" "evs c = e # es"
  shows "lines_left cs evs = count_list (event_text e) newline + lines_left cs (evs(c := es))"
proof -
  let ?f = "\<lambda>evs c. \<Sum>e\<leftarrow>evs c. count_list (event_text e) newline"
  have "(\<Sum>x\<in>cs - {c}. ?f (evs(c := es)) x) = (\<Sum>x\<in>cs - {c}. ?f evs x)" by (intro sum.cong) auto
  then show ?thesis using assms by (simp add: lines_left_def sum.remove [OF assms(1,2)])
qed

definition same_service :: "int set \<Rightarrow> dev_abs spec_service \<Rightarrow> byte list spec_service \<Rightarrow> bool" where
  "same_service cs S T \<longleftrightarrow> same_store (lines_left cs (ss_pending S)) (ss_store S) (ss_store T) \<and>
     ss_pending T = ss_pending S \<and> ss_sent T = ss_sent S \<and> ss_live T = ss_live S \<and>
     (\<forall>c. \<forall>e\<in>set (ss_pending S c). no_seek (event_text e))"

lemma same_turn:
  assumes "finite cs" "c \<in> cs" "same_service cs S T"
  shows "same_service cs (spec_turn driver_store S (Client c)) (spec_turn plain_store T (Client c))"
proof (cases "ss_live S c \<and> ss_pending S c \<noteq> []")
  case True
  then obtain e es where p: "ss_live S c" "ss_pending S c = e # es" by (cases "ss_pending S c") auto
  note R = assms(3) [unfolded same_service_def]
  have "no_seek (event_text e)" using R p(2) by (metis list.set_intros(1))
  moreover have "same_store (count_list (event_text e) newline + lines_left cs ((ss_pending S)(c := es))) (ss_store S) (ss_store T)"
    using R lines_left_turn [where evs = "ss_pending S", OF assms(1,2) p(2)] by metis
  ultimately obtain x y r where "serve_text driver_store (ss_store S) (event_text e) = (x, r, True)"
      "serve_text plain_store (ss_store T) (event_text e) = (y, r, True)"
      "same_store (lines_left cs ((ss_pending S)(c := es))) x y"
    using serve_text_same by blast
  moreover have "\<forall>d. \<forall>e\<in>set (((ss_pending S)(c := es)) d). no_seek (event_text e)"
    using R p(2) by (metis fun_upd_apply list.set_intros(2))
  ultimately show ?thesis using R p by (simp add: same_service_def)
next
  case False
  then show ?thesis using assms(3) by (auto simp: same_service_def)
qed

lemma same_turns:
  assumes "finite cs" "set ts \<subseteq> cs" "same_service cs S T"
  shows "same_service cs (foldl (spec_turn driver_store) S (map Client ts)) (foldl (spec_turn plain_store) T (map Client ts))"
  using assms(2,3) by (induction ts arbitrary: S T) (auto intro: same_turn [OF assms(1)] simp del: spec_turn.simps)



end
